(* ===== verification/Plug_Prelude.thy ===== *)
theory Plug_Prelude
  imports Main "HOL-Library.Word" "HOL-Library.AList" "HOL-Library.Char_ord"
    "HOL-Library.List_Lexorder" "HOL-Library.Sublist"
begin

section \<open>Shared vocabulary of the development\<close>

text \<open>
  What the component theories share.
  \<^item> Machine integers: \<open>u8\<close>, \<open>u32\<close>, \<open>u64\<close> are words; the saturating operations
    of the Rust standard library are written out on words of any width.
  \<^item> Time: an \<open>Instant\<close> is a natural number of nanoseconds since the process epoch;
    \<open>elapsed\<close> is the truncating difference, as \<open>Instant::elapsed\<close> saturates at zero.
  \<^item> Hash maps (\<open>HashMap\<close>, \<open>DashMap\<close>) are association lists with distinct keys: the
    list order is the unspecified iteration order, and \<open>hget\<close> is what a lookup returns.
    Their laws are the locale \<open>hash_map\<close>.
  \<^item> Bounded \<open>VecDeque\<close>s that drop from the front when full: \<open>push_bounded\<close>, with the
    contract as the locale \<open>bounded_queue\<close>.
  \<^item> Two locales for systems with steps: \<open>step_system\<close> (a step relation with an
    invariant) and \<open>run_system\<close> (a deterministic operation folded over a list).
\<close>

named_theorems word_nat \<open>facts that move saturating word arithmetic to natural numbers\<close>
named_theorems inv_steps \<open>invariant preservation, one fact per operation\<close>

type_synonym u8 = "8 word"
type_synonym u32 = "32 word"
type_synonym u64 = "64 word"
type_synonym instant = nat
type_synonym duration = nat

subsection \<open>Saturating arithmetic\<close>

definition saturating_add :: "'a::len word \<Rightarrow> 'a word \<Rightarrow> 'a word" where
  "saturating_add a b = (if unat a + unat b < 2 ^ LENGTH('a) then a + b else - 1)"

definition saturating_sub :: "'a::len word \<Rightarrow> 'a word \<Rightarrow> 'a word" where
  "saturating_sub a b = (if b \<le> a then a - b else 0)"

lemma unat_max_word [simp]: "unat (- 1 :: 'a::len word) = 2 ^ LENGTH('a) - 1"
  by (simp add: unsigned_minus_1_eq_mask mask_eq_exp_minus_1)

lemma unat_saturating_add [word_nat]:
  "unat (saturating_add a b) = min (unat a + unat b) (2 ^ LENGTH('a) - 1)"
  for a b :: "'a::len word"
  by (auto simp: saturating_add_def unat_word_ariths min_def not_less)

lemma unat_saturating_sub [word_nat]:
  "unat (saturating_sub a b) = unat a - unat b"
  for a b :: "'a::len word"
proof (cases "b \<le> a")
  case True
  then show ?thesis by (simp add: saturating_sub_def unat_sub)
next
  case False
  then show ?thesis by (simp add: saturating_sub_def word_le_nat_alt)
qed

lemma saturating_sub_eq_0: "saturating_sub a b = 0 \<longleftrightarrow> unat a \<le> unat b"
  for a b :: "'a::len word"
proof -
  have "saturating_sub a b = 0 \<longleftrightarrow> unat (saturating_sub a b) = 0" by (simp add: unat_eq_zero)
  then show ?thesis by (simp add: unat_saturating_sub)
qed

lemma saturating_sub_max [simp]: "saturating_sub x (- 1) = 0"
  for x :: "'a::len word"
proof -
  have "x = - 1" if "- 1 \<le> x" using that by (rule antisym [OF word_n1_ge])
  then show ?thesis by (auto simp: saturating_sub_def)
qed

lemma numeral_le_one_word:
  "(numeral w :: 'a::len word) \<le> 1 \<longleftrightarrow> unat (numeral w :: 'a word) \<le> 1"
  by (simp only: word_le_nat_alt unsigned_1)

lemma unat_Suc_no_wrap [word_nat]:
  fixes a b :: "'a::len word"
  assumes "unat a < unat b"
  shows "unat (a + 1) = Suc (unat a)"
proof -
  have "Suc (unat a) < 2 ^ LENGTH('a)"
    using assms unsigned_less [of b, where ?'a = nat] by linarith
  then show ?thesis by (simp add: unat_word_ariths Suc_lessD)
qed

subsection \<open>Time\<close>

definition elapsed :: "instant \<Rightarrow> instant \<Rightarrow> duration" where
  "elapsed now t = now - t"

definition secs :: "nat \<Rightarrow> duration" where
  "secs n = n * 1000000000"

definition millis :: "nat \<Rightarrow> duration" where
  "millis n = n * 1000000"

lemma elapsed_mono: "now \<le> now' \<Longrightarrow> elapsed now t \<le> elapsed now' t"
  by (simp add: elapsed_def)

lemma elapsed_self [simp]: "elapsed t t = 0"
  by (simp add: elapsed_def)

subsection \<open>Hash maps\<close>

type_synonym ('k, 'v) hmap = "('k \<times> 'v) list"

abbreviation hget :: "('k, 'v) hmap \<Rightarrow> 'k \<Rightarrow> 'v option" where
  "hget m k \<equiv> map_of m k"

definition hinsert :: "'k \<Rightarrow> 'v \<Rightarrow> ('k, 'v) hmap \<Rightarrow> ('k, 'v) hmap" where
  "hinsert k v m = AList.update k v m"

definition hremove :: "'k \<Rightarrow> ('k, 'v) hmap \<Rightarrow> ('k, 'v) hmap" where
  "hremove k m = filter (\<lambda>e. fst e \<noteq> k) m"

definition hretain :: "('k \<Rightarrow> 'v \<Rightarrow> bool) \<Rightarrow> ('k, 'v) hmap \<Rightarrow> ('k, 'v) hmap" where
  "hretain P m = filter (\<lambda>e. P (fst e) (snd e)) m"

definition hmap_ok :: "('k, 'v) hmap \<Rightarrow> bool" where
  "hmap_ok m = distinct (map fst m)"

text \<open>
  The contract a client of a hash map relies on: what a lookup returns after each
  update, and that updates keep the representation well formed.
\<close>

locale hash_map =
  fixes get :: "'m \<Rightarrow> 'k \<Rightarrow> 'v option"
    and ins :: "'k \<Rightarrow> 'v \<Rightarrow> 'm \<Rightarrow> 'm"
    and del :: "'k \<Rightarrow> 'm \<Rightarrow> 'm"
    and retain :: "('k \<Rightarrow> 'v \<Rightarrow> bool) \<Rightarrow> 'm \<Rightarrow> 'm"
    and ok :: "'m \<Rightarrow> bool"
  assumes get_ins: "get (ins k v m) = (get m)(k \<mapsto> v)"
    and get_del: "get (del k m) = (get m)(k := None)"
    and get_retain: "ok m \<Longrightarrow>
          get (retain P m) k = (case get m k of None \<Rightarrow> None | Some v \<Rightarrow> if P k v then Some v else None)"
    and ok_ins: "ok m \<Longrightarrow> ok (ins k v m)"
    and ok_del: "ok m \<Longrightarrow> ok (del k m)"
    and ok_retain: "ok m \<Longrightarrow> ok (retain P m)"
begin

lemma get_ins_same: "get (ins k v m) k = Some v"
  by (simp add: get_ins)

lemma get_ins_other: "k' \<noteq> k \<Longrightarrow> get (ins k v m) k' = get m k'"
  by (simp add: get_ins)

lemma get_del_same: "get (del k m) k = None"
  by (simp add: get_del)

lemma get_del_other: "k' \<noteq> k \<Longrightarrow> get (del k m) k' = get m k'"
  by (simp add: get_del)

lemma get_retain_Some:
  "ok m \<Longrightarrow> get (retain P m) k = Some v \<longleftrightarrow> get m k = Some v \<and> P k v"
  by (auto simp: get_retain split: option.splits)

lemma get_retain_None:
  "ok m \<Longrightarrow> get (retain P m) k = None \<longleftrightarrow> (\<forall>v. get m k = Some v \<longrightarrow> \<not> P k v)"
  by (auto simp: get_retain split: option.splits)

lemma ins_del_same: "get (del k (ins k v m)) = (get m)(k := None)"
  by (simp add: get_ins get_del)

end

lemma keys_filter_distinct: "distinct (map f xs) \<Longrightarrow> distinct (map f (filter P xs))"
  by (induction xs) auto

lemma map_of_filter_distinct:
  "distinct (map fst m) \<Longrightarrow>
   map_of (filter (\<lambda>e. P (fst e) (snd e)) m) k =
     (case map_of m k of None \<Rightarrow> None | Some v \<Rightarrow> if P k v then Some v else None)"
proof (induction m)
  case Nil
  then show ?case by simp
next
  case (Cons e m)
  obtain k' v' where e: "e = (k', v')" by (cases e)
  from Cons.prems have "map_of m k' = None"
    by (auto simp: e map_of_eq_None_iff)
  with Cons show ?case by (auto simp: e split: option.splits)
qed

lemma map_of_hremove: "map_of (hremove k m) = (map_of m)(k := None)"
proof
  fix x
  show "map_of (hremove k m) x = ((map_of m)(k := None)) x"
    unfolding hremove_def by (induction m) auto
qed

interpretation hm: hash_map "map_of :: ('k, 'v) hmap \<Rightarrow> 'k \<Rightarrow> 'v option" hinsert hremove hretain hmap_ok
proof (standard, goal_cases)
  case (1 k v m)
  then show ?case by (simp add: hinsert_def update_conv' fun_eq_iff)
next
  case (2 k m)
  then show ?case by (rule map_of_hremove)
next
  case (3 m P k)
  then show ?case by (simp add: hretain_def hmap_ok_def map_of_filter_distinct)
next
  case (4 m k v)
  then show ?case by (simp add: hinsert_def hmap_ok_def distinct_update)
next
  case (5 m k)
  then show ?case by (simp add: hremove_def hmap_ok_def keys_filter_distinct)
next
  case (6 m P)
  then show ?case by (simp add: hretain_def hmap_ok_def keys_filter_distinct)
qed

lemmas hmap_get = hm.get_ins hm.get_del
lemmas hmap_ok_intros [intro] = hm.ok_ins hm.ok_del hm.ok_retain

lemma hmap_ok_Nil [simp]: "hmap_ok []"
  by (simp add: hmap_ok_def)

lemma hmap_mem_iff: "hmap_ok m \<Longrightarrow> (k, v) \<in> set m \<longleftrightarrow> hget m k = Some v"
  by (simp add: hmap_ok_def)

lemma set_hremove: "set (hremove k m) = {e \<in> set m. fst e \<noteq> k}"
  by (simp add: hremove_def)

lemma hremove_absent: "hget m k = None \<Longrightarrow> hremove k m = m"
  by (force simp: hremove_def map_of_eq_None_iff filter_id_conv)

lemma length_hinsert_new: "hget m k = None \<Longrightarrow> length (hinsert k v m) = Suc (length m)"
  unfolding hinsert_def by (induction m) (auto split: if_splits)

lemma length_hinsert_old: "hget m k = Some w \<Longrightarrow> length (hinsert k v m) = length m"
  unfolding hinsert_def by (induction m) (auto split: if_splits)

lemma length_hremove_present:
  "hmap_ok m \<Longrightarrow> hget m k = Some v \<Longrightarrow> Suc (length (hremove k m)) = length m"
proof (induction m)
  case Nil
  then show ?case by simp
next
  case (Cons e m)
  show ?case
  proof (cases "fst e = k")
    case True
    with Cons.prems have "k \<notin> fst ` set m" by (auto simp: hmap_ok_def)
    then have "hremove k m = m" by (intro hremove_absent) (simp add: map_of_eq_None_iff)
    with True show ?thesis by (simp add: hremove_def)
  next
    case False
    with Cons show ?thesis by (cases e) (auto simp: hremove_def hmap_ok_def)
  qed
qed

lemma length_hremove_le: "length (hremove k m) \<le> length m"
  by (simp add: hremove_def)

lemma length_hretain_le: "length (hretain P m) \<le> length m"
  by (simp add: hretain_def)

subsection \<open>Bounded queues\<close>

text \<open>
  The repository bounds several \<open>VecDeque\<close>s the same way: when the queue already holds
  the limit, one element is popped from the front before the new one is pushed at the back.
\<close>

definition push_bounded :: "nat \<Rightarrow> 'a \<Rightarrow> 'a list \<Rightarrow> 'a list" where
  "push_bounded limit x q = (if limit \<le> length q then tl q else q) @ [x]"

locale bounded_queue =
  fixes push :: "'a \<Rightarrow> 'a list \<Rightarrow> 'a list"
    and limit :: nat
  assumes limit_pos: "0 < limit"
    and push_room: "length q < limit \<Longrightarrow> push x q = q @ [x]"
    and push_full: "length q = limit \<Longrightarrow> push x q = tl q @ [x]"
begin

lemma push_bounded_length: "length q \<le> limit \<Longrightarrow> length (push x q) \<le> limit"
proof (cases "length q < limit")
  case True
  then show ?thesis by (simp add: push_room)
next
  case False
  moreover assume "length q \<le> limit"
  ultimately have "length q = limit" by simp
  with limit_pos show ?thesis by (simp add: push_full)
qed

lemma push_last: "length q \<le> limit \<Longrightarrow> last (push x q) = x \<and> push x q \<noteq> []"
  by (cases "length q < limit") (auto simp: push_room push_full)

lemma push_suffix: "length q \<le> limit \<Longrightarrow> suffix (push x q) (q @ [x])"
  by (cases "length q < limit")
     (auto simp: push_room push_full intro: suffix_tl)

lemma fold_push_suffix:
  "length q \<le> limit \<Longrightarrow> suffix (fold push xs q) (q @ xs) \<and> length (fold push xs q) \<le> limit"
proof (induction xs arbitrary: q)
  case Nil
  then show ?case by simp
next
  case (Cons x xs)
  have "length (push x q) \<le> limit" by (rule push_bounded_length [OF Cons.prems])
  then have IH: "suffix (fold push xs (push x q)) (push x q @ xs)"
    "length (fold push xs (push x q)) \<le> limit"
    using Cons.IH by blast+
  have "suffix (push x q @ xs) ((q @ [x]) @ xs)"
    using push_suffix [OF Cons.prems, of x] by (auto simp: suffix_def)
  with IH show ?case by (auto intro: suffix_order.trans)
qed

end

lemma push_bounded_queue: "0 < limit \<Longrightarrow> bounded_queue (push_bounded limit) limit"
  by unfold_locales (auto simp: push_bounded_def)

subsection \<open>Systems with steps\<close>

locale step_system =
  fixes step :: "'s \<Rightarrow> 's \<Rightarrow> bool"
    and inv :: "'s \<Rightarrow> bool"
  assumes step_inv: "inv s \<Longrightarrow> step s t \<Longrightarrow> inv t"
begin

lemma steps_inv: "step\<^sup>*\<^sup>* s t \<Longrightarrow> inv s \<Longrightarrow> inv t"
  by (induction rule: rtranclp_induct) (auto intro: step_inv)

end

locale run_system =
  fixes exec :: "'op \<Rightarrow> 's \<Rightarrow> 's"
    and inv :: "'s \<Rightarrow> bool"
  assumes exec_inv: "inv s \<Longrightarrow> inv (exec op s)"
begin

lemma run_inv: "inv s \<Longrightarrow> inv (fold exec ops s)"
  by (induction ops arbitrary: s) (auto intro: exec_inv)

end

end
