(* ===== verification/Circuit.thy ===== *)
theory Circuit
  imports Plug_Prelude
begin

section \<open>The circuit breaker, one caller at a time\<close>

text \<open>
  Models \<open>plug-core/src/circuit.rs\<close> as it behaves when its operations do not overlap; the
  interleaving of their atomic accesses is the theory \<open>Circuit_Threads\<close>.
  The atomics are the fields of a record; the clock (\<open>nanos_since_epoch\<close>) is an argument of
  the operations that read it. The probe semaphore is \<open>tokio::sync::Semaphore\<close>, whose code
  is not part of the repository: its operations are the parameter \<open>sem_ops\<close> and what
  is relied on is \<open>semaphore_laws\<close>. The drain loop of \<open>call_allowed\<close> is
  a partial function in the option type, and \<open>drain_returns\<close> shows that it ends.
  The abstract breaker \<open>abs_step\<close> is the documented machine (Closed, Open, HalfOpen) on
  natural numbers; \<open>run_refines\<close> relates the two on every operation sequence.
\<close>

subsection \<open>The semaphore the breaker is built on\<close>

record 's sem_ops =
  try_acquire :: "'s \<Rightarrow> 's option"
  add_permits :: "'s \<Rightarrow> nat \<Rightarrow> 's"

text \<open>
  What \<open>tokio\<close> documents of a semaphore whose permits are forgotten once acquired:
  \<open>try_acquire\<close> fails exactly when no permit is left and takes one otherwise;
  \<open>add_permits\<close> adds the given number.
\<close>

definition semaphore_laws :: "'s sem_ops \<Rightarrow> ('s \<Rightarrow> nat) \<Rightarrow> bool" where
  "semaphore_laws S avail \<longleftrightarrow>
     (\<forall>s. try_acquire S s = None \<longleftrightarrow> avail s = 0) \<and>
     (\<forall>s s'. try_acquire S s = Some s' \<longrightarrow> avail s = Suc (avail s')) \<and>
     (\<forall>s n. avail (add_permits S s n) = avail s + n)"

lemma semaphore_lawsD:
  assumes "semaphore_laws S avail"
  shows "try_acquire S s = None \<longleftrightarrow> avail s = 0"
    and "try_acquire S s = Some s' \<Longrightarrow> avail s = Suc (avail s')"
    and "avail (add_permits S s n) = avail s + n"
  using assms by (auto simp: semaphore_laws_def)

text \<open>A counter is such a semaphore; it is used to instantiate the laws in witnesses.\<close>

definition counter_semaphore :: "nat sem_ops" where
  "counter_semaphore =
     \<lparr>try_acquire = (\<lambda>n. if n = 0 then None else Some (n - 1)), add_permits = (\<lambda>n k. n + k)\<rparr>"

lemma counter_semaphore_laws: "semaphore_laws counter_semaphore (\<lambda>n. n)"
  by (auto simp: semaphore_laws_def counter_semaphore_def split: if_splits)

subsection \<open>State\<close>

definition STATE_CLOSED :: u8 where "STATE_CLOSED = 0"
definition STATE_OPEN :: u8 where "STATE_OPEN = 1"
definition STATE_HALF_OPEN :: u8 where "STATE_HALF_OPEN = 2"

datatype circuit_state = Closed | Open | HalfOpen

datatype circuit_breaker_error = CircuitBreakerError

record circuit_breaker_config =
  failure_threshold :: u32
  open_duration :: duration
  probe_count :: nat

definition circuit_breaker_config_default :: circuit_breaker_config where
  "circuit_breaker_config_default =
     \<lparr>failure_threshold = 5, open_duration = secs 30, probe_count = 2\<rparr>"

record 's circuit_breaker =
  cb_state :: u8
  failure_count :: u32
  open_since_nanos :: u64
  probe_semaphore :: 's
  cb_config :: circuit_breaker_config

text \<open>\<open>sem0\<close> is the semaphore \<open>Semaphore::new(0)\<close> returns.\<close>

definition circuit_breaker_new :: "'s \<Rightarrow> circuit_breaker_config \<Rightarrow> 's circuit_breaker" where
  "circuit_breaker_new sem0 config =
     \<lparr>cb_state = STATE_CLOSED, failure_count = 0, open_since_nanos = - 1,
      probe_semaphore = sem0, cb_config = config\<rparr>"

subsection \<open>Operations\<close>

definition try_acquire_probe ::
  "'s sem_ops \<Rightarrow> 's circuit_breaker \<Rightarrow> (circuit_breaker_error + unit) \<times> 's circuit_breaker" where
  "try_acquire_probe S cb =
     (case try_acquire S (probe_semaphore cb) of
        Some sem \<Rightarrow> (Inr (), cb\<lparr>probe_semaphore := sem\<rparr>)
      | None \<Rightarrow> (Inl CircuitBreakerError, cb))"

partial_function (option) drain :: "'s sem_ops \<Rightarrow> 's \<Rightarrow> 's option" where
  "drain S sem = (case try_acquire S sem of None \<Rightarrow> Some sem | Some sem' \<Rightarrow> drain S sem')"

definition open_elapsed :: "u64 \<Rightarrow> 's circuit_breaker \<Rightarrow> bool" where
  "open_elapsed now cb \<longleftrightarrow>
     open_duration (cb_config cb) \<le> unat (saturating_sub now (open_since_nanos cb))"

definition call_allowed ::
  "'s sem_ops \<Rightarrow> u64 \<Rightarrow> 's circuit_breaker \<Rightarrow>
   ((circuit_breaker_error + unit) \<times> 's circuit_breaker) option" where
  "call_allowed S now cb =
     (if cb_state cb = STATE_CLOSED then Some (Inr (), cb)
      else if cb_state cb = STATE_OPEN then
        (if open_elapsed now cb then
           (case drain S (probe_semaphore cb) of
              None \<Rightarrow> None
            | Some sem \<Rightarrow>
                Some (try_acquire_probe S
                  (cb\<lparr>cb_state := STATE_HALF_OPEN,
                      probe_semaphore := add_permits S sem (probe_count (cb_config cb))\<rparr>)))
         else Some (Inl CircuitBreakerError, cb))
      else if cb_state cb = STATE_HALF_OPEN then Some (try_acquire_probe S cb)
      else Some (Inl CircuitBreakerError, cb))"

definition on_success :: "'s circuit_breaker \<Rightarrow> 's circuit_breaker" where
  "on_success cb =
     (if cb_state cb = STATE_CLOSED then cb\<lparr>failure_count := 0\<rparr>
      else if cb_state cb = STATE_HALF_OPEN then
        cb\<lparr>cb_state := STATE_CLOSED, failure_count := 0, open_since_nanos := - 1\<rparr>
      else cb)"

definition on_failure :: "u64 \<Rightarrow> 's circuit_breaker \<Rightarrow> 's circuit_breaker" where
  "on_failure now cb =
     (if cb_state cb = STATE_CLOSED then
        (let prev = failure_count cb; cb' = cb\<lparr>failure_count := prev + 1\<rparr>
         in if failure_threshold (cb_config cb) \<le> prev + 1
            then cb'\<lparr>cb_state := STATE_OPEN, open_since_nanos := now\<rparr>
            else cb')
      else if cb_state cb = STATE_HALF_OPEN then
        cb\<lparr>cb_state := STATE_OPEN, open_since_nanos := now\<rparr>
      else cb)"

definition cb_reset :: "'s circuit_breaker \<Rightarrow> 's circuit_breaker" where
  "cb_reset cb = cb\<lparr>cb_state := STATE_CLOSED, failure_count := 0, open_since_nanos := - 1\<rparr>"

text \<open>\<open>None\<close> is the \<open>unreachable!\<close> panic of the accessor.\<close>

definition observed_state :: "'s circuit_breaker \<Rightarrow> circuit_state option" where
  "observed_state cb =
     (if cb_state cb = STATE_CLOSED then Some Closed
      else if cb_state cb = STATE_OPEN then Some Open
      else if cb_state cb = STATE_HALF_OPEN then Some HalfOpen
      else None)"

lemmas state_consts = STATE_CLOSED_def STATE_OPEN_def STATE_HALF_OPEN_def

lemma states_distinct [simp]:
  "STATE_CLOSED \<noteq> STATE_OPEN" "STATE_OPEN \<noteq> STATE_CLOSED"
  "STATE_CLOSED \<noteq> STATE_HALF_OPEN" "STATE_HALF_OPEN \<noteq> STATE_CLOSED"
  "STATE_OPEN \<noteq> STATE_HALF_OPEN" "STATE_HALF_OPEN \<noteq> STATE_OPEN"
  by (simp_all add: state_consts)

subsection \<open>The drain loop ends\<close>

lemma drain_returns:
  assumes "semaphore_laws S avail"
  shows "\<exists>sem'. drain S sem = Some sem' \<and> avail sem' = 0"
proof (induction "avail sem" arbitrary: sem)
  case 0
  with assms have "try_acquire S sem = None" by (simp add: semaphore_lawsD)
  with 0 show ?case by (simp add: drain.simps)
next
  case (Suc n)
  with assms have "try_acquire S sem \<noteq> None" by (simp add: semaphore_lawsD)
  then obtain sem1 where s1: "try_acquire S sem = Some sem1" by auto
  with assms Suc(2) have "n = avail sem1" by (auto dest: semaphore_lawsD(2))
  from Suc(1) [OF this] s1 show ?case by (simp add: drain.simps)
qed

subsection \<open>Operation sequences\<close>

datatype cb_op = CallAllowed u64 | OnSuccess | OnFailure u64 | Reset

text \<open>
  One operation, with what it returns: whether the call was let through for
  \<open>CallAllowed\<close>, nothing for the others.
\<close>

fun cb_exec :: "'s sem_ops \<Rightarrow> cb_op \<Rightarrow> 's circuit_breaker \<Rightarrow> (bool option \<times> 's circuit_breaker) option" where
  "cb_exec S (CallAllowed now) cb =
     map_option (\<lambda>(r, cb'). (Some (r = Inr ()), cb')) (call_allowed S now cb)"
| "cb_exec S OnSuccess cb = Some (None, on_success cb)"
| "cb_exec S (OnFailure now) cb = Some (None, on_failure now cb)"
| "cb_exec S Reset cb = Some (None, cb_reset cb)"

fun cb_run :: "'s sem_ops \<Rightarrow> cb_op list \<Rightarrow> 's circuit_breaker \<Rightarrow> (bool option list \<times> 's circuit_breaker) option" where
  "cb_run S [] cb = Some ([], cb)"
| "cb_run S (op # ops) cb =
     (case cb_exec S op cb of
        None \<Rightarrow> None
      | Some (r, cb') \<Rightarrow> map_option (\<lambda>(rs, cb''). (r # rs, cb'')) (cb_run S ops cb'))"

subsection \<open>The documented machine\<close>

text \<open>
  The abstract breaker: closed with a count of consecutive failures, open since an instant,
  or half-open with the probe calls still allowed.
\<close>

datatype abs_breaker = AClosed nat | AOpen nat | AHalfOpen nat

fun abs_step :: "circuit_breaker_config \<Rightarrow> cb_op \<Rightarrow> abs_breaker \<Rightarrow> bool option \<times> abs_breaker" where
  "abs_step c (CallAllowed now) (AClosed n) = (Some True, AClosed n)"
| "abs_step c (CallAllowed now) (AOpen t) =
     (if open_duration c \<le> unat now - t
      then (Some (0 < probe_count c), AHalfOpen (probe_count c - 1))
      else (Some False, AOpen t))"
| "abs_step c (CallAllowed now) (AHalfOpen k) = (Some (0 < k), AHalfOpen (k - 1))"
| "abs_step c OnSuccess (AClosed n) = (None, AClosed 0)"
| "abs_step c OnSuccess (AOpen t) = (None, AOpen t)"
| "abs_step c OnSuccess (AHalfOpen k) = (None, AClosed 0)"
| "abs_step c (OnFailure now) (AClosed n) =
     (None, if unat (failure_threshold c) \<le> n + 1 then AOpen (unat now) else AClosed (n + 1))"
| "abs_step c (OnFailure now) (AOpen t) = (None, AOpen t)"
| "abs_step c (OnFailure now) (AHalfOpen k) = (None, AOpen (unat now))"
| "abs_step c Reset a = (None, AClosed 0)"

fun abs_run :: "circuit_breaker_config \<Rightarrow> cb_op list \<Rightarrow> abs_breaker \<Rightarrow> bool option list \<times> abs_breaker" where
  "abs_run c [] a = ([], a)"
| "abs_run c (op # ops) a =
     (let (r, a') = abs_step c op a; (rs, a'') = abs_run c ops a' in (r # rs, a''))"

definition abs_of :: "('s \<Rightarrow> nat) \<Rightarrow> 's circuit_breaker \<Rightarrow> abs_breaker" where
  "abs_of avail cb =
     (if cb_state cb = STATE_CLOSED then AClosed (unat (failure_count cb))
      else if cb_state cb = STATE_OPEN then AOpen (unat (open_since_nanos cb))
      else AHalfOpen (avail (probe_semaphore cb)))"

text \<open>
  What the code keeps true between its fields: the state byte is one of the three constants,
  a closed breaker has counted fewer failures than the threshold, and a half-open one never
  has more permits than \<open>probe_count\<close>.
\<close>

definition cb_inv :: "('s \<Rightarrow> nat) \<Rightarrow> 's circuit_breaker \<Rightarrow> bool" where
  "cb_inv avail cb \<longleftrightarrow>
     cb_state cb \<in> {STATE_CLOSED, STATE_OPEN, STATE_HALF_OPEN} \<and>
     (cb_state cb = STATE_CLOSED \<longrightarrow>
        failure_count cb = 0 \<or> unat (failure_count cb) < unat (failure_threshold (cb_config cb))) \<and>
     (cb_state cb = STATE_HALF_OPEN \<longrightarrow>
        avail (probe_semaphore cb) \<le> probe_count (cb_config cb))"

lemma cb_new_simps [simp]:
  "cb_inv avail (circuit_breaker_new sem0 c)"
  "abs_of avail (circuit_breaker_new sem0 c) = AClosed 0"
  "cb_config (circuit_breaker_new sem0 c) = c"
  by (simp_all add: cb_inv_def circuit_breaker_new_def abs_of_def)

subsection \<open>Simulation, operation by operation\<close>

lemma failure_count_step:
  assumes "cb_inv avail cb" and "cb_state cb = STATE_CLOSED"
  shows "unat (failure_count cb + 1) = Suc (unat (failure_count cb))"
  using assms by (auto simp: cb_inv_def word_nat)

lemma try_acquire_probe_cases:
  assumes laws: "semaphore_laws S avail"
  obtains (none) "avail (probe_semaphore cb) = 0"
      "try_acquire_probe S cb = (Inl CircuitBreakerError, cb)"
    | (some) sem where "avail (probe_semaphore cb) = Suc (avail sem)"
      "try_acquire_probe S cb = (Inr (), cb\<lparr>probe_semaphore := sem\<rparr>)"
proof (cases "try_acquire S (probe_semaphore cb)")
  case None
  with laws have "avail (probe_semaphore cb) = 0" by (simp add: semaphore_lawsD)
  with None show ?thesis by (intro none) (simp_all add: try_acquire_probe_def)
next
  case (Some sem)
  with laws have "avail (probe_semaphore cb) = Suc (avail sem)" by (rule semaphore_lawsD)
  with Some show ?thesis by (intro some) (simp_all add: try_acquire_probe_def)
qed

text \<open>What one operation promises: it returns, keeps the invariant and the configuration,
  and answers as the abstract machine does.\<close>

definition simulates ::
  "('s \<Rightarrow> nat) \<Rightarrow> cb_op \<Rightarrow> 's circuit_breaker \<Rightarrow> bool option \<Rightarrow> 's circuit_breaker \<Rightarrow> bool" where
  "simulates avail op cb r cb' \<longleftrightarrow>
     cb_inv avail cb' \<and> cb_config cb' = cb_config cb \<and>
     abs_step (cb_config cb) op (abs_of avail cb) = (r, abs_of avail cb')"

lemma probe_simulates:
  assumes laws: "semaphore_laws S avail"
    and half: "cb_state cb = STATE_HALF_OPEN"
    and bound: "avail (probe_semaphore cb) \<le> probe_count (cb_config cb)"
  shows "\<exists>r cb'. try_acquire_probe S cb = (r, cb') \<and> cb_inv avail cb' \<and>
           cb_config cb' = cb_config cb \<and> cb_state cb' = STATE_HALF_OPEN \<and>
           (r = Inr () \<longleftrightarrow> 0 < avail (probe_semaphore cb)) \<and>
           avail (probe_semaphore cb') = avail (probe_semaphore cb) - 1"
proof (rule try_acquire_probe_cases [OF laws, of cb])
  assume "avail (probe_semaphore cb) = 0" "try_acquire_probe S cb = (Inl CircuitBreakerError, cb)"
  with half bound show ?thesis by (auto simp: cb_inv_def)
next
  fix sem
  assume "avail (probe_semaphore cb) = Suc (avail sem)"
    "try_acquire_probe S cb = (Inr (), cb\<lparr>probe_semaphore := sem\<rparr>)"
  with half bound show ?thesis by (auto simp: cb_inv_def)
qed

lemma call_allowed_simulates:
  assumes laws: "semaphore_laws S avail" and inv: "cb_inv avail cb"
  shows "\<exists>r cb'. cb_exec S (CallAllowed now) cb = Some (r, cb') \<and> simulates avail (CallAllowed now) cb r cb'"
proof -
  consider "cb_state cb = STATE_CLOSED" | "cb_state cb = STATE_OPEN" | "cb_state cb = STATE_HALF_OPEN"
    using inv by (auto simp: cb_inv_def)
  then show ?thesis
  proof cases
    case 1
    with inv show ?thesis by (simp add: call_allowed_def simulates_def abs_of_def)
  next
    case 2
    from drain_returns [OF laws] obtain sem where
      sem: "drain S (probe_semaphore cb) = Some sem" "avail sem = 0" by blast
    define half where "half = cb\<lparr>cb_state := STATE_HALF_OPEN,
      probe_semaphore := add_permits S sem (probe_count (cb_config cb))\<rparr>"
    have avail_half: "avail (probe_semaphore half) = probe_count (cb_config cb)"
      using sem laws by (simp add: half_def semaphore_lawsD)
    have "avail (probe_semaphore half) \<le> probe_count (cb_config half)"
      unfolding avail_half by (simp add: half_def)
    from probe_simulates [OF laws _ this] obtain r cb' where
      p: "try_acquire_probe S half = (r, cb')" "cb_inv avail cb'" "cb_config cb' = cb_config half"
        "cb_state cb' = STATE_HALF_OPEN" "r = Inr () \<longleftrightarrow> 0 < probe_count (cb_config cb)"
        "avail (probe_semaphore cb') = probe_count (cb_config cb) - 1"
      unfolding avail_half by (auto simp: half_def)
    show ?thesis
    proof (cases "open_elapsed now cb")
      case True
      with 2 sem(1) p(1) have "cb_exec S (CallAllowed now) cb = Some (Some (r = Inr ()), cb')"
        by (simp add: call_allowed_def half_def)
      moreover have "simulates avail (CallAllowed now) cb (Some (r = Inr ())) cb'"
        using 2 True p(2-) by (simp add: simulates_def abs_of_def open_elapsed_def word_nat half_def)
      ultimately show ?thesis by blast
    next
      case False
      with 2 inv show ?thesis
        by (simp add: call_allowed_def simulates_def abs_of_def open_elapsed_def word_nat)
    qed
  next
    case 3
    with inv have "avail (probe_semaphore cb) \<le> probe_count (cb_config cb)"
      by (simp add: cb_inv_def)
    from probe_simulates [OF laws 3 this] obtain r cb' where
      p: "try_acquire_probe S cb = (r, cb')" "cb_inv avail cb'" "cb_config cb' = cb_config cb"
        "cb_state cb' = STATE_HALF_OPEN" "r = Inr () \<longleftrightarrow> 0 < avail (probe_semaphore cb)"
        "avail (probe_semaphore cb') = avail (probe_semaphore cb) - 1"
      by auto
    have "cb_exec S (CallAllowed now) cb = Some (Some (r = Inr ()), cb')"
      using 3 p(1) by (simp add: call_allowed_def)
    moreover have "simulates avail (CallAllowed now) cb (Some (r = Inr ())) cb'"
      using 3 p(2-) by (simp add: simulates_def abs_of_def)
    ultimately show ?thesis by blast
  qed
qed

lemma on_failure_simulates:
  assumes "cb_inv avail cb"
  shows "simulates avail (OnFailure now) cb None (on_failure now cb)"
proof (cases "cb_state cb = STATE_CLOSED")
  case True
  with failure_count_step [OF assms True] assms show ?thesis
    by (auto simp: simulates_def on_failure_def Let_def abs_of_def cb_inv_def word_le_nat_alt)
next
  case False
  with assms show ?thesis
    by (auto simp: simulates_def on_failure_def abs_of_def cb_inv_def)
qed

lemma cb_exec_simulates:
  assumes "semaphore_laws S avail" and "cb_inv avail cb"
  shows "\<exists>r cb'. cb_exec S op cb = Some (r, cb') \<and> simulates avail op cb r cb'"
proof (cases op)
  case (CallAllowed now)
  with call_allowed_simulates [OF assms] show ?thesis by simp
next
  case OnSuccess
  with assms(2) show ?thesis
    by (auto simp: simulates_def on_success_def abs_of_def cb_inv_def)
next
  case (OnFailure now)
  with on_failure_simulates [OF assms(2)] show ?thesis by simp
next
  case Reset
  then show ?thesis by (simp add: simulates_def cb_reset_def abs_of_def cb_inv_def)
qed

lemma cb_run_simulates:
  assumes "semaphore_laws S avail" and "cb_inv avail cb"
  shows "\<exists>rs cb'. cb_run S ops cb = Some (rs, cb') \<and> cb_inv avail cb' \<and>
           cb_config cb' = cb_config cb \<and>
           abs_run (cb_config cb) ops (abs_of avail cb) = (rs, abs_of avail cb')"
  using assms(2)
proof (induction ops arbitrary: cb)
  case Nil
  then show ?case by simp
next
  case (Cons op ops)
  from cb_exec_simulates [OF assms(1) Cons.prems] obtain r cb1 where
    1: "cb_exec S op cb = Some (r, cb1)" "simulates avail op cb r cb1" by blast
  then have "cb_inv avail cb1" by (simp add: simulates_def)
  from Cons.IH [OF this] 1 show ?case by (auto simp: simulates_def)
qed

subsection \<open>The abstract machine\<close>

lemma abs_failures:
  assumes "n < unat (failure_threshold c)"
  shows "snd (abs_run c (map OnFailure ts) (AClosed n)) =
    (if n + length ts < unat (failure_threshold c) then AClosed (n + length ts)
     else AOpen (unat (ts ! (unat (failure_threshold c) - n - 1))))"
  using assms
proof (induction ts arbitrary: n)
  case Nil
  then show ?case by simp
next
  case (Cons t ts)
  have stay: "snd (abs_run c (map OnFailure us) (AOpen x)) = AOpen x" for us x
    by (induction us) (auto simp: Let_def split: prod.splits)
  show ?case
  proof (cases "unat (failure_threshold c) \<le> n + 1")
    case True
    with Cons.prems have "unat (failure_threshold c) - n - 1 = 0" by simp
    with True stay [of ts "unat t"] show ?thesis by (simp add: case_prod_beta Let_def)
  next
    case False
    then have lt: "n + 1 < unat (failure_threshold c)" by simp
    then have "(t # ts) ! (unat (failure_threshold c) - n - 1) =
        ts ! (unat (failure_threshold c) - (n + 1) - 1)"
      by (simp add: nth_Cons')
    with False Cons.IH [OF lt] show ?thesis by (simp add: case_prod_beta Let_def)
  qed
qed

text \<open>The calls a result list let through.\<close>

definition admitted :: "bool option list \<Rightarrow> nat" where
  "admitted rs = length (filter (\<lambda>r. r = Some True) rs)"

lemma admitted_simps [simp]:
  "admitted [] = 0" "admitted (r # rs) = (if r = Some True then 1 else 0) + admitted rs"
  by (simp_all add: admitted_def)

lemma abs_probes_half_open:
  "admitted (fst (abs_run c (map CallAllowed ts) (AHalfOpen k))) \<le> k"
proof (induction ts arbitrary: k)
  case Nil
  then show ?case by simp
next
  case (Cons t ts)
  from Cons.IH [of "k - 1"] show ?case by (auto simp: case_prod_beta Let_def)
qed

lemma abs_probes_open:
  "admitted (fst (abs_run c (map CallAllowed ts) (AOpen t))) \<le> probe_count c"
proof (induction ts)
  case Nil
  then show ?case by simp
next
  case (Cons now ts)
  with abs_probes_half_open [of c ts "probe_count c - 1"] show ?case
    by (auto simp: case_prod_beta Let_def)
qed

subsection \<open>Properties\<close>



text \<open>
  A new breaker stays closed for fewer than \<open>failure_threshold\<close> consecutive failures and
  is open from the failure that reaches the threshold on; the open period starts at the
  time of that failure, and every call made before \<open>open_duration\<close> has passed since then is
  refused without changing anything.
\<close>

theorem opens_at_threshold:
  assumes laws: "semaphore_laws S avail"
    and thr: "0 < unat (failure_threshold c)"
    and run: "cb_run S (map OnFailure ts) (circuit_breaker_new sem0 c) = Some (rs, cb)"
  shows "if length ts < unat (failure_threshold c) then observed_state cb = Some Closed
         else observed_state cb = Some Open \<and>
           (\<forall>now. unat now - unat (ts ! (unat (failure_threshold c) - 1)) < open_duration c \<longrightarrow>
              call_allowed S now cb = Some (Inl CircuitBreakerError, cb))"
proof -
  from cb_run_simulates [OF laws, of "circuit_breaker_new sem0 c" "map OnFailure ts"] run
  have sim: "cb_inv avail cb" "cb_config cb = c"
    "snd (abs_run c (map OnFailure ts) (AClosed 0)) = abs_of avail cb"
    by auto
  with abs_failures [OF thr, of ts]
  have abs: "abs_of avail cb = (if length ts < unat (failure_threshold c) then AClosed (length ts)
     else AOpen (unat (ts ! (unat (failure_threshold c) - 1))))" by simp
  show ?thesis
  proof (cases "length ts < unat (failure_threshold c)")
    case True
    with abs show ?thesis by (auto simp: abs_of_def observed_state_def split: if_splits)
  next
    case False
    with abs have "cb_state cb = STATE_OPEN"
      "unat (open_since_nanos cb) = unat (ts ! (unat (failure_threshold c) - 1))"
      by (auto simp: abs_of_def split: if_splits)
    with False sim(2) show ?thesis
      by (auto simp: observed_state_def call_allowed_def open_elapsed_def word_nat)
  qed
qed

theorem opens_at_threshold_witness:
  "\<exists>rs cb. cb_run counter_semaphore (map OnFailure [1, 2, 3, 4, 5])
       (circuit_breaker_new 0 circuit_breaker_config_default) = Some (rs, cb) \<and>
     observed_state cb = Some Open \<and>
     call_allowed counter_semaphore 100 cb = Some (Inl CircuitBreakerError, cb)"
proof -
  have thr: "0 < unat (failure_threshold circuit_breaker_config_default)"
    by (simp add: circuit_breaker_config_default_def)
  obtain rs cb where run: "cb_run counter_semaphore (map OnFailure [1, 2, 3, 4, 5])
       (circuit_breaker_new 0 circuit_breaker_config_default) = Some (rs, cb)"
    by simp
  from opens_at_threshold [OF counter_semaphore_laws thr run]
  have "observed_state cb = Some Open \<and>
      call_allowed counter_semaphore 100 cb = Some (Inl CircuitBreakerError, cb)"
    by (simp add: circuit_breaker_config_default_def secs_def)
  with run show ?thesis by blast
qed

text \<open>
  From any reachable state that is not closed, however many calls are attempted in a row
  and whenever, at most \<open>probe_count\<close> of them are let through until an outcome is reported.
\<close>

theorem probes_bounded:
  assumes laws: "semaphore_laws S avail"
    and reached: "cb_run S ops (circuit_breaker_new sem0 c) = Some (rs0, cb)"
    and not_closed: "observed_state cb \<noteq> Some Closed"
    and run: "cb_run S (map CallAllowed ts) cb = Some (rs, cb')"
  shows "admitted rs \<le> probe_count c"
proof -
  from cb_run_simulates [OF laws, of "circuit_breaker_new sem0 c" ops] reached
  have inv: "cb_inv avail cb" and conf: "cb_config cb = c"
    by auto
  from cb_run_simulates [OF laws inv, of "map CallAllowed ts"] run conf
  have rs: "rs = fst (abs_run c (map CallAllowed ts) (abs_of avail cb))" by auto
  show ?thesis
  proof (cases "cb_state cb = STATE_OPEN")
    case True
    then show ?thesis by (simp add: rs abs_of_def abs_probes_open)
  next
    case False
    with not_closed inv have "cb_state cb = STATE_HALF_OPEN"
      by (auto simp: cb_inv_def observed_state_def split: if_splits)
    with inv conf abs_probes_half_open [of c ts "avail (probe_semaphore cb)"] show ?thesis
      by (simp add: rs abs_of_def cb_inv_def)
  qed
qed

theorem probes_bounded_witness:
  "\<exists>rs0 cb. cb_run counter_semaphore (map OnFailure [1, 2, 3, 4, 5])
       (circuit_breaker_new 0 circuit_breaker_config_default) = Some (rs0, cb) \<and>
     (\<exists>rs cb'. cb_run counter_semaphore (map CallAllowed [10, 40000000000, 40000000000, 40000000000]) cb
        = Some (rs, cb') \<and> admitted rs \<le> 2)"
proof -
  obtain rs0 cb where run: "cb_run counter_semaphore (map OnFailure [1, 2, 3, 4, 5])
       (circuit_breaker_new 0 circuit_breaker_config_default) = Some (rs0, cb)"
    by simp
  have thr: "0 < unat (failure_threshold circuit_breaker_config_default)"
    by (simp add: circuit_breaker_config_default_def)
  from cb_run_simulates [OF counter_semaphore_laws, of "circuit_breaker_new 0 circuit_breaker_config_default"
      "map OnFailure [1, 2, 3, 4, 5]"] run
  have inv: "cb_inv (\<lambda>n. n) cb" and
    "snd (abs_run circuit_breaker_config_default (map OnFailure [1, 2, 3, 4, 5]) (AClosed 0)) = abs_of (\<lambda>n. n) cb"
    by auto
  with abs_failures [OF thr, of "[1, 2, 3, 4, 5]"]
  have nc: "observed_state cb \<noteq> Some Closed"
    by (auto simp: abs_of_def observed_state_def circuit_breaker_config_default_def split: if_splits)
  from cb_run_simulates [OF counter_semaphore_laws inv] obtain rs cb' where
    run': "cb_run counter_semaphore (map CallAllowed [10, 40000000000, 40000000000, 40000000000]) cb = Some (rs, cb')"
    by blast
  from probes_bounded [OF counter_semaphore_laws run nc run'] run run' show ?thesis
    by (auto simp: circuit_breaker_config_default_def)
qed

text \<open>
  Recovery: once \<open>open_duration\<close> has passed, an open breaker in any reachable state lets
  the next call through as a probe and is half-open after it; a success then closes it with
  the failure count cleared, and a failure opens it again from that moment.
\<close>

theorem open_breaker_recovers:
  assumes laws: "semaphore_laws S avail"
    and reached: "cb_run S ops (circuit_breaker_new sem0 c) = Some (rs0, cb)"
    and opened: "observed_state cb = Some Open"
    and waited: "unat (open_since_nanos cb) + open_duration c \<le> unat now"
    and probes: "0 < probe_count c"
  shows "\<exists>cb'. call_allowed S now cb = Some (Inr (), cb') \<and> observed_state cb' = Some HalfOpen \<and>
           observed_state (on_success cb') = Some Closed \<and> failure_count (on_success cb') = 0 \<and>
           observed_state (on_failure t cb') = Some Open \<and> open_since_nanos (on_failure t cb') = t"
proof -
  from cb_run_simulates [OF laws, of "circuit_breaker_new sem0 c" ops] reached
  have inv: "cb_inv avail cb" and conf: "cb_config cb = c"
    by auto
  from opened have st: "cb_state cb = STATE_OPEN"
    by (auto simp: observed_state_def split: if_splits)
  have el: "open_elapsed now cb" using waited conf by (simp add: open_elapsed_def word_nat)
  from drain_returns [OF laws] obtain sem where
    sem: "drain S (probe_semaphore cb) = Some sem" "avail sem = 0" by blast
  define half where "half = cb\<lparr>cb_state := STATE_HALF_OPEN,
      probe_semaphore := add_permits S sem (probe_count (cb_config cb))\<rparr>"
  have "avail (probe_semaphore half) = probe_count c"
    using sem laws conf by (simp add: half_def semaphore_lawsD)
  with probes have "try_acquire S (probe_semaphore half) \<noteq> None"
    using semaphore_lawsD(1) [OF laws] by auto
  then obtain sem' where "try_acquire_probe S half = (Inr (), half\<lparr>probe_semaphore := sem'\<rparr>)"
    by (auto simp: try_acquire_probe_def)
  with st el sem(1) have "call_allowed S now cb = Some (Inr (), half\<lparr>probe_semaphore := sem'\<rparr>)"
    by (simp add: call_allowed_def half_def)
  then show ?thesis
    by (simp add: half_def observed_state_def on_success_def on_failure_def)
qed

theorem open_breaker_recovers_witness:
  "\<exists>cb. cb_run counter_semaphore [OnFailure 7]
       (circuit_breaker_new 0 \<lparr>failure_threshold = 1, open_duration = 10, probe_count = 2\<rparr>) = Some ([None], cb) \<and>
     (\<exists>cb'. call_allowed counter_semaphore 20 cb = Some (Inr (), cb') \<and> observed_state cb' = Some HalfOpen \<and>
        observed_state (on_success cb') = Some Closed \<and> failure_count (on_success cb') = 0 \<and>
        observed_state (on_failure 30 cb') = Some Open \<and> open_since_nanos (on_failure 30 cb') = 30)"
proof -
  let ?c = "\<lparr>failure_threshold = 1, open_duration = 10, probe_count = 2\<rparr>"
  let ?cb = "on_failure 7 (circuit_breaker_new 0 ?c)"
  have run: "cb_run counter_semaphore [OnFailure 7] (circuit_breaker_new 0 ?c) = Some ([None], ?cb)"
    by simp
  have "\<exists>cb'. call_allowed counter_semaphore 20 ?cb = Some (Inr (), cb') \<and> observed_state cb' = Some HalfOpen \<and>
        observed_state (on_success cb') = Some Closed \<and> failure_count (on_success cb') = 0 \<and>
        observed_state (on_failure 30 cb') = Some Open \<and> open_since_nanos (on_failure 30 cb') = 30"
    by (rule open_breaker_recovers [OF counter_semaphore_laws run])
       (simp_all add: on_failure_def circuit_breaker_new_def observed_state_def)
  with run show ?thesis by blast
qed

end
