(* ===== verification/Circuit_Threads.thy ===== *)
theory Circuit_Threads
  imports Circuit
begin

section \<open>The circuit breaker under concurrent callers\<close>

text \<open>
  The breaker of \<open>plug-core/src/circuit.rs\<close> is lock-free: its operations are sequences of
  atomic accesses, and accesses of different threads interleave. Here every access is a step
  of its own. A thread is a program counter with its local values; \<open>micro\<close> performs the next
  access of a thread on the shared breaker, in the order the code makes them, and
  \<open>cb_step\<close> lets any thread run next, any idle thread start an operation, and the clock
  advance. The model is sequentially consistent; the weaker orderings of the code
  (\<open>Relaxed\<close> on the failure counter) allow more behaviours, so what is shown reachable here is
  reachable in the code.

  Shown: the state byte always stays one of its three values; an undisturbed thread does
  what the sequential definition does; concurrent failures are not lost; and two orders of
  accesses that do not do what the breaker is for (a breaker that is open for good, and an
  open period that is skipped).
\<close>

subsection \<open>Threads\<close>

datatype cb_pc =
    Idle
  | CaLoad | CaOpenSince | CaNow u64 | CaCas | CaDrain | CaAdd | CaProbe
  | OsLoad | OsCount | OsCas | OsCasCount | OsCasSince
  | OfLoad | OfAdd | OfCas | OfHalfCas | OfNow | OfStore u64
  | RsState | RsCount | RsSince
  | Returned "circuit_breaker_error + unit"
  | Done

fun micro_call_allowed :: "'s sem_ops \<Rightarrow> u64 \<Rightarrow> cb_pc \<Rightarrow> 's circuit_breaker \<Rightarrow> cb_pc \<times> 's circuit_breaker" where
  "micro_call_allowed S now CaLoad cb =
     (if cb_state cb = STATE_CLOSED then (Returned (Inr ()), cb)
      else if cb_state cb = STATE_OPEN then (CaOpenSince, cb)
      else if cb_state cb = STATE_HALF_OPEN then (CaProbe, cb)
      else (Returned (Inl CircuitBreakerError), cb))"
| "micro_call_allowed S now CaOpenSince cb = (CaNow (open_since_nanos cb), cb)"
| "micro_call_allowed S now (CaNow opened_at) cb =
     (if open_duration (cb_config cb) \<le> unat (saturating_sub now opened_at) then (CaCas, cb)
      else (Returned (Inl CircuitBreakerError), cb))"
| "micro_call_allowed S now CaCas cb =
     (if cb_state cb = STATE_OPEN then (CaDrain, cb\<lparr>cb_state := STATE_HALF_OPEN\<rparr>) else (CaProbe, cb))"
| "micro_call_allowed S now CaDrain cb =
     (case try_acquire S (probe_semaphore cb) of
        Some sem \<Rightarrow> (CaDrain, cb\<lparr>probe_semaphore := sem\<rparr>)
      | None \<Rightarrow> (CaAdd, cb))"
| "micro_call_allowed S now CaAdd cb =
     (CaProbe, cb\<lparr>probe_semaphore := add_permits S (probe_semaphore cb) (probe_count (cb_config cb))\<rparr>)"
| "micro_call_allowed S now CaProbe cb =
     (case try_acquire_probe S cb of (r, cb') \<Rightarrow> (Returned r, cb'))"
| "micro_call_allowed S now pc cb = (pc, cb)"

fun micro_on_success :: "cb_pc \<Rightarrow> 's circuit_breaker \<Rightarrow> cb_pc \<times> 's circuit_breaker" where
  "micro_on_success OsLoad cb =
     (if cb_state cb = STATE_CLOSED then (OsCount, cb)
      else if cb_state cb = STATE_HALF_OPEN then (OsCas, cb)
      else (Done, cb))"
| "micro_on_success OsCount cb = (Done, cb\<lparr>failure_count := 0\<rparr>)"
| "micro_on_success OsCas cb =
     (if cb_state cb = STATE_HALF_OPEN then (OsCasCount, cb\<lparr>cb_state := STATE_CLOSED\<rparr>) else (Done, cb))"
| "micro_on_success OsCasCount cb = (OsCasSince, cb\<lparr>failure_count := 0\<rparr>)"
| "micro_on_success OsCasSince cb = (Done, cb\<lparr>open_since_nanos := - 1\<rparr>)"
| "micro_on_success pc cb = (pc, cb)"

fun micro_on_failure :: "u64 \<Rightarrow> cb_pc \<Rightarrow> 's circuit_breaker \<Rightarrow> cb_pc \<times> 's circuit_breaker" where
  "micro_on_failure now OfLoad cb =
     (if cb_state cb = STATE_CLOSED then (OfAdd, cb)
      else if cb_state cb = STATE_HALF_OPEN then (OfHalfCas, cb)
      else (Done, cb))"
| "micro_on_failure now OfAdd cb =
     (let prev = failure_count cb
      in (if failure_threshold (cb_config cb) \<le> prev + 1 then OfCas else Done, cb\<lparr>failure_count := prev + 1\<rparr>))"
| "micro_on_failure now OfCas cb =
     (if cb_state cb = STATE_CLOSED then (OfNow, cb\<lparr>cb_state := STATE_OPEN\<rparr>) else (Done, cb))"
| "micro_on_failure now OfHalfCas cb =
     (if cb_state cb = STATE_HALF_OPEN then (OfNow, cb\<lparr>cb_state := STATE_OPEN\<rparr>) else (Done, cb))"
| "micro_on_failure now OfNow cb = (OfStore now, cb)"
| "micro_on_failure now (OfStore t) cb = (Done, cb\<lparr>open_since_nanos := t\<rparr>)"
| "micro_on_failure now pc cb = (pc, cb)"

fun micro_reset :: "cb_pc \<Rightarrow> 's circuit_breaker \<Rightarrow> cb_pc \<times> 's circuit_breaker" where
  "micro_reset RsState cb = (RsCount, cb\<lparr>cb_state := STATE_CLOSED\<rparr>)"
| "micro_reset RsCount cb = (RsSince, cb\<lparr>failure_count := 0\<rparr>)"
| "micro_reset RsSince cb = (Done, cb\<lparr>open_since_nanos := - 1\<rparr>)"
| "micro_reset pc cb = (pc, cb)"

fun op_of :: "cb_pc \<Rightarrow> nat" where
  "op_of pc = (case pc of
     Idle \<Rightarrow> 0 | Returned _ \<Rightarrow> 0 | Done \<Rightarrow> 0
   | CaLoad \<Rightarrow> 1 | CaOpenSince \<Rightarrow> 1 | CaNow _ \<Rightarrow> 1 | CaCas \<Rightarrow> 1 | CaDrain \<Rightarrow> 1 | CaAdd \<Rightarrow> 1 | CaProbe \<Rightarrow> 1
   | OsLoad \<Rightarrow> 2 | OsCount \<Rightarrow> 2 | OsCas \<Rightarrow> 2 | OsCasCount \<Rightarrow> 2 | OsCasSince \<Rightarrow> 2
   | OfLoad \<Rightarrow> 3 | OfAdd \<Rightarrow> 3 | OfCas \<Rightarrow> 3 | OfHalfCas \<Rightarrow> 3 | OfNow \<Rightarrow> 3 | OfStore _ \<Rightarrow> 3
   | RsState \<Rightarrow> 4 | RsCount \<Rightarrow> 4 | RsSince \<Rightarrow> 4)"

definition micro :: "'s sem_ops \<Rightarrow> u64 \<Rightarrow> cb_pc \<Rightarrow> 's circuit_breaker \<Rightarrow> cb_pc \<times> 's circuit_breaker" where
  "micro S now pc cb =
     (if op_of pc = 1 then micro_call_allowed S now pc cb
      else if op_of pc = 2 then micro_on_success pc cb
      else if op_of pc = 3 then micro_on_failure now pc cb
      else if op_of pc = 4 then micro_reset pc cb
      else (pc, cb))"

subsection \<open>The system\<close>

record 's cb_sys =
  shared :: "'s circuit_breaker"
  threads :: "nat \<Rightarrow> cb_pc"
  clock :: u64

definition finished :: "cb_pc \<Rightarrow> bool" where
  "finished pc \<longleftrightarrow> op_of pc = 0"

definition entry_points :: "cb_pc list" where
  "entry_points = [CaLoad, OsLoad, OfLoad, RsState]"

definition cb_init :: "'s \<Rightarrow> circuit_breaker_config \<Rightarrow> 's cb_sys" where
  "cb_init sem0 c = \<lparr>shared = circuit_breaker_new sem0 c, threads = (\<lambda>_. Idle), clock = 0\<rparr>"

inductive cb_step :: "'s sem_ops \<Rightarrow> 's cb_sys \<Rightarrow> 's cb_sys \<Rightarrow> bool" for S where
  start: "finished (threads s i) \<Longrightarrow> pc \<in> set entry_points \<Longrightarrow>
     cb_step S s (s\<lparr>threads := (threads s)(i := pc)\<rparr>)"
| run: "\<not> finished (threads s i) \<Longrightarrow> micro S (clock s) (threads s i) (shared s) = (pc', cb') \<Longrightarrow>
     cb_step S s (s\<lparr>shared := cb', threads := (threads s)(i := pc')\<rparr>)"
| tick: "clock s \<le> t \<Longrightarrow> cb_step S s (s\<lparr>clock := t\<rparr>)"

inductive_cases cb_stepE: "cb_step S s t"

text \<open>A schedule that can be executed, and that it is a run of the system.\<close>

datatype sched = Start nat cb_pc | Run nat | Tick u64

fun do_sched :: "'s sem_ops \<Rightarrow> sched \<Rightarrow> 's cb_sys \<Rightarrow> 's cb_sys option" where
  "do_sched S (Start i pc) s =
     (if finished (threads s i) \<and> pc \<in> set entry_points
      then Some (s\<lparr>threads := (threads s)(i := pc)\<rparr>) else None)"
| "do_sched S (Run i) s =
     (if finished (threads s i) then None
      else case micro S (clock s) (threads s i) (shared s) of
        (pc', cb') \<Rightarrow> Some (s\<lparr>shared := cb', threads := (threads s)(i := pc')\<rparr>))"
| "do_sched S (Tick t) s = (if clock s \<le> t then Some (s\<lparr>clock := t\<rparr>) else None)"

fun do_scheds :: "'s sem_ops \<Rightarrow> sched list \<Rightarrow> 's cb_sys \<Rightarrow> 's cb_sys option" where
  "do_scheds S [] s = Some s"
| "do_scheds S (x # xs) s = Option.bind (do_sched S x s) (do_scheds S xs)"

lemma do_sched_step: "do_sched S x s = Some t \<Longrightarrow> cb_step S s t"
  by (cases x) (auto split: if_splits prod.splits intro: cb_step.intros)

lemma do_scheds_steps: "do_scheds S xs s = Some t \<Longrightarrow> (cb_step S)\<^sup>*\<^sup>* s t"
proof (induction xs arbitrary: s)
  case Nil
  then show ?case by simp
next
  case (Cons x xs)
  then obtain u where "do_sched S x s = Some u" "do_scheds S xs u = Some t"
    by (auto simp: bind_eq_Some_conv)
  with Cons.IH show ?case by (meson converse_rtranclp_into_rtranclp do_sched_step)
qed

subsection \<open>The state byte\<close>

definition state_valid :: "'s cb_sys \<Rightarrow> bool" where
  "state_valid s \<longleftrightarrow> cb_state (shared s) \<in> {STATE_CLOSED, STATE_OPEN, STATE_HALF_OPEN}"

lemma micro_state_valid:
  assumes "micro S now pc cb = (pc', cb')"
    and "cb_state cb \<in> {STATE_CLOSED, STATE_OPEN, STATE_HALF_OPEN}"
  shows "cb_state cb' \<in> {STATE_CLOSED, STATE_OPEN, STATE_HALF_OPEN} \<and> cb_config cb' = cb_config cb"
  using assms
  by (cases pc) (auto simp: micro_def try_acquire_probe_def Let_def split: if_splits option.splits)

interpretation cb_valid: step_system "cb_step S" state_valid for S
proof
  fix s t :: "'a cb_sys"
  assume "state_valid s" "cb_step S s t"
  then show "state_valid t"
    by (auto simp: state_valid_def elim!: cb_stepE dest: micro_state_valid)
qed

lemma reachable_state_valid: "(cb_step S)\<^sup>*\<^sup>* (cb_init sem0 c) s \<Longrightarrow> state_valid s"
  by (erule cb_valid.steps_inv) (simp add: state_valid_def cb_init_def circuit_breaker_new_def)

subsection \<open>A thread that is not disturbed\<close>

text \<open>Steps of thread \<open>i\<close> only.\<close>

definition solo :: "'s sem_ops \<Rightarrow> nat \<Rightarrow> 's cb_sys \<Rightarrow> 's cb_sys \<Rightarrow> bool" where
  "solo S i s t \<longleftrightarrow> do_sched S (Run i) s = Some t"

text \<open>Thread \<open>i\<close> at program counter \<open>pc\<close>, with the breaker \<open>cb\<close>, in the surroundings \<open>s\<close>.\<close>

definition at :: "'s cb_sys \<Rightarrow> nat \<Rightarrow> cb_pc \<Rightarrow> 's circuit_breaker \<Rightarrow> 's cb_sys" where
  "at s i pc cb = s\<lparr>shared := cb, threads := (threads s)(i := pc)\<rparr>"

lemma at_simps [simp]:
  "shared (at s i pc cb) = cb" "threads (at s i pc cb) i = pc" "clock (at s i pc cb) = clock s"
  "at (at s i pc cb) i pc' cb' = at s i pc' cb'"
  by (simp_all add: at_def)

lemma solo_at:
  assumes "micro S (clock s) pc cb = (pc', cb')" and "\<not> finished pc"
    and "(solo S i)\<^sup>*\<^sup>* (at s i pc' cb') t"
  shows "(solo S i)\<^sup>*\<^sup>* (at s i pc cb) t"
proof -
  have "solo S i (at s i pc cb) (at s i pc' cb')"
    using assms(1,2) by (simp add: solo_def at_def)
  then show ?thesis using assms(3) by (rule converse_rtranclp_into_rtranclp)
qed

lemma solo_last:
  assumes "micro S (clock s) pc cb = (pc', cb')" and "\<not> finished pc"
  shows "(solo S i)\<^sup>*\<^sup>* (at s i pc cb) (at s i pc' cb')"
  by (rule solo_at [OF assms]) simp

lemma solo_drain:
  assumes "drain S sem = Some sem'"
  shows "(solo S i)\<^sup>*\<^sup>* (at s i CaDrain (cb\<lparr>probe_semaphore := sem\<rparr>)) (at s i CaAdd (cb\<lparr>probe_semaphore := sem'\<rparr>))"
proof (rule drain.raw_induct [where P = "\<lambda>S sem sem'. (solo S i)\<^sup>*\<^sup>* (at s i CaDrain (cb\<lparr>probe_semaphore := sem\<rparr>))
        (at s i CaAdd (cb\<lparr>probe_semaphore := sem'\<rparr>))", OF _ assms])
  fix f :: "'a sem_ops \<Rightarrow> 'a \<Rightarrow> 'a option" and S sem sem'
  assume IH: "\<And>S sem sem'. f S sem = Some sem' \<Longrightarrow>
      (solo S i)\<^sup>*\<^sup>* (at s i CaDrain (cb\<lparr>probe_semaphore := sem\<rparr>)) (at s i CaAdd (cb\<lparr>probe_semaphore := sem'\<rparr>))"
    and eq: "(case try_acquire S sem of None \<Rightarrow> Some sem | Some sem'' \<Rightarrow> f S sem'') = Some sem'"
  show "(solo S i)\<^sup>*\<^sup>* (at s i CaDrain (cb\<lparr>probe_semaphore := sem\<rparr>)) (at s i CaAdd (cb\<lparr>probe_semaphore := sem'\<rparr>))"
  proof (cases "try_acquire S sem")
    case None
    with eq show ?thesis
      by (intro solo_last) (auto simp: micro_def finished_def)
  next
    case (Some sem1)
    with eq have "f S sem1 = Some sem'" by simp
    from IH [OF this] show ?thesis
      by (rule solo_at [rotated 2]) (simp_all add: micro_def finished_def Some)
  qed
qed

lemma solo_probe:
  assumes "try_acquire_probe S cb = (r, cb')"
  shows "(solo S i)\<^sup>*\<^sup>* (at s i CaProbe cb) (at s i (Returned r) cb')"
  by (rule solo_last) (use assms in \<open>auto simp: micro_def finished_def\<close>)

lemma solo_call_allowed_open:
  assumes st: "cb_state cb = STATE_OPEN" and el: "open_elapsed (clock s) cb"
    and dr: "drain S (probe_semaphore cb) = Some sem"
    and pr: "try_acquire_probe S (cb\<lparr>cb_state := STATE_HALF_OPEN,
               probe_semaphore := add_permits S sem (probe_count (cb_config cb))\<rparr>) = (r, cb')"
  shows "(solo S i)\<^sup>*\<^sup>* (at s i CaLoad cb) (at s i (Returned r) cb')"
proof -
  let ?half = "cb\<lparr>cb_state := STATE_HALF_OPEN\<rparr>"
  have "(solo S i)\<^sup>*\<^sup>* (at s i CaDrain ?half) (at s i CaAdd (?half\<lparr>probe_semaphore := sem\<rparr>))"
    using solo_drain [OF dr, of i s ?half] by simp
  also have "(solo S i)\<^sup>*\<^sup>* \<dots> (at s i (Returned r) cb')"
    by (rule solo_at [OF _ _ solo_probe [OF pr]]) (simp_all add: micro_def finished_def)
  finally have "(solo S i)\<^sup>*\<^sup>* (at s i CaDrain ?half) (at s i (Returned r) cb')" .
  then have "(solo S i)\<^sup>*\<^sup>* (at s i CaCas cb) (at s i (Returned r) cb')"
    by (rule solo_at [rotated 2]) (simp_all add: micro_def finished_def st)
  then have "(solo S i)\<^sup>*\<^sup>* (at s i (CaNow (open_since_nanos cb)) cb) (at s i (Returned r) cb')"
    by (rule solo_at [rotated 2]) (use el in \<open>simp_all add: micro_def finished_def open_elapsed_def\<close>)
  then have "(solo S i)\<^sup>*\<^sup>* (at s i CaOpenSince cb) (at s i (Returned r) cb')"
    by (rule solo_at [rotated 2]) (simp_all add: micro_def finished_def)
  then show ?thesis
    by (rule solo_at [rotated 2]) (simp_all add: micro_def finished_def st)
qed

lemma solo_call_allowed:
  assumes "call_allowed S (clock s) cb = Some (r, cb')"
  shows "(solo S i)\<^sup>*\<^sup>* (at s i CaLoad cb) (at s i (Returned r) cb')"
proof -
  consider (opened) sem where "cb_state cb = STATE_OPEN" "open_elapsed (clock s) cb"
      "drain S (probe_semaphore cb) = Some sem"
      "try_acquire_probe S (cb\<lparr>cb_state := STATE_HALF_OPEN,
         probe_semaphore := add_permits S sem (probe_count (cb_config cb))\<rparr>) = (r, cb')"
    | (wait) "cb_state cb = STATE_OPEN" "\<not> open_elapsed (clock s) cb" "r = Inl CircuitBreakerError" "cb' = cb"
    | (half) "cb_state cb = STATE_HALF_OPEN" "try_acquire_probe S cb = (r, cb')"
    | (other) "cb_state cb \<noteq> STATE_OPEN" "cb_state cb \<noteq> STATE_HALF_OPEN" "cb' = cb"
        "r = (if cb_state cb = STATE_CLOSED then Inr () else Inl CircuitBreakerError)"
    using assms by (auto simp: call_allowed_def split: if_splits option.splits)
  then show ?thesis
  proof cases
    case opened
    then show ?thesis by (rule solo_call_allowed_open)
  next
    case wait
    have "(solo S i)\<^sup>*\<^sup>* (at s i (CaNow (open_since_nanos cb)) cb) (at s i (Returned r) cb)"
      by (rule solo_last) (use wait in \<open>auto simp: micro_def finished_def open_elapsed_def\<close>)
    then have "(solo S i)\<^sup>*\<^sup>* (at s i CaOpenSince cb) (at s i (Returned r) cb)"
      by (rule solo_at [rotated 2]) (simp_all add: micro_def finished_def)
    then show ?thesis unfolding wait(4)
      by (rule solo_at [rotated 2]) (simp_all add: micro_def finished_def wait)
  next
    case half
    show ?thesis
      by (rule solo_at [OF _ _ solo_probe [OF half(2)]]) (simp_all add: micro_def finished_def half)
  next
    case other
    show ?thesis by (rule solo_last) (use other in \<open>auto simp: micro_def finished_def\<close>)
  qed
qed

lemma solo_on_success:
  "(solo S i)\<^sup>*\<^sup>* (at s i OsLoad cb) (at s i Done (on_success cb))"
proof -
  consider "cb_state cb = STATE_CLOSED" | "cb_state cb = STATE_HALF_OPEN"
    | "cb_state cb \<noteq> STATE_CLOSED" "cb_state cb \<noteq> STATE_HALF_OPEN" by blast
  then show ?thesis
  proof cases
    case 1
    then have "(solo S i)\<^sup>*\<^sup>* (at s i OsCount cb) (at s i Done (on_success cb))"
      by (intro solo_last) (auto simp: micro_def finished_def on_success_def)
    then show ?thesis by (rule solo_at [rotated 2]) (simp_all add: micro_def finished_def 1)
  next
    case 2
    have "(solo S i)\<^sup>*\<^sup>* (at s i OsCasSince (cb\<lparr>cb_state := STATE_CLOSED, failure_count := 0\<rparr>)) (at s i Done (on_success cb))"
      by (rule solo_last) (auto simp: micro_def finished_def on_success_def 2)
    then have "(solo S i)\<^sup>*\<^sup>* (at s i OsCasCount (cb\<lparr>cb_state := STATE_CLOSED\<rparr>)) (at s i Done (on_success cb))"
      by (rule solo_at [rotated 2]) (simp_all add: micro_def finished_def)
    then have "(solo S i)\<^sup>*\<^sup>* (at s i OsCas cb) (at s i Done (on_success cb))"
      by (rule solo_at [rotated 2]) (simp_all add: micro_def finished_def 2)
    then show ?thesis by (rule solo_at [rotated 2]) (simp_all add: micro_def finished_def 2)
  next
    case 3
    then show ?thesis by (intro solo_last) (auto simp: micro_def finished_def on_success_def)
  qed
qed

lemma solo_store: "(solo S i)\<^sup>*\<^sup>* (at s i OfNow cb) (at s i Done (cb\<lparr>open_since_nanos := clock s\<rparr>))"
proof -
  have "(solo S i)\<^sup>*\<^sup>* (at s i (OfStore (clock s)) cb) (at s i Done (cb\<lparr>open_since_nanos := clock s\<rparr>))"
    by (rule solo_last) (auto simp: micro_def finished_def)
  then show ?thesis by (rule solo_at [rotated 2]) (simp_all add: micro_def finished_def)
qed

lemma solo_on_failure:
  "(solo S i)\<^sup>*\<^sup>* (at s i OfLoad cb) (at s i Done (on_failure (clock s) cb))"
proof -
  consider "cb_state cb = STATE_CLOSED" | "cb_state cb = STATE_HALF_OPEN"
    | "cb_state cb \<noteq> STATE_CLOSED" "cb_state cb \<noteq> STATE_HALF_OPEN" by blast
  then show ?thesis
  proof cases
    case 1
    let ?cb = "cb\<lparr>failure_count := failure_count cb + 1\<rparr>"
    have "(solo S i)\<^sup>*\<^sup>* (at s i OfAdd cb) (at s i Done (on_failure (clock s) cb))"
    proof (cases "failure_threshold (cb_config cb) \<le> failure_count cb + 1")
      case True
      have "(solo S i)\<^sup>*\<^sup>* (at s i OfCas ?cb) (at s i Done (on_failure (clock s) cb))"
        by (rule solo_at [where pc' = OfNow and cb' = "?cb\<lparr>cb_state := STATE_OPEN\<rparr>"])
           (use solo_store [of S i s "?cb\<lparr>cb_state := STATE_OPEN\<rparr>"] 1 True in
             \<open>simp_all add: micro_def finished_def on_failure_def Let_def\<close>)
      then show ?thesis
        by (rule solo_at [rotated 2]) (simp_all add: micro_def finished_def Let_def True)
    next
      case False
      with 1 show ?thesis
        by (intro solo_last) (auto simp: micro_def finished_def on_failure_def Let_def)
    qed
    then show ?thesis by (rule solo_at [rotated 2]) (simp_all add: micro_def finished_def 1)
  next
    case 2
    have "(solo S i)\<^sup>*\<^sup>* (at s i OfHalfCas cb) (at s i Done (on_failure (clock s) cb))"
      by (rule solo_at [where pc' = OfNow and cb' = "cb\<lparr>cb_state := STATE_OPEN\<rparr>"])
         (use solo_store [of S i s "cb\<lparr>cb_state := STATE_OPEN\<rparr>"] 2 in
           \<open>simp_all add: micro_def finished_def on_failure_def\<close>)
    then show ?thesis by (rule solo_at [rotated 2]) (simp_all add: micro_def finished_def 2)
  next
    case 3
    then show ?thesis by (intro solo_last) (auto simp: micro_def finished_def on_failure_def)
  qed
qed

lemma solo_reset: "(solo S i)\<^sup>*\<^sup>* (at s i RsState cb) (at s i Done (cb_reset cb))"
proof -
  have "(solo S i)\<^sup>*\<^sup>* (at s i RsSince (cb\<lparr>cb_state := STATE_CLOSED, failure_count := 0\<rparr>)) (at s i Done (cb_reset cb))"
    by (rule solo_last) (auto simp: micro_def finished_def cb_reset_def)
  then have "(solo S i)\<^sup>*\<^sup>* (at s i RsCount (cb\<lparr>cb_state := STATE_CLOSED\<rparr>)) (at s i Done (cb_reset cb))"
    by (rule solo_at [rotated 2]) (simp_all add: micro_def finished_def)
  then show ?thesis by (rule solo_at [rotated 2]) (simp_all add: micro_def finished_def)
qed

subsection \<open>Concurrent failures\<close>

text \<open>\<open>n\<close> threads that each report one failure to a new breaker, and what holds while they run.\<close>

definition failing :: "nat \<Rightarrow> 's \<Rightarrow> circuit_breaker_config \<Rightarrow> 's cb_sys" where
  "failing n sem0 c = (cb_init sem0 c)\<lparr>threads := (\<lambda>i. if i < n then OfLoad else Idle)\<rparr>"

fun no_start :: "sched \<Rightarrow> bool" where
  "no_start (Start i pc) = False"
| "no_start (Run i) = True"
| "no_start (Tick t) = True"

definition counted :: "nat \<Rightarrow> 's cb_sys \<Rightarrow> nat set" where
  "counted n s = {i. i < n \<and> threads s i \<noteq> OfLoad \<and> threads s i \<noteq> OfAdd}"

definition failing_pcs :: "cb_pc set" where
  "failing_pcs = {OfLoad, OfAdd, OfCas, OfNow, Done} \<union> range OfStore"

definition failing_inv :: "circuit_breaker_config \<Rightarrow> nat \<Rightarrow> 's cb_sys \<Rightarrow> bool" where
  "failing_inv c n s \<longleftrightarrow>
     cb_config (shared s) = c \<and>
     (\<forall>i. if i < n then threads s i \<in> failing_pcs else threads s i = Idle) \<and>
     (cb_state (shared s) = STATE_OPEN \<or>
      cb_state (shared s) = STATE_CLOSED \<and>
      card (counted n s) = unat (failure_count (shared s)) \<and>
      (\<forall>i < n. threads s i \<in> {OfLoad, OfAdd, OfCas, Done}) \<and>
      (counted n s \<noteq> {} \<and> unat (failure_threshold c) \<le> unat (failure_count (shared s)) \<longrightarrow>
         (\<exists>i < n. threads s i = OfCas)))"

lemma finite_counted [simp]: "finite (counted n s)"
  by (simp add: counted_def)

lemma failing_inv_init: "failing_inv c n (failing n sem0 c)"
  by (auto simp: failing_inv_def failing_def cb_init_def circuit_breaker_new_def counted_def failing_pcs_def)

lemma failing_inv_add:
  assumes inv: "failing_inv c n s" and n: "n < 2 ^ 32" and i: "threads s i = OfAdd"
    and closed: "cb_state (shared s) = STATE_CLOSED"
  shows "failing_inv c n (at s i (if failure_threshold c \<le> failure_count (shared s) + 1 then OfCas else Done)
      ((shared s)\<lparr>failure_count := failure_count (shared s) + 1\<rparr>))"
proof -
  let ?fc = "failure_count (shared s)"
  let ?t = "at s i (if failure_threshold c \<le> ?fc + 1 then OfCas else Done)
      ((shared s)\<lparr>failure_count := ?fc + 1\<rparr>)"
  from inv i have "i < n" by (auto simp: failing_inv_def split: if_splits)
  have "counted n ?t = insert i (counted n s)" "i \<notin> counted n s"
    using i \<open>i < n\<close> by (auto simp: counted_def at_def)
  moreover have card: "card (counted n s) = unat ?fc" using inv closed by (simp add: failing_inv_def)
  ultimately have card': "card (counted n ?t) = Suc (unat ?fc)" by simp
  have "card (counted n ?t) \<le> card {..<n}" by (rule card_mono) (auto simp: counted_def)
  with card' n have "Suc (unat ?fc) < 2 ^ 32" by simp
  then have fc: "unat (?fc + 1) = Suc (unat ?fc)" by (simp add: unat_word_ariths)
  have "\<exists>j < n. threads ?t j = OfCas" if "unat (failure_threshold c) \<le> unat (?fc + 1)"
    using that \<open>i < n\<close> by (intro exI [of _ i]) (simp add: word_le_nat_alt)
  with inv closed card' fc \<open>i < n\<close> show ?thesis
    by (auto simp: failing_inv_def at_def failing_pcs_def)
qed

lemma failing_inv_step:
  assumes inv: "failing_inv c n s" and n: "n < 2 ^ 32"
    and x: "no_start x" "do_sched S x s = Some t"
  shows "failing_inv c n t"
proof (cases x)
  case (Start i pc)
  with x show ?thesis by simp
next
  case (Tick u)
  with inv x show ?thesis by (auto simp: failing_inv_def counted_def split: if_splits)
next
  case (Run i)
  with x have act: "\<not> finished (threads s i)"
    and t: "t = (case micro S (clock s) (threads s i) (shared s) of (pc', cb') \<Rightarrow> at s i pc' cb')"
    by (auto simp: at_def split: if_splits prod.splits)
  from inv act have "i < n" and pcs: "threads s i \<in> failing_pcs"
    by (auto simp: failing_inv_def finished_def split: if_splits)
  show ?thesis
  proof (cases "cb_state (shared s) = STATE_CLOSED")
    case closed: True
    with inv \<open>i < n\<close> act have "threads s i \<in> {OfLoad, OfAdd, OfCas}"
      by (auto simp: failing_inv_def finished_def)
    then consider "threads s i = OfLoad" | "threads s i = OfAdd" | "threads s i = OfCas" by blast
    then show ?thesis
    proof cases
      case 1
      have "counted n t = counted n s"
        using t 1 closed by (auto simp: counted_def at_def micro_def)
      moreover have "\<exists>j < n. threads t j = OfCas" if "\<exists>j < n. threads s j = OfCas"
      proof -
        from that obtain j where j: "j < n" "threads s j = OfCas" by blast
        with 1 have "j \<noteq> i" by auto
        with j t show ?thesis by (intro exI [of _ j]) (simp add: at_def split: prod.splits)
      qed
      ultimately show ?thesis using 1 inv closed t \<open>i < n\<close>
        by (auto simp: failing_inv_def micro_def at_def failing_pcs_def)
    next
      case 2
      have "cb_config (shared s) = c" using inv by (simp add: failing_inv_def)
      with t 2 have "t = at s i (if failure_threshold c \<le> failure_count (shared s) + 1 then OfCas else Done)
          ((shared s)\<lparr>failure_count := failure_count (shared s) + 1\<rparr>)"
        by (simp add: micro_def Let_def)
      then show ?thesis using failing_inv_add [OF inv n 2 closed] by simp
    next
      case 3
      with inv closed t \<open>i < n\<close> show ?thesis
        by (auto simp: failing_inv_def micro_def at_def failing_pcs_def split: if_splits)
    qed
  next
    case False
    with inv have opened: "cb_state (shared s) = STATE_OPEN" by (auto simp: failing_inv_def)
    obtain pc' cb' where m: "micro S (clock s) (threads s i) (shared s) = (pc', cb')" by fastforce
    with opened pcs have "pc' \<in> failing_pcs \<and> cb_state cb' = STATE_OPEN \<and> cb_config cb' = cb_config (shared s)"
      unfolding failing_pcs_def by (auto simp: micro_def Let_def split: if_splits)
    with inv t m \<open>i < n\<close> show ?thesis by (simp add: failing_inv_def at_def)
  qed
qed

lemma failing_inv_run:
  "failing_inv c n s \<Longrightarrow> n < 2 ^ 32 \<Longrightarrow> list_all no_start xs \<Longrightarrow> do_scheds S xs s = Some t \<Longrightarrow> failing_inv c n t"
proof (induction xs arbitrary: s)
  case Nil
  then show ?case by simp
next
  case (Cons x xs)
  then obtain u where u: "do_sched S x s = Some u" "do_scheds S xs u = Some t" "no_start x"
    by (auto simp: bind_eq_Some_conv)
  from failing_inv_step [OF Cons.prems(1,2) u(3,1)] Cons.prems u(2) show ?case
    by (intro Cons.IH [of u]) auto
qed

subsection \<open>An open breaker whose opening time was erased\<close>

fun refusal :: "cb_op \<Rightarrow> bool option" where
  "refusal (CallAllowed now) = Some False"
| "refusal op = None"

lemma erased_open_stuck:
  assumes "cb_state cb = STATE_OPEN" and "open_since_nanos cb = - 1"
    and "0 < open_duration (cb_config cb)"
  shows "cb_run S (filter (\<lambda>op. op \<noteq> Reset) ops) cb =
           Some (map refusal (filter (\<lambda>op. op \<noteq> Reset) ops), cb)"
proof -
  have "\<not> open_elapsed now cb" for now using assms(2,3) by (simp add: open_elapsed_def)
  with assms(1) have "cb_exec S op cb = Some (refusal op, cb)" if "op \<noteq> Reset" for op
    using that by (cases op) (simp_all add: call_allowed_def on_success_def on_failure_def)
  then show ?thesis by (induction ops) auto
qed

text \<open>
  The schedule: five failures open a breaker with the default configuration, and 30 s later
  two callers are admitted as probes (threads 1 and 2). Thread 1 reports success and has
  closed the breaker when thread 2 reports failure; the old failure count is still there, so
  thread 2 opens the breaker again and records the time, and only then does thread 1 carry
  out its two remaining stores.
\<close>

definition opened_sched :: "sched list" where
  "opened_sched =
     [Start 0 OfLoad, Run 0, Run 0, Start 0 OfLoad, Run 0, Run 0,
      Start 0 OfLoad, Run 0, Run 0, Start 0 OfLoad, Run 0, Run 0,
      Start 0 OfLoad, Run 0, Run 0, Run 0, Run 0, Run 0, Tick 30000000000]"

definition probe_sched :: "sched list" where
  "probe_sched = [Start 1 CaLoad, Run 1, Run 1, Run 1, Run 1, Run 1, Run 1, Run 1]"

definition late_stores_sched :: "sched list" where
  "late_stores_sched = opened_sched @ probe_sched @
     [Start 2 CaLoad, Run 2, Run 2,
      Start 1 OsLoad, Run 1, Run 1,
      Start 2 OfLoad, Run 2, Run 2, Run 2, Run 2, Run 2,
      Run 1, Run 1]"

definition stuck_open :: "nat cb_sys" where
  "stuck_open =
     \<lparr>shared = \<lparr>cb_state = STATE_OPEN, failure_count = 0, open_since_nanos = - 1,
               probe_semaphore = 0, cb_config = circuit_breaker_config_default\<rparr>,
      threads = (\<lambda>_. Idle)(0 := Done, 2 := Done, 1 := Done), clock = 30000000000\<rparr>"

lemmas sched_simps = numeral_le_one_word opened_sched_def probe_sched_def late_stores_sched_def cb_init_def
  circuit_breaker_new_def circuit_breaker_config_default_def micro_def finished_def
  entry_points_def secs_def saturating_sub_def try_acquire_probe_def

lemma late_stores_reach:
  "do_scheds counter_semaphore late_stores_sched (cb_init 0 circuit_breaker_config_default) = Some stuck_open"
  by (simp add: sched_simps counter_semaphore_def stuck_open_def)

text \<open>
  The other order: a probe admitted after 30 s fails, and its thread has reopened the breaker
  but not yet recorded the time, so the breaker is open with the time of the previous opening.
\<close>

definition reopening_sched :: "sched list" where
  "reopening_sched = opened_sched @ probe_sched @ [Start 1 OfLoad, Run 1, Run 1]"

definition reopening :: "nat cb_sys" where
  "reopening =
     \<lparr>shared = \<lparr>cb_state = STATE_OPEN, failure_count = 5, open_since_nanos = 0,
               probe_semaphore = 1, cb_config = circuit_breaker_config_default\<rparr>,
      threads = (\<lambda>_. Idle)(0 := Done, 1 := OfNow), clock = 30000000000\<rparr>"

lemma reopening_reach:
  "do_scheds counter_semaphore reopening_sched (cb_init 0 circuit_breaker_config_default) = Some reopening"
  by (simp add: sched_simps counter_semaphore_def reopening_def reopening_sched_def)

subsection \<open>Properties\<close>

text \<open>
  The \<open>unreachable!\<close> of the state accessor is unreachable: in every state that any
  number of threads reach, in any interleaving of their atomic accesses, the accessor
  returns one of the three states.
\<close>

theorem state_accessor_total:
  assumes "(cb_step S)\<^sup>*\<^sup>* (cb_init sem0 c) s"
  shows "observed_state (shared s) \<noteq> None"
  using reachable_state_valid [OF assms] by (auto simp: state_valid_def observed_state_def)

theorem state_accessor_total_witness:
  "(cb_step counter_semaphore)\<^sup>*\<^sup>* (cb_init 0 circuit_breaker_config_default) reopening \<and>
   observed_state (shared reopening) \<noteq> None"
  using do_scheds_steps [OF reopening_reach] state_accessor_total [OF do_scheds_steps [OF reopening_reach]]
  by blast

text \<open>
  The interleaved steps are the operations: a thread that is not disturbed while it
  performs \<open>call_allowed\<close>, \<open>on_success\<close>, \<open>on_failure\<close> or \<open>reset\<close> takes the shared breaker
  where the sequential definition takes it and returns what that returns.
\<close>

theorem undisturbed_operations:
  "(call_allowed S (clock s) cb = Some (r, cb') \<longrightarrow>
      (solo S i)\<^sup>*\<^sup>* (at s i CaLoad cb) (at s i (Returned r) cb')) \<and>
   (solo S i)\<^sup>*\<^sup>* (at s i OsLoad cb) (at s i Done (on_success cb)) \<and>
   (solo S i)\<^sup>*\<^sup>* (at s i OfLoad cb) (at s i Done (on_failure (clock s) cb)) \<and>
   (solo S i)\<^sup>*\<^sup>* (at s i RsState cb) (at s i Done (cb_reset cb))"
  using solo_call_allowed solo_on_success solo_on_failure solo_reset by blast

theorem undisturbed_operations_witness:
  "call_allowed counter_semaphore (clock stuck_open) (shared stuck_open) =
     Some (Inl CircuitBreakerError, shared stuck_open) \<and>
   (solo counter_semaphore 7)\<^sup>*\<^sup>* (at stuck_open 7 CaLoad (shared stuck_open))
     (at stuck_open 7 (Returned (Inl CircuitBreakerError)) (shared stuck_open))"
proof -
  have refused: "call_allowed counter_semaphore (clock stuck_open) (shared stuck_open) =
     Some (Inl CircuitBreakerError, shared stuck_open)"
    by (simp add: call_allowed_def stuck_open_def open_elapsed_def circuit_breaker_config_default_def secs_def)
  then show ?thesis
    using undisturbed_operations [of counter_semaphore stuck_open "shared stuck_open"
        "Inl CircuitBreakerError" "shared stuck_open" 7] by blast
qed

text \<open>
  Concurrent failures are not lost: when \<open>n\<close> threads, at least as many as the threshold,
  each report one failure to a new breaker, then in whatever order their accesses interleave
  the breaker is open once all of them have returned.
\<close>

theorem failures_not_lost:
  assumes "unat (failure_threshold c) \<le> n" and "0 < n" and "n < 2 ^ 32"
    and "list_all no_start xs" and "do_scheds S xs (failing n sem0 c) = Some t"
    and "\<forall>i < n. threads t i = Done"
  shows "observed_state (shared t) = Some Open"
proof (rule ccontr)
  assume "observed_state (shared t) \<noteq> Some Open"
  then have "cb_state (shared t) \<noteq> STATE_OPEN" by (auto simp: observed_state_def)
  moreover have inv: "failing_inv c n t"
    by (rule failing_inv_run [OF failing_inv_init assms(3,4,5)])
  moreover have "counted n t = {..<n}" using assms(6) by (auto simp: counted_def)
  ultimately have "unat (failure_count (shared t)) = n" "\<exists>i < n. threads t i = OfCas"
    using assms(1,2) by (auto simp: failing_inv_def)
  with assms(6) show False by auto
qed

theorem failures_not_lost_witness:
  "\<exists>t. do_scheds counter_semaphore
        [Run 0, Run 1, Run 1, Run 0, Run 0, Run 0, Tick 9, Run 0]
        (failing 2 0 \<lparr>failure_threshold = 2, open_duration = 10, probe_count = 1\<rparr>) = Some t \<and>
     observed_state (shared t) = Some Open"
proof -
  let ?xs = "[Run 0, Run 1, Run 1, Run 0, Run 0, Run 0, Tick 9, Run 0]"
  let ?c = "\<lparr>failure_threshold = 2, open_duration = 10, probe_count = 1\<rparr>"
  obtain t where t: "do_scheds counter_semaphore ?xs (failing 2 0 ?c) = Some t"
      "threads t 0 = Done" "threads t 1 = Done"
    by (simp add: failing_def cb_init_def circuit_breaker_new_def micro_def finished_def Let_def
        numeral_le_one_word)
  then have "\<forall>i < 2. threads t i = Done" by (auto simp: less_2_cases_iff)
  with t(1) failures_not_lost [of ?c 2 ?xs counter_semaphore 0 t] show ?thesis by auto
qed


text \<open>
  An open period can be skipped: when a failed probe has put the breaker back to open but
  its thread has not yet stored the new opening time, another caller compares the clock with
  the previous opening time and is let through at once, with the breaker half-open again
  and the clock where it was when the probe failed.
\<close>

theorem reopened_period_skipped:
  "(cb_step counter_semaphore)\<^sup>*\<^sup>* (cb_init 0 circuit_breaker_config_default) reopening \<and>
   observed_state (shared reopening) = Some Open \<and>
   (\<exists>t. (cb_step counter_semaphore)\<^sup>*\<^sup>* reopening t \<and> clock t = clock reopening \<and>
      threads t 2 = Returned (Inr ()) \<and> observed_state (shared t) = Some HalfOpen)"
proof -
  have "\<exists>t. do_scheds counter_semaphore
         [Start 2 CaLoad, Run 2, Run 2, Run 2, Run 2, Run 2, Run 2, Run 2, Run 2] reopening = Some t \<and>
       clock t = clock reopening \<and> threads t 2 = Returned (Inr ()) \<and> observed_state (shared t) = Some HalfOpen"
    by (simp add: sched_simps counter_semaphore_def reopening_def observed_state_def)
  moreover have "observed_state (shared reopening) = Some Open"
    by (simp add: reopening_def observed_state_def)
  ultimately show ?thesis
    using do_scheds_steps do_scheds_steps [OF reopening_reach] by blast
qed

end
