(* ===== verification/Quotas.thy ===== *)
theory Quotas
  imports Plug_Prelude "HOL-Library.Multiset"
begin

section \<open>Principals and admission quotas\<close>

text \<open>
  Models \<open>PrincipalId\<close> (\<open>plug-core/src/types.rs\<close>) and the admission quotas of
  \<open>plug-core/src/protocol.rs\<close>: \<open>AdmissionQuotas::try_acquire\<close>, which counts \<open>units\<close> against
  a global and a per-principal limit, and \<open>QuotaLease::drop\<close>, which gives them back.
  \<open>usize\<close> is a 64-bit word, so the saturating test and the plain additions are those of the
  code. A lease is a value; \<open>pool\<close> pairs the counters with the leases that have been
  handed out and not dropped, and \<open>pool_inv\<close> says that the counters are exactly what
  those leases hold. The contract the owners of leases rely on is the locale
  \<open>lease_pool\<close>, interpreted here.
\<close>

subsection \<open>Principals\<close>

type_synonym uuid = "128 word"

datatype principal_id =
    DownstreamOauth (issuer: string) (client_id: string) (oauth_resource: string)
  | ConfiguredCredential (config_id: string) (credential_generation: u64)
  | StdioProcess (instance_id: uuid)
  | DaemonIpc (registry_id: uuid)

subsection \<open>Limits\<close>

datatype quota_resource =
    Tasks | QueuedTaskCreations | Listeners | UpstreamSubscriptions | Continuations
  | ContinuationBytes | ConcurrentModernRequests

record admission_quota_config =
  qc_tasks :: u64
  queued_task_creations :: u64
  listeners :: u64
  upstream_subscriptions :: u64
  qc_continuations :: u64
  continuation_bytes :: u64
  concurrent_modern_requests :: u64
  per_principal_divisor :: u64

definition admission_quota_config_default :: admission_quota_config where
  "admission_quota_config_default =
     \<lparr>qc_tasks = 1024, queued_task_creations = 128, listeners = 2048, upstream_subscriptions = 1024,
      qc_continuations = 512, continuation_bytes = 16 * 1024 * 1024, concurrent_modern_requests = 512,
      per_principal_divisor = 8\<rparr>"

fun limit :: "admission_quota_config \<Rightarrow> quota_resource \<Rightarrow> u64" where
  "limit c Tasks = qc_tasks c"
| "limit c QueuedTaskCreations = queued_task_creations c"
| "limit c Listeners = listeners c"
| "limit c UpstreamSubscriptions = upstream_subscriptions c"
| "limit c Continuations = qc_continuations c"
| "limit c ContinuationBytes = continuation_bytes c"
| "limit c ConcurrentModernRequests = concurrent_modern_requests c"

text \<open>\<open>checked_div\<close> by \<open>max(1)\<close> never fails, so its fallback is not taken.\<close>

definition per_principal_limit :: "admission_quota_config \<Rightarrow> quota_resource \<Rightarrow> u64" where
  "per_principal_limit c r = max (limit c r div max (per_principal_divisor c) 1) 1"

subsection \<open>Counters and leases\<close>

record quota_counts =
  quota_global :: "(quota_resource, u64) hmap"
  quota_principals :: "(principal_id \<times> quota_resource, u64) hmap"

record quota_lease =
  lease_principal :: principal_id
  lease_resource :: quota_resource
  lease_units :: u64

datatype protocol_outcome =
    AuthorizationRequired | UpstreamUnavailable | UnsupportedBridge | RetryableTransition | OutcomeCancelled
  | ExpiredContinuation | PermissionDenied | OutcomeInputRequired | QuotaExceeded

definition count_of :: "('k, u64) hmap \<Rightarrow> 'k \<Rightarrow> u64" where
  "count_of m k = (case hget m k of Some n \<Rightarrow> n | None \<Rightarrow> 0)"

definition quota_counts_default :: quota_counts where
  "quota_counts_default = \<lparr>quota_global = [], quota_principals = []\<rparr>"

definition quota_try_acquire ::
  "admission_quota_config \<Rightarrow> principal_id \<Rightarrow> quota_resource \<Rightarrow> u64 \<Rightarrow> quota_counts \<Rightarrow>
   protocol_outcome + (quota_lease \<times> quota_counts)" where
  "quota_try_acquire c prin r units counts =
     (let glob = count_of (quota_global counts) r;
          principal_count = count_of (quota_principals counts) (prin, r);
          global_limit = limit c r
      in if global_limit < saturating_add glob units \<or>
            per_principal_limit c r < saturating_add principal_count units
         then Inl QuotaExceeded
         else Inr (\<lparr>lease_principal = prin, lease_resource = r, lease_units = units\<rparr>,
                   \<lparr>quota_global = hinsert r (glob + units) (quota_global counts),
                    quota_principals =
                      hinsert (prin, r) (principal_count + units) (quota_principals counts)\<rparr>))"

text \<open>What \<open>Drop\<close> does to one counter: an occupied entry is lowered, and removed at zero.\<close>

definition give_back :: "'k \<Rightarrow> u64 \<Rightarrow> ('k, u64) hmap \<Rightarrow> ('k, u64) hmap" where
  "give_back k units m =
     (case hget m k of
        None \<Rightarrow> m
      | Some n \<Rightarrow>
          (let remaining = saturating_sub n units
           in if remaining = 0 then hremove k m else hinsert k remaining m))"

definition quota_lease_drop :: "quota_lease \<Rightarrow> quota_counts \<Rightarrow> quota_counts" where
  "quota_lease_drop l counts =
     \<lparr>quota_global = give_back (lease_resource l) (lease_units l) (quota_global counts),
      quota_principals =
        give_back (lease_principal l, lease_resource l) (lease_units l) (quota_principals counts)\<rparr>"

subsection \<open>The contract of a pool of leases\<close>

text \<open>
  What the holder of leases may rely on: an acquisition that succeeds adds one lease to those
  outstanding and stays within the limits, one that fails changes nothing, dropping an
  outstanding lease takes it out, and the usage of a key is the sum of its outstanding leases.
\<close>

locale lease_pool =
  fixes acquire :: "'p \<Rightarrow> 'r \<Rightarrow> u64 \<Rightarrow> 'q \<Rightarrow> ('lease \<times> 'q) option"
    and give :: "'lease \<Rightarrow> 'q \<Rightarrow> 'q"
    and usage :: "'q \<Rightarrow> 'r \<Rightarrow> nat"
    and cap :: "'r \<Rightarrow> nat"
    and units :: "'lease \<Rightarrow> 'r \<Rightarrow> nat"
    and represents :: "'q \<Rightarrow> 'lease multiset \<Rightarrow> bool"
  assumes acquire_represents:
      "represents q L \<Longrightarrow> acquire p r u q = Some (l, q') \<Longrightarrow> represents q' (add_mset l L)"
    and give_represents: "represents q (add_mset l L) \<Longrightarrow> represents (give l q) L"
    and usage_sum: "represents q L \<Longrightarrow> usage q r = (\<Sum>l\<in>#L. units l r)"
    and usage_cap: "represents q L \<Longrightarrow> usage q r \<le> cap r"
begin

lemma usage_after_acquire:
  assumes "represents q L" and "acquire p r u q = Some (l, q')"
  shows "usage q' r' = usage q r' + units l r'"
  using usage_sum [OF assms(1)] usage_sum [OF acquire_represents [OF assms]] by simp

lemma give_list_represents:
  "represents q (mset ls + L) \<Longrightarrow> represents (fold give ls q) L"
  by (induction ls arbitrary: q) (auto intro: give_represents)

lemma all_given_back:
  assumes "represents q (mset ls)"
  shows "usage (fold give ls q) r = 0"
  using usage_sum [OF give_list_represents [of q ls "{#}"]] assms by simp

end

subsection \<open>The counters represent the outstanding leases\<close>

definition lease_keyed :: "principal_id \<Rightarrow> quota_resource \<Rightarrow> quota_lease \<Rightarrow> nat" where
  "lease_keyed p r l = (if lease_principal l = p \<and> lease_resource l = r then unat (lease_units l) else 0)"

definition lease_on :: "quota_lease \<Rightarrow> quota_resource \<Rightarrow> nat" where
  "lease_on l r = (if lease_resource l = r then unat (lease_units l) else 0)"

definition global_usage :: "quota_counts \<Rightarrow> quota_resource \<Rightarrow> nat" where
  "global_usage q r = unat (count_of (quota_global q) r)"

definition principal_usage :: "quota_counts \<Rightarrow> principal_id \<Rightarrow> quota_resource \<Rightarrow> nat" where
  "principal_usage q p r = unat (count_of (quota_principals q) (p, r))"

definition quota_represents :: "admission_quota_config \<Rightarrow> quota_counts \<Rightarrow> quota_lease multiset \<Rightarrow> bool" where
  "quota_represents c q L \<longleftrightarrow>
     (\<forall>r. global_usage q r = (\<Sum>l\<in>#L. lease_on l r) \<and> global_usage q r \<le> unat (limit c r)) \<and>
     (\<forall>p r. principal_usage q p r = (\<Sum>l\<in>#L. lease_keyed p r l) \<and>
            principal_usage q p r \<le> unat (per_principal_limit c r)) \<and>
     (\<forall>r. hget (quota_global q) r \<noteq> None \<longrightarrow> (\<exists>l. l \<in># L \<and> lease_resource l = r)) \<and>
     (\<forall>p r. hget (quota_principals q) (p, r) \<noteq> None \<longrightarrow>
        (\<exists>l. l \<in># L \<and> lease_principal l = p \<and> lease_resource l = r))"

text \<open>
  The saturating test rules out overflow unless the limit itself is the largest word; the
  limits of a configuration are below that.
\<close>

definition limits_ok :: "admission_quota_config \<Rightarrow> bool" where
  "limits_ok c \<longleftrightarrow> (\<forall>r. limit c r < - 1 \<and> per_principal_limit c r < - 1)"

lemma admission_ok:
  assumes "\<not> lim < saturating_add n units" and "lim < (- 1 :: u64)"
  shows "unat (n + units) = unat n + unat units \<and> unat (n + units) \<le> unat lim"
proof -
  from assms(1) have le: "unat (saturating_add n units) \<le> unat lim"
    by (simp add: word_less_nat_alt)
  from assms(2) have "unat lim < 2 ^ 64 - 1" by (simp add: word_less_nat_alt)
  with le have lt: "unat n + unat units < 2 ^ 64" by (simp add: unat_saturating_add split: if_splits)
  then have "unat (n + units) = unat n + unat units" by (simp add: unat_word_ariths)
  moreover have "saturating_add n units = n + units" using lt by (simp add: saturating_add_def)
  ultimately show ?thesis using le by simp
qed

lemma count_of_hinsert: "count_of (hinsert k v m) k' = (if k' = k then v else count_of m k')"
  by (simp add: count_of_def hm.get_ins)

lemma count_of_give_back:
  "unat (count_of (give_back k u m) k') =
     (if k' = k then unat (count_of m k) - unat u else unat (count_of m k'))"
  by (auto simp: give_back_def count_of_def Let_def hmap_get word_nat saturating_sub_eq_0
        split: option.splits)

lemma hget_give_back:
  "hget (give_back k u m) k' \<noteq> None \<longleftrightarrow>
     hget m k' \<noteq> None \<and> (k' = k \<longrightarrow> unat u < unat (count_of m k))"
  by (auto simp: give_back_def count_of_def Let_def hmap_get saturating_sub_eq_0
        split: option.splits if_splits)

lemma quota_represents_empty: "quota_represents c quota_counts_default {#}"
  by (simp add: quota_represents_def quota_counts_default_def global_usage_def principal_usage_def count_of_def)

lemma represents_sums:
  assumes "quota_represents c q L"
  shows "global_usage q r = (\<Sum>l\<in>#L. lease_on l r)"
    and "principal_usage q p r = (\<Sum>l\<in>#L. lease_keyed p r l)"
  using assms unfolding quota_represents_def by blast+

lemma represents_limits:
  assumes "quota_represents c q L"
  shows "global_usage q r \<le> unat (limit c r)"
    and "principal_usage q p r \<le> unat (per_principal_limit c r)"
  using assms unfolding quota_represents_def by blast+

lemma represents_holders:
  assumes "quota_represents c q L"
  shows "hget (quota_global q) r \<noteq> None \<Longrightarrow> \<exists>l. l \<in># L \<and> lease_resource l = r"
    and "hget (quota_principals q) (p, r) \<noteq> None \<Longrightarrow>
           \<exists>l. l \<in># L \<and> lease_principal l = p \<and> lease_resource l = r"
  using assms unfolding quota_represents_def by blast+

lemma try_acquire_represents:
  assumes ok: "limits_ok c" and rep: "quota_represents c q L"
    and acq: "quota_try_acquire c p r u q = Inr (l, q')"
  shows "quota_represents c q' (add_mset l L)"
proof -
  let ?g = "count_of (quota_global q) r" and ?n = "count_of (quota_principals q) (p, r)"
  from acq have l: "l = \<lparr>lease_principal = p, lease_resource = r, lease_units = u\<rparr>"
    and q': "q' = \<lparr>quota_global = hinsert r (?g + u) (quota_global q),
                    quota_principals = hinsert (p, r) (?n + u) (quota_principals q)\<rparr>"
    and tests: "\<not> limit c r < saturating_add ?g u" "\<not> per_principal_limit c r < saturating_add ?n u"
    by (auto simp: quota_try_acquire_def Let_def split: if_splits)
  from ok have lim: "limit c r < - 1" "per_principal_limit c r < - 1" by (auto simp: limits_ok_def)
  note g = admission_ok [OF tests(1) lim(1)] and n = admission_ok [OF tests(2) lim(2)]
  have glob: "global_usage q' r' = global_usage q r' + lease_on l r'" for r'
    using g by (cases "r' = r") (auto simp: q' l global_usage_def lease_on_def count_of_hinsert)
  have prin: "principal_usage q' p' r' = principal_usage q p' r' + lease_keyed p' r' l" for p' r'
    using n by (cases "(p', r') = (p, r)")
      (auto simp: q' l principal_usage_def lease_keyed_def count_of_hinsert)
  have "global_usage q' r' \<le> unat (limit c r')" for r'
    using g represents_limits(1) [OF rep, of r'] by (simp add: q' global_usage_def count_of_hinsert)
  moreover have "principal_usage q' p' r' \<le> unat (per_principal_limit c r')" for p' r'
    using n represents_limits(2) [OF rep, of p' r']
    by (auto simp: q' principal_usage_def count_of_hinsert)
  moreover have "\<exists>l'. l' \<in># add_mset l L \<and> lease_resource l' = r'" if "hget (quota_global q') r' \<noteq> None" for r'
    using that represents_holders(1) [OF rep, of r'] by (cases "r' = r") (auto simp: q' l hm.get_ins)
  moreover have "\<exists>l'. l' \<in># add_mset l L \<and> lease_principal l' = p' \<and> lease_resource l' = r'"
    if "hget (quota_principals q') (p', r') \<noteq> None" for p' r'
    using that represents_holders(2) [OF rep, of p' r']
    by (cases "(p', r') = (p, r)") (auto simp: q' l hm.get_ins)
  ultimately show ?thesis
    using rep by (simp add: quota_represents_def glob prin)
qed

lemma positive_sum_member:
  "0 < (\<Sum>x\<in>#M. f x) \<Longrightarrow> \<exists>x. x \<in># M \<and> 0 < (f x :: nat)"
  by (induction M) auto

lemma lease_drop_represents:
  assumes rep: "quota_represents c q (add_mset l L)"
  shows "quota_represents c (quota_lease_drop l q) L"
proof -
  let ?q = "quota_lease_drop l q"
  note caps = represents_limits [OF rep]
  from rep have sums: "global_usage q r = lease_on l r + (\<Sum>l\<in>#L. lease_on l r)"
    "principal_usage q p r = lease_keyed p r l + (\<Sum>l\<in>#L. lease_keyed p r l)" for p r
    by (auto simp: quota_represents_def)
  have glob: "global_usage ?q r = (\<Sum>l\<in>#L. lease_on l r)" for r
    using sums(1) [of r]
    by (auto simp: quota_lease_drop_def global_usage_def lease_on_def count_of_give_back)
  have prin: "principal_usage ?q p r = (\<Sum>l\<in>#L. lease_keyed p r l)" for p r
    using sums(2) [of p r]
    by (auto simp: quota_lease_drop_def principal_usage_def lease_keyed_def count_of_give_back)
  have lims: "global_usage ?q r \<le> unat (limit c r)" "principal_usage ?q p r \<le> unat (per_principal_limit c r)" for p r
    using caps(1) [of r] caps(2) [of p r] sums(1) [of r] sums(2) [of p r] by (simp_all add: glob prin)
  have "\<exists>l'. l' \<in># L \<and> lease_resource l' = r" if r: "hget (quota_global ?q) r \<noteq> None" for r
  proof (cases "lease_resource l = r")
    case True
    with r have "lease_on l r < global_usage q r"
      by (simp add: quota_lease_drop_def hget_give_back lease_on_def global_usage_def del: not_None_eq)
    with sums(1) [of r] have "0 < (\<Sum>l\<in>#L. lease_on l r)" by simp
    from positive_sum_member [OF this] show ?thesis by (auto simp: lease_on_def split: if_splits)
  next
    case False
    from r have "hget (quota_global q) r \<noteq> None"
      by (simp add: quota_lease_drop_def hget_give_back del: not_None_eq)
    from represents_holders(1) [OF rep this] False show ?thesis by auto
  qed
  moreover have "\<exists>l'. l' \<in># L \<and> lease_principal l' = p \<and> lease_resource l' = r"
    if pr: "hget (quota_principals ?q) (p, r) \<noteq> None" for p r
  proof (cases "lease_principal l = p \<and> lease_resource l = r")
    case True
    with pr have "lease_keyed p r l < principal_usage q p r"
      by (simp add: quota_lease_drop_def hget_give_back lease_keyed_def principal_usage_def del: not_None_eq)
    with sums(2) [of p r] have "0 < (\<Sum>l\<in>#L. lease_keyed p r l)" by simp
    from positive_sum_member [OF this] show ?thesis by (auto simp: lease_keyed_def split: if_splits)
  next
    case False
    from pr have "hget (quota_principals q) (p, r) \<noteq> None"
      by (simp add: quota_lease_drop_def hget_give_back del: not_None_eq)
    from represents_holders(2) [OF rep this] False show ?thesis by auto
  qed
  ultimately show ?thesis using glob prin lims by (simp add: quota_represents_def)
qed

definition quota_acquire_opt ::
  "admission_quota_config \<Rightarrow> principal_id \<Rightarrow> quota_resource \<Rightarrow> u64 \<Rightarrow> quota_counts \<Rightarrow> (quota_lease \<times> quota_counts) option" where
  "quota_acquire_opt c p r u q = (case quota_try_acquire c p r u q of Inl e \<Rightarrow> None | Inr x \<Rightarrow> Some x)"

interpretation quota: lease_pool "quota_acquire_opt c" quota_lease_drop global_usage
    "\<lambda>r. unat (limit c r)" lease_on "\<lambda>q L. limits_ok c \<and> quota_represents c q L"
  for c
proof (standard, goal_cases)
  case (1 q L p r u l q')
  then show ?case
    by (auto simp: quota_acquire_opt_def split: sum.splits intro: try_acquire_represents)
next
  case (2 q l L)
  then show ?case by (blast intro: lease_drop_represents)
next
  case (3 q L r)
  then show ?case by (blast intro: represents_sums)
next
  case (4 q L r)
  then show ?case by (blast intro: represents_limits)
qed

subsection \<open>Any sequence of acquisitions and drops\<close>

datatype quota_event = Acquire principal_id quota_resource u64 | DropLease nat

fun pool_exec ::
  "admission_quota_config \<Rightarrow> quota_event \<Rightarrow> quota_counts \<times> quota_lease list \<Rightarrow> quota_counts \<times> quota_lease list" where
  "pool_exec c (Acquire p r u) (q, ls) =
     (case quota_try_acquire c p r u q of Inl e \<Rightarrow> (q, ls) | Inr (l, q') \<Rightarrow> (q', l # ls))"
| "pool_exec c (DropLease i) (q, ls) =
     (if i < length ls then (quota_lease_drop (ls ! i) q, take i ls @ drop (Suc i) ls) else (q, ls))"

definition pool_inv :: "admission_quota_config \<Rightarrow> quota_counts \<times> quota_lease list \<Rightarrow> bool" where
  "pool_inv c s \<longleftrightarrow> limits_ok c \<and> quota_represents c (fst s) (mset (snd s))"

lemma mset_remove_nth: "i < length xs \<Longrightarrow> add_mset (xs ! i) (mset (take i xs @ drop (Suc i) xs)) = mset xs"
  by (metis (no_types, lifting) id_take_nth_drop mset.simps(2) mset_append union_mset_add_mset_right)

interpretation quota_runs: run_system "pool_exec c" "pool_inv c" for c
proof
  fix ev and s :: "quota_counts \<times> quota_lease list"
  assume inv: "pool_inv c s"
  obtain q ls where s: "s = (q, ls)" by (cases s)
  show "pool_inv c (pool_exec c ev s)"
  proof (cases ev)
    case (Acquire p r u)
    with inv s show ?thesis
      by (auto simp: pool_inv_def split: sum.splits intro: try_acquire_represents)
  next
    case (DropLease i)
    with inv s show ?thesis
      using lease_drop_represents [of c q "ls ! i" "mset (take i ls @ drop (Suc i) ls)"]
      by (auto simp: pool_inv_def mset_remove_nth simp flip: mset_append)
  qed
qed

lemma pool_reached_inv:
  "limits_ok c \<Longrightarrow> fold (pool_exec c) evs (quota_counts_default, []) = (q, ls) \<Longrightarrow> quota_represents c q (mset ls)"
  using quota_runs.run_inv [of c "(quota_counts_default, [])" evs]
  by (simp add: pool_inv_def quota_represents_empty)

lemma represents_empty_counts:
  assumes "quota_represents c q {#}"
  shows "q = quota_counts_default"
proof -
  have "hget (quota_global q) r = None" "hget (quota_principals q) pr = None" for r pr
    using assms by (cases pr, auto simp: quota_represents_def)+
  then have "quota_global q = []" "quota_principals q = []"
    by (metis list.set_intros(1) map_of_eq_None_iff image_eqI empty_iff list.exhaust)+
  then show ?thesis by (simp add: quota_counts_default_def)
qed

subsection \<open>Properties\<close>

text \<open>
  C5. Whatever sequence of acquisitions, refusals and drops has happened, for every resource
  the global counter is exactly the sum of the outstanding leases on it, the counter of a
  principal is the sum of that principal's, and both are within their limits: no capacity
  is lost or granted twice, and no principal can exceed its share.
\<close>

theorem quota_accounting:
  assumes "limits_ok c"
    and "fold (pool_exec c) evs (quota_counts_default, []) = (q, ls)"
  shows "global_usage q r = (\<Sum>l\<leftarrow>ls. lease_on l r) \<and> global_usage q r \<le> unat (limit c r) \<and>
         principal_usage q p r = (\<Sum>l\<leftarrow>ls. lease_keyed p r l) \<and>
         principal_usage q p r \<le> unat (per_principal_limit c r)"
  using represents_sums [OF pool_reached_inv [OF assms]] represents_limits [OF pool_reached_inv [OF assms]]
  by (simp flip: sum_mset_sum_list)

lemma limits_ok_default: "limits_ok admission_quota_config_default"
  unfolding limits_ok_def
proof
  fix r
  show "limit admission_quota_config_default r < - 1 \<and> per_principal_limit admission_quota_config_default r < - 1"
    by (cases r) (simp_all add: admission_quota_config_default_def per_principal_limit_def)
qed

theorem quota_accounting_witness:
  "\<exists>q ls. fold (pool_exec admission_quota_config_default)
      [Acquire (StdioProcess 1) Tasks 3, Acquire (DaemonIpc 2) Tasks 4, DropLease 0] (quota_counts_default, []) = (q, ls) \<and>
     global_usage q Tasks = (\<Sum>l\<leftarrow>ls. lease_on l Tasks) \<and> global_usage q Tasks \<le> 1024"
proof -
  let ?evs = "[Acquire (StdioProcess 1) Tasks 3, Acquire (DaemonIpc 2) Tasks 4, DropLease 0]"
  obtain q ls where run: "fold (pool_exec admission_quota_config_default) ?evs (quota_counts_default, []) = (q, ls)"
    by fastforce
  from quota_accounting [OF limits_ok_default run, of Tasks "StdioProcess 1"] show ?thesis
    unfolding run by (auto simp: admission_quota_config_default_def)
qed

text \<open>
  No leak: dropping every outstanding lease, in any order, brings the counters back to
  the empty maps a new quota object starts with.
\<close>

theorem quota_all_dropped:
  assumes "limits_ok c"
    and "fold (pool_exec c) evs (quota_counts_default, []) = (q, ls)"
    and "mset order = mset ls"
  shows "fold quota_lease_drop order q = quota_counts_default"
proof -
  from pool_reached_inv [OF assms(1,2)] assms(1,3)
  have "limits_ok c \<and> quota_represents c q (mset order + {#})" by simp
  from quota.give_list_represents [OF this] show ?thesis by (blast intro: represents_empty_counts)
qed

theorem quota_all_dropped_witness:
  "fold quota_lease_drop (snd (fold (pool_exec admission_quota_config_default)
      [Acquire (StdioProcess 1) Tasks 3, Acquire (DaemonIpc 2) Tasks 4] (quota_counts_default, [])))
    (fst (fold (pool_exec admission_quota_config_default)
      [Acquire (StdioProcess 1) Tasks 3, Acquire (DaemonIpc 2) Tasks 4] (quota_counts_default, []))) =
   quota_counts_default"
  by (rule quota_all_dropped [OF limits_ok_default surjective_pairing refl])

end
