(* ===== verification/Json.thy ===== *)
theory Json
  imports Plug_Prelude
begin

section \<open>JSON values and ordered maps\<close>

text \<open>
  The part of \<open>serde_json\<close> the sources use, modelled because the JSON envelopes are the
  data the protocol adapters rewrite. A Rust string is its UTF-8 bytes. \<open>Map\<close> is a
  \<open>BTreeMap<String, Value>\<close> (the \<open>preserve_order\<close> feature is off): an association list with
  strictly increasing keys, for which the locale \<open>hash_map\<close> is interpreted a second time;
  two such lists with the same lookups are equal, which is how the round trips of the
  adapters are proved. Assignment through an index (\<open>v[key] = x\<close>) panics on a value that is
  neither an object nor null: \<open>index_assign\<close> returns \<open>None\<close> there.

  Also here: decimal printing and \<open>str::parse::<usize>\<close>, with their round trip.
\<close>

subsection \<open>Ordered maps\<close>

type_synonym 'v bmap = "(string \<times> 'v) list"

fun binsert :: "string \<Rightarrow> 'v \<Rightarrow> 'v bmap \<Rightarrow> 'v bmap" where
  "binsert k v [] = [(k, v)]"
| "binsert k v ((k', v') # m) =
     (if k < k' then (k, v) # (k', v') # m
      else if k = k' then (k, v) # m
      else (k', v') # binsert k v m)"

definition bmap_ok :: "'v bmap \<Rightarrow> bool" where
  "bmap_ok m = sorted_wrt (<) (map fst m)"

lemma bmap_ok_Nil [simp]: "bmap_ok []"
  by (simp add: bmap_ok_def)

lemma bmap_ok_Cons [simp]: "bmap_ok ((k, v) # m) \<longleftrightarrow> (\<forall>k' \<in> fst ` set m. k < k') \<and> bmap_ok m"
  by (simp add: bmap_ok_def)

lemma keys_binsert: "fst ` set (binsert k v m) = insert k (fst ` set m)"
  by (induction k v m rule: binsert.induct) auto

lemma map_of_binsert: "map_of (binsert k v m) = (map_of m)(k \<mapsto> v)"
  by (induction k v m rule: binsert.induct) (auto simp: fun_eq_iff)

lemma bmap_ok_binsert: "bmap_ok m \<Longrightarrow> bmap_ok (binsert k v m)"
proof (induction k v m rule: binsert.induct)
  case (1 k v)
  then show ?case by simp
next
  case (2 k v k' v' m)
  then show ?case by (auto simp: keys_binsert)
qed

lemma bmap_ok_filter: "bmap_ok m \<Longrightarrow> bmap_ok (filter P m)"
  unfolding bmap_ok_def by (induction m) auto

lemma bmap_ok_hmap_ok: "bmap_ok m \<Longrightarrow> hmap_ok m"
  unfolding bmap_ok_def hmap_ok_def by (simp add: strict_sorted_iff)

interpretation bm: hash_map "map_of :: 'v bmap \<Rightarrow> string \<Rightarrow> 'v option" binsert hremove hretain bmap_ok
proof (standard, goal_cases)
  case (1 k v m)
  then show ?case by (rule map_of_binsert)
next
  case (2 k m)
  then show ?case by (rule map_of_hremove)
next
  case (3 m P k)
  then show ?case by (rule hm.get_retain [OF bmap_ok_hmap_ok])
next
  case (4 m k v)
  then show ?case by (rule bmap_ok_binsert)
next
  case (5 m k)
  then show ?case by (simp add: hremove_def bmap_ok_filter)
next
  case (6 m P)
  then show ?case by (simp add: hretain_def bmap_ok_filter)
qed

lemmas bmap_get = bm.get_ins bm.get_del
lemmas bmap_ok_intros [intro, simp] = bm.ok_ins bm.ok_del bm.ok_retain

lemma bmap_eqI:
  "bmap_ok m \<Longrightarrow> bmap_ok m' \<Longrightarrow> (\<And>k. hget m k = hget m' k) \<Longrightarrow> m = m'"
proof (induction m arbitrary: m')
  case Nil
  then have "hget m' k = None" for k by simp
  then show ?case by (cases m') (auto split: if_splits, metis option.distinct(1))
next
  case (Cons e m)
  obtain k v where e: "e = (k, v)" by (cases e)
  from Cons.prems(3) [of k] have "hget m' k = Some v" by (simp add: e)
  then obtain e' n where m': "m' = e' # n" by (cases m') auto
  obtain k' v' where e': "e' = (k', v')" by (cases e')
  from Cons.prems(3) [of k'] have "k' \<in> fst ` set (e # m)"
    by (simp add: m' e' e image_iff split: if_splits)
       (metis eq_fst_iff map_of_SomeD)
  moreover from Cons.prems(3) [of k] have "k \<in> fst ` set (e' # n)"
    by (simp add: m' e' e image_iff split: if_splits) (metis eq_fst_iff map_of_SomeD)
  ultimately have k: "k = k'"
    using Cons.prems(1,2) unfolding e e' m' bmap_ok_Cons list.set image_insert fst_conv
    by (metis insertE order_less_asym)
  have "hget m x = hget n x" for x
  proof (cases "x = k")
    case True
    with Cons.prems(1,2) have "x \<notin> fst ` set m" "x \<notin> fst ` set n" by (auto simp: e m' e' k)
    then show ?thesis by (simp add: map_of_eq_None_iff [THEN iffD2])
  next
    case False
    with Cons.prems(3) [of x] show ?thesis by (simp add: e m' e' k)
  qed
  with Cons.IH [of n] Cons.prems have "m = n" by (simp add: e m' e')
  with Cons.prems(3) [of k] show ?case by (simp add: e m' e' k)
qed

subsection \<open>Values\<close>

text \<open>\<open>Number\<close>: unsigned, negative, or the bits of a float.\<close>

datatype json_number = PosInt u64 | NegInt u64 | Float u64

datatype json =
    JNull
  | JBool bool
  | JNumber json_number
  | JString string
  | JArray "json list"
  | JObject "(string \<times> json) list"

fun as_str :: "json \<Rightarrow> string option" where
  "as_str (JString s) = Some s"
| "as_str _ = None"

fun as_object :: "json \<Rightarrow> json bmap option" where
  "as_object (JObject m) = Some m"
| "as_object _ = None"

text \<open>\<open>Value::get\<close> with a string index: nothing unless the value is an object.\<close>

fun jget :: "json \<Rightarrow> string \<Rightarrow> json option" where
  "jget (JObject m) k = hget m k"
| "jget _ k = None"

text \<open>\<open>value[key] = x\<close>; \<open>None\<close> is the panic.\<close>

fun index_assign :: "json \<Rightarrow> string \<Rightarrow> json \<Rightarrow> json option" where
  "index_assign JNull k x = Some (JObject [(k, x)])"
| "index_assign (JObject m) k x = Some (JObject (binsert k x m))"
| "index_assign _ k x = None"

text \<open>\<open>map.entry(e).or_insert_with(|| json!({}))[key] = x\<close>.\<close>

definition entry_index_assign :: "string \<Rightarrow> string \<Rightarrow> json \<Rightarrow> json bmap \<Rightarrow> json bmap option" where
  "entry_index_assign e k x m =
     map_option (\<lambda>v. binsert e v m)
       (index_assign (case hget m e of Some v \<Rightarrow> v | None \<Rightarrow> JObject []) k x)"

text \<open>A mutable borrow of a field, used and put back.\<close>

definition bupdate :: "string \<Rightarrow> (json \<Rightarrow> json) \<Rightarrow> json bmap \<Rightarrow> json bmap" where
  "bupdate k f m = (case hget m k of None \<Rightarrow> m | Some v \<Rightarrow> binsert k (f v) m)"

fun map_object :: "(json bmap \<Rightarrow> json bmap) \<Rightarrow> json \<Rightarrow> json" where
  "map_object f (JObject m) = JObject (f m)"
| "map_object f v = v"

fun json_ok :: "json \<Rightarrow> bool" where
  "json_ok (JObject m) \<longleftrightarrow> bmap_ok m \<and> (\<forall>e \<in> set m. json_ok (snd e))"
| "json_ok (JArray xs) \<longleftrightarrow> (\<forall>x \<in> set xs. json_ok x)"
| "json_ok _ \<longleftrightarrow> True"

lemma json_ok_get: "json_ok (JObject m) \<Longrightarrow> hget m k = Some v \<Longrightarrow> json_ok v"
  by (fastforce dest: map_of_SomeD)

lemma set_binsert_subset: "set (binsert k v m) \<subseteq> insert (k, v) (set m)"
  by (induction k v m rule: binsert.induct) auto

lemma json_ok_binsert:
  "json_ok (JObject m) \<Longrightarrow> json_ok v \<Longrightarrow> json_ok (JObject (binsert k v m))"
  using set_binsert_subset [of k v m] by (auto simp: bmap_ok_binsert)

lemma json_ok_hremove: "json_ok (JObject m) \<Longrightarrow> json_ok (JObject (hremove k m))"
  by (auto simp: set_hremove intro: bm.ok_del)

lemma hget_bupdate:
  "hget (bupdate k f m) k' = (if k' = k then map_option f (hget m k) else hget m k')"
  by (auto simp: bupdate_def bmap_get split: option.splits)

lemma bmap_ok_bupdate: "bmap_ok m \<Longrightarrow> bmap_ok (bupdate k f m)"
  by (auto simp: bupdate_def split: option.splits)

subsection \<open>Errors of the protocol\<close>

text \<open>
  \<open>rmcp::ErrorData\<close>: a code, a message and optional data. The SDK's named codes stay names;
  \<open>ErrorCode\<close> is a code the sources give as a number.
\<close>

datatype error_code = INVALID_REQUEST | INVALID_PARAMS | INTERNAL_ERROR | METHOD_NOT_FOUND | ErrorCode int

datatype mcp_error = McpError (error_code: error_code) (error_message: string) (error_data: "json option")

subsection \<open>Decimal numbers\<close>

definition digit_char :: "nat \<Rightarrow> char" where
  "digit_char d = char_of (48 + d)"

definition is_digit :: "char \<Rightarrow> bool" where
  "is_digit c \<longleftrightarrow> 48 \<le> (of_char c :: nat) \<and> (of_char c :: nat) \<le> 57"

definition digit_val :: "char \<Rightarrow> nat" where
  "digit_val c = of_char c - 48"

fun show_nat :: "nat \<Rightarrow> string" where
  "show_nat n = (if n < 10 then [digit_char n] else show_nat (n div 10) @ [digit_char (n mod 10)])"

declare show_nat.simps [simp del]

definition show_u64 :: "u64 \<Rightarrow> string" where
  "show_u64 w = show_nat (unat w)"

definition digits_val :: "string \<Rightarrow> nat" where
  "digits_val s = foldl (\<lambda>acc c. acc * 10 + digit_val c) 0 s"

text \<open>
  \<open>str::parse::<usize>\<close>: an optional plus sign, at least one digit, nothing else, and the
  result below \<open>2^64\<close>.
\<close>

definition parse_usize :: "string \<Rightarrow> nat option" where
  "parse_usize s =
     (let body = (case s of c # cs \<Rightarrow> if c = CHR ''+'' then cs else s | [] \<Rightarrow> [])
      in if body \<noteq> [] \<and> list_all is_digit body \<and> digits_val body < 2 ^ 64
         then Some (digits_val body) else None)"

lemma digit_char_eval [simp]:
  "digit_char 0 = CHR ''0''" "digit_char 1 = CHR ''1''" "digit_char (Suc 0) = CHR ''1''"
  "digit_char 2 = CHR ''2''" "digit_char 3 = CHR ''3''" "digit_char 4 = CHR ''4''"
  "digit_char 5 = CHR ''5''" "digit_char 6 = CHR ''6''" "digit_char 7 = CHR ''7''"
  "digit_char 8 = CHR ''8''" "digit_char 9 = CHR ''9''"
  by (simp_all add: digit_char_def char_of_def bit_simps)

lemma of_char_digit: "d < 10 \<Longrightarrow> of_char (digit_char d) = 48 + d"
  unfolding digit_char_def by (simp add: of_char_of take_bit_nat_def)

lemma is_digit_digit_char: "d < 10 \<Longrightarrow> is_digit (digit_char d)"
  by (simp add: is_digit_def of_char_digit)

lemma digit_val_digit_char: "d < 10 \<Longrightarrow> digit_val (digit_char d) = d"
  by (simp add: digit_val_def of_char_digit)

lemma digits_val_snoc: "digits_val (s @ [c]) = digits_val s * 10 + digit_val c"
  by (simp add: digits_val_def)

lemma show_nat_ok:
  "show_nat n \<noteq> [] \<and> list_all is_digit (show_nat n) \<and> digits_val (show_nat n) = n"
proof (induction n rule: show_nat.induct)
  case (1 n)
  show ?case
  proof (cases "n < 10")
    case True
    then show ?thesis
      by (simp add: show_nat.simps [of n] is_digit_digit_char digits_val_def digit_val_digit_char)
  next
    case False
    with 1 show ?thesis
      by (simp add: show_nat.simps [of n] is_digit_digit_char digits_val_snoc digit_val_digit_char)
  qed
qed

lemma plus_not_digit: "\<not> is_digit (CHR ''+'')"
  by (simp add: is_digit_def)

lemma parse_show_nat: "n < 2 ^ 64 \<Longrightarrow> parse_usize (show_nat n) = Some n"
  using show_nat_ok [of n] plus_not_digit
  by (auto simp: parse_usize_def Let_def split: list.splits)

lemma show_nat_inj: "show_nat m = show_nat n \<longleftrightarrow> m = n"
  using show_nat_ok [of m] show_nat_ok [of n] by metis

lemma show_u64_inj: "show_u64 v = show_u64 w \<longleftrightarrow> v = w"
  by (simp add: show_u64_def show_nat_inj word_unat_eq_iff)

end
