(* ===== verification/Protocol.thy ===== *)
theory Protocol
  imports Quotas Json
begin

section \<open>Protocol eras, admission policy and wire rewriting\<close>

text \<open>
  Models \<open>plug-core/src/protocol.rs\<close> (the quotas are in \<open>Quotas\<close>): the era of an HTTP
  request, the method families with their scopes, the one admission policy
  \<open>decide_method\<close>, the encoding of outcomes as errors, and the adapters that rewrite
  the removed task vocabulary of the legacy protocol on the way in and restore it on the
  way out, with \<open>legacy_tasks::call_tool_params\<close>, the inverse of
  \<open>rewrite_legacy_call_params\<close> on the upstream wire. The adapters work in place on JSON; here they return
  the new value, and \<open>None\<close> where the code panics. \<open>rmcp::model::TASKS_EXTENSION_ID\<close> is
  an argument, as is the serialisation of \<open>CallToolRequestParams\<close>.
\<close>

subsection \<open>Eras\<close>

definition SUPPORTED_PROTOCOL_VERSION :: string where
  "SUPPORTED_PROTOCOL_VERSION = ''2025-11-25''"

definition ANNOUNCED_FUTURE_PROTOCOL_VERSION :: string where
  "ANNOUNCED_FUTURE_PROTOCOL_VERSION = ''2026-07-28''"

definition RESULT_TYPE_COMPLETE :: string where
  "RESULT_TYPE_COMPLETE = ''complete''"

definition LEGACY_TASKS_CAPABILITY_KEY :: string where
  "LEGACY_TASKS_CAPABILITY_KEY = ''plug.dev/legacy-tasks''"

definition LEGACY_TASK_REQUEST_KEY :: string where
  "LEGACY_TASK_REQUEST_KEY = ''plug.dev/legacy-task''"

datatype protocol_era = Legacy | Modern

definition from_version :: "string \<Rightarrow> protocol_era" where
  "from_version version = (if version = ANNOUNCED_FUTURE_PROTOCOL_VERSION then Modern else Legacy)"

definition request_method :: "json \<Rightarrow> string option" where
  "request_method v = Option.bind (jget v ''method'') as_str"

definition meta_version :: "json \<Rightarrow> string option" where
  "meta_version v =
     Option.bind (jget v ''params'') (\<lambda>params.
     Option.bind (jget params ''_meta'') (\<lambda>meta.
     Option.bind (jget meta ''io.modelcontextprotocol/protocolVersion'') as_str))"

definition initialize_version :: "json \<Rightarrow> string option" where
  "initialize_version v =
     (if request_method v = Some ''initialize''
      then Option.bind (jget v ''params'') (\<lambda>params.
           Option.bind (jget params ''protocolVersion'') as_str)
      else None)"

definition declared_versions :: "json \<Rightarrow> string option \<Rightarrow> string list" where
  "declared_versions v header = List.map_filter id [header, meta_version v, initialize_version v]"

definition classify_http_request_era :: "json \<Rightarrow> string option \<Rightarrow> string + protocol_era" where
  "classify_http_request_era v header =
     (let declared = declared_versions v header
      in if declared \<noteq> [] \<and> list_ex (\<lambda>version. version \<noteq> hd declared) declared
         then Inl ''MCP protocol version header and body metadata disagree''
         else if request_method v = Some ''server/discover'' \<or>
                 (declared \<noteq> [] \<and> hd declared = ANNOUNCED_FUTURE_PROTOCOL_VERSION)
         then if header \<noteq> Some ANNOUNCED_FUTURE_PROTOCOL_VERSION
              then Inl ''modern requests require MCP-Protocol-Version: 2026-07-28''
              else if jget v ''id'' \<noteq> None \<and> meta_version v \<noteq> Some ANNOUNCED_FUTURE_PROTOCOL_VERSION
              then Inl ''modern requests require matching protocolVersion in params._meta''
              else Inr Modern
         else Inr Legacy)"

text \<open>The versions served, oldest first.\<close>

definition supported_downstream_protocol_versions :: "bool \<Rightarrow> string list" where
  "supported_downstream_protocol_versions modern_enabled =
     SUPPORTED_PROTOCOL_VERSION # (if modern_enabled then [ANNOUNCED_FUTURE_PROTOCOL_VERSION] else [])"

subsection \<open>Capabilities\<close>

text \<open>The fields of \<open>ServerCapabilities\<close> the sources touch; the others are the record's extension.\<close>

record server_capabilities =
  cap_extensions :: "json bmap option"
  cap_experimental :: "json bmap option"
  cap_resources_subscribe :: "bool option option"

definition suppress_unimplemented_modern_capabilities ::
  "'a server_capabilities_scheme \<Rightarrow> 'a server_capabilities_scheme" where
  "suppress_unimplemented_modern_capabilities c =
     c \<lparr>cap_extensions := None, cap_experimental := None,
        cap_resources_subscribe := map_option (\<lambda>_. None) (cap_resources_subscribe c)\<rparr>"

definition legacy_tasks_capability :: "'a server_capabilities_scheme \<Rightarrow> bool" where
  "legacy_tasks_capability c =
     (case cap_experimental c of None \<Rightarrow> False | Some m \<Rightarrow> hget m LEGACY_TASKS_CAPABILITY_KEY \<noteq> None)"

subsection \<open>Method families and admission\<close>

datatype method_family =
    ToolsList | ToolsCall | ResourcesList | ResourcesRead | ResourcesSubscribe | PromptsList
  | PromptsGet | Completion | TaskFamily | ListenerFamily | Logging | LoggingRead | ContinuationFamily
  | Extensions | Administration | Unknown

definition DEFAULT_DOWNSTREAM_OAUTH_SCOPES :: "string list" where
  "DEFAULT_DOWNSTREAM_OAUTH_SCOPES =
     [''tools:read'', ''resources:read'', ''prompts:read'', ''completion:use'', ''tasks:use'',
      ''subscriptions:listen'', ''logging:configure'', ''logging:read'', ''continuations:complete'']"

definition from_method :: "string \<Rightarrow> method_family" where
  "from_method m =
     (if m = ''tools/list'' then ToolsList
      else if m = ''tools/call'' then ToolsCall
      else if m = ''resources/list'' \<or> m = ''resources/templates/list'' then ResourcesList
      else if m = ''resources/read'' then ResourcesRead
      else if m = ''resources/subscribe'' \<or> m = ''resources/unsubscribe'' then ResourcesSubscribe
      else if m = ''prompts/list'' then PromptsList
      else if m = ''prompts/get'' then PromptsGet
      else if m = ''completion/complete'' then Completion
      else if prefix ''tasks/'' m \<or> prefix ''plug/legacy/tasks/'' m then TaskFamily
      else if m = ''subscriptions/listen'' then ListenerFamily
      else if m = ''logging/setLevel'' then Logging
      else if m = ''tools/complete'' then ContinuationFamily
      else if prefix ''extensions/'' m then Extensions
      else if prefix ''plug/admin/'' m then Administration
      else Unknown)"

fun required_scope :: "method_family \<Rightarrow> string option" where
  "required_scope ToolsList = Some ''tools:read''"
| "required_scope ToolsCall = Some ''tools:read''"
| "required_scope ResourcesList = Some ''resources:read''"
| "required_scope ResourcesRead = Some ''resources:read''"
| "required_scope ResourcesSubscribe = Some ''resources:read''"
| "required_scope PromptsList = Some ''prompts:read''"
| "required_scope PromptsGet = Some ''prompts:read''"
| "required_scope Completion = Some ''completion:use''"
| "required_scope TaskFamily = Some ''tasks:use''"
| "required_scope ListenerFamily = Some ''subscriptions:listen''"
| "required_scope Logging = Some ''logging:configure''"
| "required_scope LoggingRead = Some ''logging:read''"
| "required_scope ContinuationFamily = Some ''continuations:complete''"
| "required_scope Extensions = Some ''extensions:use''"
| "required_scope Administration = Some ''plug:admin''"
| "required_scope Unknown = None"

definition durable :: "method_family \<Rightarrow> bool" where
  "durable f \<longleftrightarrow> f \<in> {TaskFamily, ListenerFamily, ContinuationFamily}"

datatype downstream_transport = Stdio | Http | Ipc

record capability_policy_input =
  era :: protocol_era
  transport :: downstream_transport
  policy_principal :: "principal_id option"
  scopes :: "string set"
  local_trust :: bool
  modern_direction_enabled :: bool
  bridge_implemented :: bool

datatype policy_decision = Allow | Deny protocol_outcome

definition decide_method :: "capability_policy_input \<Rightarrow> method_family \<Rightarrow> policy_decision" where
  "decide_method input family =
     (if family = Unknown then Deny UnsupportedBridge
      else if era input = Modern \<and> \<not> modern_direction_enabled input then Deny UnsupportedBridge
      else if durable family \<and> policy_principal input = None then Deny AuthorizationRequired
      else if family \<in> {ContinuationFamily, Extensions} \<and> \<not> bridge_implemented input
      then Deny UnsupportedBridge
      else if local_trust input then Allow
      else (case required_scope family of
              Some scope \<Rightarrow> if scope \<in> scopes input then Allow else Deny PermissionDenied
            | None \<Rightarrow> Deny UnsupportedBridge))"

subsection \<open>Outcomes as errors\<close>

record outcome_encoding =
  code :: int
  kind :: protocol_outcome
  encoded_message :: string
  retryable :: bool

fun outcome_row :: "protocol_outcome \<Rightarrow> int \<times> int \<times> string \<times> bool" where
  "outcome_row AuthorizationRequired = (-32001, -32001, ''authorization required'', False)"
| "outcome_row UpstreamUnavailable = (-32002, -32002, ''upstream unavailable'', True)"
| "outcome_row UnsupportedBridge = (-32601, -32601, ''unsupported protocol bridge'', False)"
| "outcome_row RetryableTransition = (-32003, -32003, ''retryable transition'', True)"
| "outcome_row OutcomeCancelled = (-32800, -32800, ''request cancelled'', False)"
| "outcome_row ExpiredContinuation = (-32004, -32004, ''continuation expired'', False)"
| "outcome_row PermissionDenied = (-32005, -32005, ''permission denied'', False)"
| "outcome_row OutcomeInputRequired = (-32006, -32010, ''input required'', False)"
| "outcome_row QuotaExceeded = (-32007, -32007, ''quota exceeded'', True)"

definition encode :: "protocol_outcome \<Rightarrow> protocol_era \<Rightarrow> outcome_encoding" where
  "encode out e =
     (case outcome_row out of
        (legacy_code, modern_code, message, retry) \<Rightarrow>
          \<lparr>code = (case e of Legacy \<Rightarrow> legacy_code | Modern \<Rightarrow> modern_code), kind = out,
           encoded_message = message, retryable = retry\<rparr>)"

fun outcome_name :: "protocol_outcome \<Rightarrow> string" where
  "outcome_name AuthorizationRequired = ''authorization_required''"
| "outcome_name UpstreamUnavailable = ''upstream_unavailable''"
| "outcome_name UnsupportedBridge = ''unsupported_bridge''"
| "outcome_name RetryableTransition = ''retryable_transition''"
| "outcome_name OutcomeCancelled = ''cancelled''"
| "outcome_name ExpiredContinuation = ''expired_continuation''"
| "outcome_name PermissionDenied = ''permission_denied''"
| "outcome_name OutcomeInputRequired = ''input_required''"
| "outcome_name QuotaExceeded = ''quota_exceeded''"

definition into_error :: "protocol_outcome \<Rightarrow> protocol_era \<Rightarrow> mcp_error" where
  "into_error out e =
     (let enc = encode out e
      in McpError (ErrorCode (code enc)) (encoded_message enc)
           (Some (JObject [(''kind'', JString (outcome_name (kind enc))),
                           (''retryable'', JBool (retryable enc))])))"

subsection \<open>Rewriting requests\<close>

definition rewrite_legacy_call_params :: "json \<Rightarrow> json option" where
  "rewrite_legacy_call_params v =
     (case as_object v of
        None \<Rightarrow> Some v
      | Some params \<Rightarrow>
          (case hget params ''task'' of
             None \<Rightarrow> Some v
           | Some task \<Rightarrow>
               map_option JObject
                 (entry_index_assign ''_meta'' LEGACY_TASK_REQUEST_KEY task (hremove ''task'' params))))"

definition rewrite_client_capabilities :: "string \<Rightarrow> json bmap \<Rightarrow> json bmap option" where
  "rewrite_client_capabilities ext capabilities =
     (case hget capabilities ''tasks'' of
        None \<Rightarrow> Some capabilities
      | Some tasks \<Rightarrow>
          Option.bind
            (entry_index_assign ''extensions'' ext (JObject []) (hremove ''tasks'' capabilities))
            (entry_index_assign ''experimental'' LEGACY_TASKS_CAPABILITY_KEY tasks))"

definition rewrite_call_envelope :: "json bmap \<Rightarrow> json bmap option" where
  "rewrite_call_envelope object =
     (case hget object ''params'' of
        None \<Rightarrow> Some object
      | Some params \<Rightarrow> map_option (\<lambda>p. binsert ''params'' p object) (rewrite_legacy_call_params params))"

definition rewrite_initialize_envelope :: "string \<Rightarrow> json bmap \<Rightarrow> json bmap option" where
  "rewrite_initialize_envelope ext object =
     (case Option.bind (hget object ''params'') as_object of
        None \<Rightarrow> Some object
      | Some params \<Rightarrow>
          (case Option.bind (hget params ''capabilities'') as_object of
             None \<Rightarrow> Some object
           | Some capabilities \<Rightarrow>
               map_option
                 (\<lambda>c. binsert ''params'' (JObject (binsert ''capabilities'' (JObject c) params)) object)
                 (rewrite_client_capabilities ext capabilities)))"

definition rewrite_legacy_request :: "string \<Rightarrow> json \<Rightarrow> json option" where
  "rewrite_legacy_request ext v =
     (case as_object v of
        None \<Rightarrow> Some v
      | Some object \<Rightarrow>
          (case Option.bind (hget object ''method'') as_str of
             None \<Rightarrow> Some v
           | Some meth \<Rightarrow>
               (let object1 =
                      (if meth \<in> {''tasks/list'', ''tasks/get'', ''tasks/result'', ''tasks/cancel''}
                       then binsert ''method'' (JString (''plug/legacy/'' @ meth)) object else object)
                in map_option JObject
                     (Option.bind (if meth = ''tools/call'' then rewrite_call_envelope object1 else Some object1)
                        (\<lambda>object2. if meth = ''initialize'' then rewrite_initialize_envelope ext object2
                                   else Some object2)))))"

subsection \<open>Rewriting results\<close>

definition rename_key :: "string \<Rightarrow> string \<Rightarrow> json bmap \<Rightarrow> json bmap" where
  "rename_key a b m = (case hget m a of None \<Rightarrow> m | Some v \<Rightarrow> binsert b v (hremove a m))"

definition restore_extensions :: "string \<Rightarrow> json bmap \<Rightarrow> json bmap" where
  "restore_extensions ext capabilities =
     (case Option.bind (hget capabilities ''extensions'') as_object of
        None \<Rightarrow> capabilities
      | Some extensions \<Rightarrow>
          (if hremove ext extensions = [] then hremove ''extensions'' capabilities
           else binsert ''extensions'' (JObject (hremove ext extensions)) capabilities))"

definition restore_experimental :: "json bmap \<Rightarrow> json bmap" where
  "restore_experimental capabilities =
     (case Option.bind (hget capabilities ''experimental'') as_object of
        None \<Rightarrow> capabilities
      | Some experimental \<Rightarrow>
          (let rest = hremove LEGACY_TASKS_CAPABILITY_KEY experimental;
               caps1 = binsert ''experimental'' (JObject rest) capabilities;
               caps2 = (case hget experimental LEGACY_TASKS_CAPABILITY_KEY of
                          Some tasks \<Rightarrow> binsert ''tasks'' tasks caps1 | None \<Rightarrow> caps1)
           in if rest = [] then hremove ''experimental'' caps2 else caps2))"

definition restore_capabilities :: "string \<Rightarrow> json bmap \<Rightarrow> json bmap" where
  "restore_capabilities ext capabilities = restore_experimental (restore_extensions ext capabilities)"

definition restore_task :: "json bmap \<Rightarrow> json bmap" where
  "restore_task task = rename_key ''pollIntervalMs'' ''pollInterval'' (rename_key ''ttlMs'' ''ttl'' task)"

definition rewrite_legacy_result :: "string \<Rightarrow> bool \<Rightarrow> json \<Rightarrow> json" where
  "rewrite_legacy_result ext task_response =
     map_object (\<lambda>result.
       (let r1 = hremove ''cacheScope'' (hremove ''ttlMs'' (hremove ''resultType'' result));
            r2 = (if task_response then bupdate ''task'' (map_object restore_task) r1 else r1)
        in bupdate ''capabilities'' (map_object (restore_capabilities ext)) r2))"

definition rewrite_legacy_response :: "string \<Rightarrow> bool \<Rightarrow> json \<Rightarrow> json" where
  "rewrite_legacy_response ext task_response =
     map_object (bupdate ''result'' (rewrite_legacy_result ext task_response))"

definition rewrite_modern_result :: "json \<Rightarrow> json" where
  "rewrite_modern_result =
     map_object (\<lambda>result.
       (if hget result ''resultType'' = None
        then binsert ''resultType'' (JString RESULT_TYPE_COMPLETE) result else result))"

definition rewrite_modern_response :: "json \<Rightarrow> json" where
  "rewrite_modern_response = map_object (bupdate ''result'' rewrite_modern_result)"

subsection \<open>Back on the upstream wire\<close>

text \<open>
  \<open>call_tool_params\<close> takes the typed parameters: the metadata map, which it edits, and the
  other fields \<open>rest\<close>. \<open>to_value rest meta\<close> is the serialisation of the SDK's type.
\<close>

definition call_tool_params ::
  "('p \<Rightarrow> json bmap option \<Rightarrow> 'e + json bmap) \<Rightarrow> 'p \<Rightarrow> json bmap option \<Rightarrow> 'e + json" where
  "call_tool_params to_value rest meta =
     (let task = Option.bind meta (\<lambda>m. hget m LEGACY_TASK_REQUEST_KEY);
          meta1 = map_option (hremove LEGACY_TASK_REQUEST_KEY) meta;
          meta2 = (if meta1 = Some [] then None else meta1)
      in (case to_value rest meta2 of
            Inl e \<Rightarrow> Inl e
          | Inr obj \<Rightarrow> Inr (JObject (case task of Some t \<Rightarrow> binsert ''task'' t obj | None \<Rightarrow> obj))))"

subsection \<open>Which requests are modern\<close>

lemma declared_set:
  "set (declared_versions v header) = {x. header = Some x \<or> meta_version v = Some x \<or> initialize_version v = Some x}"
  by (auto simp: declared_versions_def List.map_filter_def split: if_splits)

lemma list_ex_differs: "xs \<noteq> [] \<Longrightarrow> list_ex (\<lambda>x. x \<noteq> hd xs) xs \<longleftrightarrow> (\<exists>x \<in> set xs. \<exists>y \<in> set xs. x \<noteq> y)"
  unfolding list_ex_iff using hd_in_set [of xs] by metis

definition versions_agree :: "json \<Rightarrow> string option \<Rightarrow> bool" where
  "versions_agree v header \<longleftrightarrow>
     (\<forall>x \<in> set (declared_versions v header). \<forall>y \<in> set (declared_versions v header). x = y)"

lemma agree_hd:
  "versions_agree v header \<Longrightarrow> declared_versions v header \<noteq> [] \<Longrightarrow>
   hd (declared_versions v header) = x \<longleftrightarrow> x \<in> set (declared_versions v header)"
  unfolding versions_agree_def using hd_in_set by blast

lemma era_agree:
  "versions_agree v header \<Longrightarrow>
   classify_http_request_era v header =
     (if request_method v = Some ''server/discover'' \<or>
         ANNOUNCED_FUTURE_PROTOCOL_VERSION \<in> set (declared_versions v header)
      then if header \<noteq> Some ANNOUNCED_FUTURE_PROTOCOL_VERSION
           then Inl ''modern requests require MCP-Protocol-Version: 2026-07-28''
           else if jget v ''id'' \<noteq> None \<and> meta_version v \<noteq> Some ANNOUNCED_FUTURE_PROTOCOL_VERSION
           then Inl ''modern requests require matching protocolVersion in params._meta''
           else Inr Modern
      else Inr Legacy)"
proof -
  assume ag: "versions_agree v header"
  have same: "\<not> (declared_versions v header \<noteq> [] \<and>
      list_ex (\<lambda>version. version \<noteq> hd (declared_versions v header)) (declared_versions v header))"
    using ag list_ex_differs [of "declared_versions v header"] by (auto simp: versions_agree_def)
  have first: "(declared_versions v header \<noteq> [] \<and>
      hd (declared_versions v header) = ANNOUNCED_FUTURE_PROTOCOL_VERSION) \<longleftrightarrow>
      ANNOUNCED_FUTURE_PROTOCOL_VERSION \<in> set (declared_versions v header)"
    using agree_hd [OF ag] by (cases "declared_versions v header = []") auto
  show ?thesis unfolding classify_http_request_era_def Let_def if_not_P [OF same] first by (rule refl)
qed

lemma era_disagree:
  "\<not> versions_agree v header \<Longrightarrow>
   classify_http_request_era v header = Inl ''MCP protocol version header and body metadata disagree''"
proof -
  assume "\<not> versions_agree v header"
  then have "declared_versions v header \<noteq> [] \<and>
      list_ex (\<lambda>version. version \<noteq> hd (declared_versions v header)) (declared_versions v header)"
    unfolding versions_agree_def list_ex_iff by (metis hd_in_set empty_iff list.set(1))
  then show ?thesis by (simp add: classify_http_request_era_def Let_def)
qed

text \<open>
  C29. Classification is safe and complete. A request is treated as modern exactly when its
  header announces the modern version, every version it declares anywhere (header,
  metadata, \<open>initialize\<close>) is that one, and, if it has an id, its metadata
  repeats it; it is treated as legacy exactly when the versions it declares agree, none of them is
  the modern one and it is not a discovery request. Everything else is an error.
\<close>

theorem era_classification:
  "(classify_http_request_era v header = Inr Modern \<longleftrightarrow>
      header = Some ANNOUNCED_FUTURE_PROTOCOL_VERSION \<and>
      set (declared_versions v header) = {ANNOUNCED_FUTURE_PROTOCOL_VERSION} \<and>
      (jget v ''id'' = None \<or> meta_version v = Some ANNOUNCED_FUTURE_PROTOCOL_VERSION)) \<and>
   (classify_http_request_era v header = Inr Legacy \<longleftrightarrow>
      card (set (declared_versions v header)) \<le> 1 \<and>
      ANNOUNCED_FUTURE_PROTOCOL_VERSION \<notin> set (declared_versions v header) \<and>
      request_method v \<noteq> Some ''server/discover'')"
proof (cases "versions_agree v header")
  case True
  have fut: "header = Some ANNOUNCED_FUTURE_PROTOCOL_VERSION \<Longrightarrow>
      ANNOUNCED_FUTURE_PROTOCOL_VERSION \<in> set (declared_versions v header)"
    by (simp add: declared_set)
  then have single: "header = Some ANNOUNCED_FUTURE_PROTOCOL_VERSION \<Longrightarrow>
      set (declared_versions v header) = {ANNOUNCED_FUTURE_PROTOCOL_VERSION}"
    using True unfolding versions_agree_def by blast
  have "card (set (declared_versions v header)) \<le> 1"
    using True by (auto simp: versions_agree_def card_le_Suc0_iff_eq)
  with fut single show ?thesis by (simp add: era_agree [OF True])
next
  case False
  have "\<not> card (set (declared_versions v header)) \<le> 1"
    using False card_le_Suc0_iff_eq [of "set (declared_versions v header)"]
    unfolding versions_agree_def One_nat_def by blast
  moreover have "set (declared_versions v header) \<noteq> {ANNOUNCED_FUTURE_PROTOCOL_VERSION}"
    using calculation by force
  ultimately have "\<not> card (set (declared_versions v header)) \<le> 1 \<and>
      set (declared_versions v header) \<noteq> {ANNOUNCED_FUTURE_PROTOCOL_VERSION}" by blast
  with False show ?thesis by (simp add: era_disagree)
qed

subsection \<open>Admission\<close>

lemma decide_allow_iff:
  "decide_method input f = Allow \<longleftrightarrow>
     f \<noteq> Unknown \<and> (era input = Modern \<longrightarrow> modern_direction_enabled input) \<and>
     (durable f \<longrightarrow> policy_principal input \<noteq> None) \<and>
     (f \<in> {ContinuationFamily, Extensions} \<longrightarrow> bridge_implemented input) \<and>
     (local_trust input \<or> (\<exists>s \<in> scopes input. required_scope f = Some s))"
  by (cases f) (auto simp: decide_method_def)

text \<open>
  The admission policy fails closed. For a caller that is not locally trusted and holds exactly
  the default OAuth grant, a method name is admitted exactly when it is one of the
  eleven ordinary methods or one of a family that owns durable state, with the modern direction enabled for a
  modern caller, an identified principal for the families that own durable state,
  and the bridge for continuations; extension, administration and unknown methods are refused.
\<close>

theorem default_grant_admits:
  "decide_method (input \<lparr>local_trust := False, scopes := set DEFAULT_DOWNSTREAM_OAUTH_SCOPES\<rparr>) (from_method m) = Allow \<longleftrightarrow>
     (era input = Legacy \<or> modern_direction_enabled input) \<and>
     (m \<in> {''tools/list'', ''tools/call'', ''resources/list'', ''resources/templates/list'',
            ''resources/read'', ''resources/subscribe'', ''resources/unsubscribe'', ''prompts/list'',
            ''prompts/get'', ''completion/complete'', ''logging/setLevel''} \<or>
      policy_principal input \<noteq> None \<and>
        (prefix ''tasks/'' m \<or> prefix ''plug/legacy/tasks/'' m \<or> m = ''subscriptions/listen'' \<or>
         m = ''tools/complete'' \<and> bridge_implemented input))"
proof -
  have scope: "(\<exists>s \<in> set DEFAULT_DOWNSTREAM_OAUTH_SCOPES. required_scope f = Some s) \<longleftrightarrow>
      f \<notin> {Extensions, Administration, Unknown}" for f
    by (cases f) (simp_all add: DEFAULT_DOWNSTREAM_OAUTH_SCOPES_def)
  have era: "era input = Legacy \<longleftrightarrow> era input \<noteq> Modern" by (cases "era input") simp_all
  have "decide_method (input \<lparr>local_trust := False, scopes := set DEFAULT_DOWNSTREAM_OAUTH_SCOPES\<rparr>) f = Allow \<longleftrightarrow>
     f \<notin> {Extensions, Administration, Unknown} \<and> (era input = Legacy \<or> modern_direction_enabled input) \<and>
     (durable f \<longrightarrow> policy_principal input \<noteq> None) \<and> (f = ContinuationFamily \<longrightarrow> bridge_implemented input)" for f
    by (auto simp: decide_allow_iff scope era)
  then show ?thesis
    by (auto simp: from_method_def durable_def)
qed

subsection \<open>Where the adapters panic\<close>

definition indexable :: "json \<Rightarrow> bool" where
  "indexable v \<longleftrightarrow> v = JNull \<or> as_object v \<noteq> None"

definition entry_indexable :: "string \<Rightarrow> json bmap \<Rightarrow> bool" where
  "entry_indexable e m \<longleftrightarrow> (case hget m e of None \<Rightarrow> True | Some v \<Rightarrow> indexable v)"

lemma index_assign_None: "index_assign v k x = None \<longleftrightarrow> \<not> indexable v"
  by (cases v) (simp_all add: indexable_def)

lemma entry_index_assign_None: "entry_index_assign e k x m = None \<longleftrightarrow> \<not> entry_indexable e m"
  by (simp add: entry_index_assign_def index_assign_None entry_indexable_def split: option.splits)
     (simp add: indexable_def)

lemma entry_index_assign_other:
  "entry_index_assign e k x m = Some m' \<Longrightarrow> e' \<noteq> e \<Longrightarrow> hget m' e' = hget m e'"
  by (auto simp: entry_index_assign_def bmap_get)

lemma entry_indexable_hremove: "e \<noteq> k \<Longrightarrow> entry_indexable e (hremove k m) = entry_indexable e m"
  by (simp add: entry_indexable_def bmap_get)

lemma call_params_panics:
  "rewrite_legacy_call_params v = None \<longleftrightarrow>
     (\<exists>params. as_object v = Some params \<and> hget params ''task'' \<noteq> None \<and> \<not> entry_indexable ''_meta'' params)"
  by (auto simp: rewrite_legacy_call_params_def entry_index_assign_None entry_indexable_hremove
      split: option.splits)

lemma client_capabilities_panics:
  "rewrite_client_capabilities ext caps = None \<longleftrightarrow>
     hget caps ''tasks'' \<noteq> None \<and>
     (\<not> entry_indexable ''extensions'' caps \<or> \<not> entry_indexable ''experimental'' caps)"
proof (cases "hget caps ''tasks''")
  case None
  then show ?thesis by (simp add: rewrite_client_capabilities_def)
next
  case (Some tasks)
  let ?first = "entry_index_assign ''extensions'' ext (JObject []) (hremove ''tasks'' caps)"
  show ?thesis
  proof (cases ?first)
    case None
    then have "\<not> entry_indexable ''extensions'' caps"
      unfolding entry_index_assign_None by (simp add: entry_indexable_hremove)
    with None Some show ?thesis by (simp add: rewrite_client_capabilities_def)
  next
    case (Some m)
    have "entry_indexable ''extensions'' caps"
      using Some entry_index_assign_None [of "''extensions''" ext "JObject []" "hremove ''tasks'' caps"]
      by (simp add: entry_indexable_hremove)
    moreover have "entry_indexable ''experimental'' m = entry_indexable ''experimental'' caps"
      using entry_index_assign_other [OF Some, of "''experimental''"]
      by (simp add: entry_indexable_def bmap_get)
    ultimately show ?thesis using Some \<open>hget caps ''tasks'' = Some tasks\<close>
      by (simp add: rewrite_client_capabilities_def entry_index_assign_None)
  qed
qed

text \<open>
  C31. When rewriting an incoming request panics: exactly for a tool call with a \<open>task\<close>
  parameter whose \<open>_meta\<close> is there and neither an object nor null, and for an
  initialisation with a \<open>tasks\<close> capability whose \<open>extensions\<close> or \<open>experimental\<close>
  is. No other request does, and in particular none from a client that does not use
  the task vocabulary.
\<close>

theorem legacy_request_panics:
  "rewrite_legacy_request ext v = None \<longleftrightarrow>
     (request_method v = Some ''tools/call'' \<and>
      (\<exists>params. Option.bind (jget v ''params'') as_object = Some params \<and>
         hget params ''task'' \<noteq> None \<and> \<not> entry_indexable ''_meta'' params)) \<or>
     (request_method v = Some ''initialize'' \<and>
      (\<exists>params caps. Option.bind (jget v ''params'') as_object = Some params \<and>
         Option.bind (hget params ''capabilities'') as_object = Some caps \<and>
         hget caps ''tasks'' \<noteq> None \<and>
         \<not> (entry_indexable ''extensions'' caps \<and> entry_indexable ''experimental'' caps)))"
proof (cases v)
  case (JObject obj)
  have call: "rewrite_call_envelope obj = None \<longleftrightarrow>
      (\<exists>params. Option.bind (hget obj ''params'') as_object = Some params \<and>
         hget params ''task'' \<noteq> None \<and> \<not> entry_indexable ''_meta'' params)"
    by (auto simp: rewrite_call_envelope_def call_params_panics split: option.splits)
  have init: "rewrite_initialize_envelope ext obj = None \<longleftrightarrow>
      (\<exists>params caps. Option.bind (hget obj ''params'') as_object = Some params \<and>
         Option.bind (hget params ''capabilities'') as_object = Some caps \<and>
         hget caps ''tasks'' \<noteq> None \<and>
         \<not> (entry_indexable ''extensions'' caps \<and> entry_indexable ''experimental'' caps))"
    by (simp add: rewrite_initialize_envelope_def client_capabilities_panics split: option.splits)
  show ?thesis
    by (cases "request_method v")
       (auto simp: JObject request_method_def rewrite_legacy_request_def call init simp del: not_None_eq)
qed (simp_all add: rewrite_legacy_request_def request_method_def)

subsection \<open>Round trips\<close>

text \<open>
  The parameters as the SDK's serialiser writes them: the other fields, and the metadata when
  there is any.
\<close>

definition with_meta :: "json bmap \<Rightarrow> json bmap option \<Rightarrow> json bmap" where
  "with_meta fs meta = (case meta of None \<Rightarrow> fs | Some m \<Rightarrow> binsert ''_meta'' (JObject m) fs)"

text \<open>A field that is absent, or a non-empty object without the private key.\<close>

definition plain_entry :: "string \<Rightarrow> string \<Rightarrow> json bmap \<Rightarrow> bool" where
  "plain_entry e key m \<longleftrightarrow>
     (case hget m e of
        None \<Rightarrow> True
      | Some v \<Rightarrow> (case as_object v of None \<Rightarrow> False | Some o' \<Rightarrow> o' \<noteq> [] \<and> hget o' key = None \<and> bmap_ok o'))"

lemma entry_index_assign_plain:
  assumes "plain_entry e key m"
  shows "\<exists>o'. entry_index_assign e key x m = Some (binsert e (JObject (binsert key x o')) m) \<and>
     bmap_ok o' \<and> hget o' key = None \<and> hget m e = (if o' = [] then None else Some (JObject o'))"
proof (cases "hget m e")
  case None
  then show ?thesis by (intro exI [of _ "[]"]) (simp add: entry_index_assign_def)
next
  case (Some v)
  with assms obtain o' where "v = JObject o'" "o' \<noteq> []" "hget o' key = None" "bmap_ok o'"
    by (cases v) (auto simp: plain_entry_def)
  with Some show ?thesis by (intro exI [of _ o']) (simp add: entry_index_assign_def)
qed

lemma hremove_binsert_new: "bmap_ok m \<Longrightarrow> hget m k = None \<Longrightarrow> hremove k (binsert k v m) = m"
  by (rule bmap_eqI) (auto simp: bmap_get)

lemma binsert_not_Nil [simp]: "binsert k v m \<noteq> []"
  using keys_binsert [of k v m] by fastforce

text \<open>
  The task parameter of a legacy tool call survives the whole way through: the private
  metadata key that the incoming adapter stores it under is turned back by
  \<open>call_tool_params\<close> into the parameters the client sent, given that the SDK's types keep
  the other fields and that the client's metadata is absent or a non-empty object without
  that private key.
\<close>

theorem task_call_roundtrip:
  assumes wire: "bmap_ok w" "hget w ''task'' = Some task" "plain_entry ''_meta'' LEGACY_TASK_REQUEST_KEY w"
    and rewritten: "rewrite_legacy_call_params (JObject w) = Some (JObject w')"
    and sdk: "\<And>meta. to_value rest meta = Inr (with_meta (hremove ''_meta'' w') meta)"
  shows "call_tool_params to_value rest (Option.bind (hget w' ''_meta'') as_object) = Inr (JObject w)"
proof -
  have "plain_entry ''_meta'' LEGACY_TASK_REQUEST_KEY (hremove ''task'' w)"
    using wire(3) by (simp add: plain_entry_def bmap_get)
  from entry_index_assign_plain [OF this, of task] obtain o' where
    o': "entry_index_assign ''_meta'' LEGACY_TASK_REQUEST_KEY task (hremove ''task'' w) =
        Some (binsert ''_meta'' (JObject (binsert LEGACY_TASK_REQUEST_KEY task o')) (hremove ''task'' w))"
      "bmap_ok o'" "hget o' LEGACY_TASK_REQUEST_KEY = None"
      "hget (hremove ''task'' w) ''_meta'' = (if o' = [] then None else Some (JObject o'))"
    by blast
  with rewritten wire(2) have w': "w' = binsert ''_meta'' (JObject (binsert LEGACY_TASK_REQUEST_KEY task o')) (hremove ''task'' w)"
    by (simp add: rewrite_legacy_call_params_def)
  have "call_tool_params to_value rest (Option.bind (hget w' ''_meta'') as_object) =
      Inr (JObject (binsert ''task'' task (with_meta (hremove ''_meta'' w') (if o' = [] then None else Some o'))))"
    using o'(2,3) by (simp add: call_tool_params_def w' bmap_get hremove_binsert_new sdk Let_def)
  also have "binsert ''task'' task (with_meta (hremove ''_meta'' w') (if o' = [] then None else Some o')) = w"
    using wire(1,2) o'(4)
    by (intro bmap_eqI) (auto simp: with_meta_def w' bmap_get split: if_splits)
  finally show ?thesis .
qed

theorem task_call_roundtrip_witness:
  "\<exists>w'. rewrite_legacy_call_params
        (JObject [(''name'', JString ''echo''), (''task'', JObject [(''ttl'', JNumber (PosInt 123))])]) = Some (JObject w') \<and>
     call_tool_params (\<lambda>fs meta. Inr (with_meta fs meta) :: unit + json bmap) (hremove ''_meta'' w')
        (Option.bind (hget w' ''_meta'') as_object) =
      Inr (JObject [(''name'', JString ''echo''), (''task'', JObject [(''ttl'', JNumber (PosInt 123))])])"
proof -
  let ?w = "[(''name'', JString ''echo''), (''task'', JObject [(''ttl'', JNumber (PosInt 123))])]"
  obtain w' where w': "rewrite_legacy_call_params (JObject ?w) = Some (JObject w')"
    by (simp add: rewrite_legacy_call_params_def entry_index_assign_def hremove_def)
  moreover have "call_tool_params (\<lambda>fs meta. Inr (with_meta fs meta) :: unit + json bmap) (hremove ''_meta'' w')
        (Option.bind (hget w' ''_meta'') as_object) = Inr (JObject ?w)"
    by (rule task_call_roundtrip [OF _ _ _ w']) (simp_all add: plain_entry_def)
  ultimately show ?thesis by blast
qed

text \<open>
  What the incoming adapter does to the capabilities of an \<open>initialize\<close> request, the
  outgoing adapter undoes: the \<open>tasks\<close> capability is back, and the private entries
  are gone from \<open>extensions\<close> and \<open>experimental\<close>, which are removed again when the adapter had added them.
\<close>

theorem capabilities_roundtrip:
  assumes "bmap_ok caps" "hget caps ''tasks'' \<noteq> None"
    and "plain_entry ''extensions'' ext caps" "plain_entry ''experimental'' LEGACY_TASKS_CAPABILITY_KEY caps"
  shows "map_option (restore_capabilities ext) (rewrite_client_capabilities ext caps) = Some caps"
proof -
  let ?c = "hremove ''tasks'' caps"
  from assms(2) obtain tasks where tasks: "hget caps ''tasks'' = Some tasks" by blast
  have "plain_entry ''extensions'' ext ?c"
    using assms(3) by (simp add: plain_entry_def bmap_get)
  from entry_index_assign_plain [OF this, of "JObject []"] obtain e where
    e: "entry_index_assign ''extensions'' ext (JObject []) ?c =
        Some (binsert ''extensions'' (JObject (binsert ext (JObject []) e)) ?c)"
      "bmap_ok e" "hget e ext = None" "hget ?c ''extensions'' = (if e = [] then None else Some (JObject e))"
    by blast
  let ?c1 = "binsert ''extensions'' (JObject (binsert ext (JObject []) e)) ?c"
  have "plain_entry ''experimental'' LEGACY_TASKS_CAPABILITY_KEY ?c1"
    using assms(4) by (simp add: plain_entry_def bmap_get)
  from entry_index_assign_plain [OF this, of tasks] obtain x where
    x: "entry_index_assign ''experimental'' LEGACY_TASKS_CAPABILITY_KEY tasks ?c1 =
        Some (binsert ''experimental'' (JObject (binsert LEGACY_TASKS_CAPABILITY_KEY tasks x)) ?c1)"
      "bmap_ok x" "hget x LEGACY_TASKS_CAPABILITY_KEY = None"
      "hget ?c1 ''experimental'' = (if x = [] then None else Some (JObject x))"
    by blast
  let ?c2 = "binsert ''experimental'' (JObject (binsert LEGACY_TASKS_CAPABILITY_KEY tasks x)) ?c1"
  have "rewrite_client_capabilities ext caps = Some ?c2"
    by (simp add: rewrite_client_capabilities_def tasks e(1) x(1))
  moreover have "restore_capabilities ext ?c2 = caps"
  proof (rule bmap_eqI)
    show "bmap_ok (restore_capabilities ext ?c2)"
      using assms(1)
      by (auto simp: restore_capabilities_def restore_extensions_def restore_experimental_def Let_def
          split: option.splits)
    show "bmap_ok caps" by (rule assms(1))
    show "hget (restore_capabilities ext ?c2) k = hget caps k" for k
      using e(2-4) x(2-4) tasks
      by (simp add: restore_capabilities_def restore_extensions_def restore_experimental_def Let_def
          bmap_get hremove_binsert_new split: if_splits)
  qed
  ultimately show ?thesis by simp
qed

theorem capabilities_roundtrip_witness:
  "map_option (restore_capabilities ''ext'')
     (rewrite_client_capabilities ''ext'' [(''experimental'', JObject [(''a'', JNull)]), (''tasks'', JObject [])]) =
   Some [(''experimental'', JObject [(''a'', JNull)]), (''tasks'', JObject [])]"
  by (rule capabilities_roundtrip) (simp_all add: plain_entry_def LEGACY_TASKS_CAPABILITY_KEY_def)

subsection \<open>What legacy clients see\<close>

definition jpath :: "json \<Rightarrow> string list \<Rightarrow> json option" where
  "jpath v ks = foldl (\<lambda>acc k. Option.bind acc (\<lambda>x. jget x k)) (Some v) ks"

lemma jpath_Nil [simp]: "jpath v [] = Some v"
  by (simp add: jpath_def)

lemma jpath_Cons [simp]: "jpath v (k # ks) = Option.bind (jget v k) (\<lambda>x. jpath x ks)"
proof -
  have "foldl (\<lambda>acc k. Option.bind acc (\<lambda>x. jget x k)) None ks = None"
    by (induction ks) simp_all
  then show ?thesis by (cases "jget v k") (simp_all add: jpath_def)
qed

lemma jget_map_object: "jget (map_object f v) k = Option.bind (as_object v) (\<lambda>m. hget (f m) k)"
  by (cases v) simp_all

lemma jget_as_object: "jget v k = Option.bind (as_object v) (\<lambda>m. hget m k)"
  by (cases v) simp_all

lemma as_object_map_object: "as_object (map_object f v) = map_option f (as_object v)"
  by (cases v) simp_all

lemma restored_extensions:
  "Option.bind (hget (restore_extensions ext c) ''extensions'') (\<lambda>v. jget v ext) = None"
  by (auto simp: restore_extensions_def bmap_get jget_as_object bind_eq_None_conv split: option.splits)

lemma restored_experimental:
  "Option.bind (hget (restore_experimental c) ''experimental'') (\<lambda>v. jget v LEGACY_TASKS_CAPABILITY_KEY) = None"
  by (auto simp: restore_experimental_def Let_def bmap_get jget_as_object bind_eq_None_conv split: option.splits)

lemma restore_experimental_extensions: "hget (restore_experimental c) ''extensions'' = hget c ''extensions''"
  by (simp add: restore_experimental_def Let_def bmap_get split: option.splits)

lemma restored_capabilities:
  "Option.bind (hget (restore_capabilities ext c) ''extensions'') (\<lambda>v. jget v ext) = None"
  "Option.bind (hget (restore_capabilities ext c) ''experimental'') (\<lambda>v. jget v LEGACY_TASKS_CAPABILITY_KEY) = None"
  by (simp_all add: restore_capabilities_def restore_experimental_extensions restored_extensions restored_experimental)

lemma restored_task: "hget (restore_task t) ''ttlMs'' = None \<and> hget (restore_task t) ''pollIntervalMs'' = None"
  by (simp add: restore_task_def rename_key_def bmap_get split: option.splits)

lemma hremove_binsert: "hremove k (binsert k v m) = hremove k m"
  unfolding hremove_def by (induction k v m rule: binsert.induct) auto

definition modern_only_keys :: "string list" where
  "modern_only_keys = [''resultType'', ''ttlMs'', ''cacheScope'']"

lemma hget_rewrite_legacy_result:
  "jget (rewrite_legacy_result ext task_response v) k =
     (if k \<in> set modern_only_keys then None
      else if k = ''capabilities'' then map_option (map_object (restore_capabilities ext)) (jget v k)
      else if k = ''task'' \<and> task_response then map_option (map_object restore_task) (jget v k)
      else jget v k)"
  by (cases v)
     (auto simp: rewrite_legacy_result_def modern_only_keys_def Let_def hget_bupdate bmap_get)

text \<open>
  A legacy client never sees the modern vocabulary. The outgoing adapter drops the three
  modern-only keys of a result, gives a task its old field names, leaves neither the task
  extension nor the private task capability among the capabilities, and leaves every
  other field alone. It also undoes the discriminator that
  the modern adapter adds, so a result that has passed both is the one a legacy client gets.
\<close>

theorem legacy_result_vocabulary:
  "jget (rewrite_legacy_result ext task_response v) k =
     (if k \<in> set modern_only_keys then None
      else if k = ''capabilities'' then map_option (map_object (restore_capabilities ext)) (jget v k)
      else if k = ''task'' \<and> task_response then map_option (map_object restore_task) (jget v k)
      else jget v k) \<and>
   jpath (rewrite_legacy_result ext task_response v) [''capabilities'', ''extensions'', ext] = None \<and>
   jpath (rewrite_legacy_result ext task_response v)
     [''capabilities'', ''experimental'', LEGACY_TASKS_CAPABILITY_KEY] = None \<and>
   jpath (rewrite_legacy_result ext True v) [''task'', ''ttlMs''] = None \<and>
   jpath (rewrite_legacy_result ext True v) [''task'', ''pollIntervalMs''] = None \<and>
   rewrite_legacy_result ext task_response (rewrite_modern_result v) = rewrite_legacy_result ext task_response v"
proof -
  have both: "rewrite_legacy_result ext task_response (rewrite_modern_result v) =
      rewrite_legacy_result ext task_response v"
    by (cases v) (simp_all add: rewrite_legacy_result_def rewrite_modern_result_def hremove_binsert Let_def)
  have caps: "jget (rewrite_legacy_result ext task_response v) ''capabilities'' =
      map_option (map_object (restore_capabilities ext)) (jget v ''capabilities'')"
    by (subst hget_rewrite_legacy_result) (simp add: modern_only_keys_def)
  have task: "jget (rewrite_legacy_result ext True v) ''task'' = map_option (map_object restore_task) (jget v ''task'')"
    by (subst hget_rewrite_legacy_result) (simp add: modern_only_keys_def)
  have clean: "Option.bind (jget (map_object (restore_capabilities ext) x) ''extensions'') (\<lambda>y. jget y ext) = None"
    "Option.bind (jget (map_object (restore_capabilities ext) x) ''experimental'')
       (\<lambda>y. jget y LEGACY_TASKS_CAPABILITY_KEY) = None"
    "jget (map_object restore_task x) ''ttlMs'' = None" "jget (map_object restore_task x) ''pollIntervalMs'' = None" for x
    by (cases x; simp add: restored_capabilities restored_task)+
  show ?thesis
    by (intro conjI hget_rewrite_legacy_result both)
       (cases "jget v ''capabilities''"; cases "jget v ''task''"; simp add: caps task clean)+
qed

text \<open>
  The nine outcomes stay distinguishable on the wire: within an era two outcomes with the
  same error code are the same outcome, and only input-required changes its code between eras.
\<close>

theorem outcome_codes_distinct:
  "(code (encode a e) = code (encode b e) \<longleftrightarrow> a = b) \<and>
   (code (encode a Legacy) \<noteq> code (encode a Modern) \<longleftrightarrow> a = OutcomeInputRequired) \<and>
   (error_code (into_error a e) = error_code (into_error b e') \<longleftrightarrow>
      a = b \<and> (e = e' \<or> a \<noteq> OutcomeInputRequired))"
  by (cases a; cases b; cases e; cases e') (simp_all add: encode_def into_error_def Let_def)

end
