(* ===== verification/Tasks.thy ===== *)
theory Tasks
  imports Protocol
begin

section \<open>The task store\<close>

text \<open>
  Models \<open>plug-core/src/tasks.rs\<close> and the \<open>Task\<close> types of \<open>legacy_tasks.rs\<close>: the records of
  long-running tool calls, who owns them, and the ledger that closes the race between
  creating a task and tearing its owner down. The store is behind one async mutex, so an
  operation is one step; it reads the clock once (\<open>now\<close>, with the wall-clock text
  \<open>stamp\<close>). A \<open>JoinHandle\<close> is a number; the store's two effects on the outside, aborting a
  handle and dropping a quota lease, are logged in the ghost fields \<open>aborted\<close> and
  \<open>dropped\<close>, which no operation reads. The iteration order of the map is its list order.
\<close>

definition DEFAULT_TASK_TTL_MS :: u64 where "DEFAULT_TASK_TTL_MS = 60 * 60 * 1000"
definition DEFAULT_TASK_POLL_INTERVAL_MS :: u64 where "DEFAULT_TASK_POLL_INTERVAL_MS = 1000"
definition DEFAULT_MAX_COMPLETED_TASKS_PER_OWNER :: nat where "DEFAULT_MAX_COMPLETED_TASKS_PER_OWNER = 100"
definition DEFAULT_STALE_IN_FLIGHT_TTL_MS :: u64 where "DEFAULT_STALE_IN_FLIGHT_TTL_MS = 24 * 60 * 60 * 1000"

subsection \<open>Data\<close>

datatype task_status = Working | InputRequired | Completed | Failed | Cancelled

record task =
  task_id :: string
  status :: task_status
  status_message :: "string option"
  created_at :: string
  last_updated_at :: string
  ttl :: "u64 option"
  poll_interval :: "u64 option"

definition task_new :: "string \<Rightarrow> task_status \<Rightarrow> string \<Rightarrow> string \<Rightarrow> task" where
  "task_new tid st created updated =
     \<lparr>task_id = tid, status = st, status_message = None, created_at = created,
      last_updated_at = updated, ttl = None, poll_interval = None\<rparr>"

type_synonym task_owner = string
type_synonym join_handle = nat

text \<open>A request id is the SDK's type: a number or a string.\<close>

datatype request_id = NumberId u64 | StringId string

datatype task_upstream_ref = UpstreamRequest string request_id | UpstreamTask string string

record task_source =
  listed :: string
  behind :: "(string \<times> string) option"

record task_record =
  rec_task :: task
  rec_owner :: task_owner
  rec_source :: task_source
  rec_result :: "json option"
  abort_handle :: "join_handle option"
  upstream :: "task_upstream_ref option"
  last_touched :: instant
  pending_cancel_reason :: "string option"
  rec_lease :: "quota_lease option"

record expired_task_cleanup =
  cleanup_upstream :: "task_upstream_ref option"
  cleanup_lease :: "quota_lease option"

datatype upstream_record_outcome = Missing | Recorded "string option"

record owner_lifecycle_state =
  in_flight_creates :: u64
  torn_down :: bool

record task_store =
  tasks :: "(string, task_record) hmap"
  next_task_id :: u64
  lifecycle :: "(task_owner, owner_lifecycle_state) hmap"
  expired_cleanup :: "expired_task_cleanup list"
  aborted :: "join_handle list"
  dropped :: "quota_lease list"

definition task_store_new :: task_store where
  "task_store_new =
     \<lparr>tasks = [], next_task_id = 1, lifecycle = [], expired_cleanup = [], aborted = [], dropped = []\<rparr>"

subsection \<open>Errors\<close>

definition owner_closed_during_create_error :: mcp_error where
  "owner_closed_during_create_error = McpError INVALID_REQUEST ''session closed during task creation'' None"

definition task_not_found :: "string \<Rightarrow> mcp_error" where
  "task_not_found tid = McpError INVALID_REQUEST (''task not found: '' @ tid) None"

definition not_owner_error :: mcp_error where
  "not_owner_error = McpError INVALID_REQUEST ''task does not belong to this client/session'' None"

definition ensure_owner :: "task_owner \<Rightarrow> task_record \<Rightarrow> mcp_error + unit" where
  "ensure_owner owner r = (if rec_owner r = owner then Inr () else Inl not_owner_error)"

fun is_terminal :: "task_status \<Rightarrow> bool" where
  "is_terminal Completed = True"
| "is_terminal Failed = True"
| "is_terminal Cancelled = True"
| "is_terminal Working = False"
| "is_terminal InputRequired = False"

subsection \<open>The lifecycle ledger\<close>

definition ledger_default :: owner_lifecycle_state where
  "ledger_default = \<lparr>in_flight_creates = 0, torn_down = False\<rparr>"

definition begin_create ::
  "task_owner \<Rightarrow> (task_owner, owner_lifecycle_state) hmap \<Rightarrow> (task_owner, owner_lifecycle_state) hmap" where
  "begin_create owner states =
     (let st = (case hget states owner of Some st \<Rightarrow> st | None \<Rightarrow> ledger_default)
      in hinsert owner (st \<lparr>in_flight_creates := in_flight_creates st + 1\<rparr>) states)"

definition end_create ::
  "task_owner \<Rightarrow> (task_owner, owner_lifecycle_state) hmap \<Rightarrow> (task_owner, owner_lifecycle_state) hmap" where
  "end_create owner states =
     (case hget states owner of
        None \<Rightarrow> states
      | Some st \<Rightarrow>
          (let n = saturating_sub (in_flight_creates st) 1
           in if n = 0 then hremove owner states
              else hinsert owner (st \<lparr>in_flight_creates := n\<rparr>) states))"

definition tombstone_if_in_flight ::
  "task_owner \<Rightarrow> (task_owner, owner_lifecycle_state) hmap \<Rightarrow> (task_owner, owner_lifecycle_state) hmap" where
  "tombstone_if_in_flight owner states =
     (case hget states owner of
        None \<Rightarrow> states
      | Some st \<Rightarrow>
          (if 0 < in_flight_creates st then hinsert owner (st \<lparr>torn_down := True\<rparr>) states else states))"

definition is_tombstoned :: "task_owner \<Rightarrow> (task_owner, owner_lifecycle_state) hmap \<Rightarrow> bool" where
  "is_tombstoned owner states = (case hget states owner of None \<Rightarrow> False | Some st \<Rightarrow> torn_down st)"

definition begin_owner_create :: "task_owner \<Rightarrow> task_store \<Rightarrow> task_store" where
  "begin_owner_create owner s = s \<lparr>lifecycle := begin_create owner (lifecycle s)\<rparr>"

text \<open>Dropping the guard that \<open>begin_owner_create\<close> returned.\<close>

definition guard_drop :: "task_owner \<Rightarrow> task_store \<Rightarrow> task_store" where
  "guard_drop owner s = s \<lparr>lifecycle := end_create owner (lifecycle s)\<rparr>"

subsection \<open>Expiry and retention\<close>

definition lease_list :: "quota_lease option \<Rightarrow> quota_lease list" where
  "lease_list l = (case l of None \<Rightarrow> [] | Some x \<Rightarrow> [x])"

definition record_expired :: "instant \<Rightarrow> task_record \<Rightarrow> bool" where
  "record_expired now r =
     (if is_terminal (status (rec_task r))
      then millis (unat (case ttl (rec_task r) of Some t \<Rightarrow> t | None \<Rightarrow> DEFAULT_TASK_TTL_MS))
             \<le> elapsed now (last_touched r)
      else millis (unat DEFAULT_STALE_IN_FLIGHT_TTL_MS) \<le> elapsed now (last_touched r))"

definition expire_one :: "string \<Rightarrow> task_store \<Rightarrow> task_store" where
  "expire_one tid s =
     (case hget (tasks s) tid of
        None \<Rightarrow> s
      | Some r \<Rightarrow>
          (let s' = s \<lparr>tasks := hremove tid (tasks s)\<rparr>
           in if is_terminal (status (rec_task r))
              then s' \<lparr>dropped := dropped s @ lease_list (rec_lease r)\<rparr>
              else s' \<lparr>aborted := aborted s @ (case abort_handle r of None \<Rightarrow> [] | Some h \<Rightarrow> [h]),
                       expired_cleanup := expired_cleanup s @
                         [\<lparr>cleanup_upstream = upstream r, cleanup_lease = rec_lease r\<rparr>]\<rparr>))"

definition prune_expired :: "instant \<Rightarrow> task_store \<Rightarrow> task_store" where
  "prune_expired now s =
     (let expired = map fst (filter (\<lambda>(tid, r). record_expired now r) (tasks s))
      in fold expire_one expired s)"

text \<open>A record that leaves the map and goes out of scope drops its lease.\<close>

definition remove_record :: "string \<Rightarrow> task_store \<Rightarrow> task_store" where
  "remove_record tid s =
     (case hget (tasks s) tid of
        None \<Rightarrow> s
      | Some r \<Rightarrow> s \<lparr>tasks := hremove tid (tasks s), dropped := dropped s @ lease_list (rec_lease r)\<rparr>)"

fun collect_completed ::
  "string \<times> task_record \<Rightarrow> (task_owner, (string \<times> instant) list) hmap \<Rightarrow> (task_owner, (string \<times> instant) list) hmap" where
  "collect_completed (tid, r) acc =
     (if is_terminal (status (rec_task r))
      then hinsert (rec_owner r)
             ((case hget acc (rec_owner r) of Some xs \<Rightarrow> xs | None \<Rightarrow> []) @ [(tid, last_touched r)]) acc
      else acc)"

definition completed_by_owner :: "(string, task_record) hmap \<Rightarrow> (task_owner, (string \<times> instant) list) hmap" where
  "completed_by_owner m = fold collect_completed m []"

definition retention_drops :: "(string \<times> instant) list \<Rightarrow> string list" where
  "retention_drops completed =
     (if length completed \<le> DEFAULT_MAX_COMPLETED_TASKS_PER_OWNER then []
      else map fst (take (length completed - DEFAULT_MAX_COMPLETED_TASKS_PER_OWNER) (sort_key snd completed)))"

definition enforce_owner_completed_retention :: "task_store \<Rightarrow> task_store" where
  "enforce_owner_completed_retention s =
     fold (\<lambda>(owner, completed). fold remove_record (retention_drops completed))
       (completed_by_owner (tasks s)) s"

subsection \<open>Creating tasks\<close>

definition insert_record :: "string \<Rightarrow> task_record \<Rightarrow> task_store \<Rightarrow> task_store" where
  "insert_record tid r s =
     (remove_record tid s) \<lparr>tasks := hinsert tid r (tasks s)\<rparr>"

definition fresh_id :: "task_store \<Rightarrow> string" where
  "fresh_id s = ''task_'' @ show_u64 (next_task_id s)"

definition running_message :: "string \<Rightarrow> string" where
  "running_message name = ''Running '' @ name"

definition new_record ::
  "instant \<Rightarrow> task_owner \<Rightarrow> string \<Rightarrow> task \<Rightarrow> task_upstream_ref option \<Rightarrow> quota_lease option \<Rightarrow> task_record" where
  "new_record now owner name t up lease =
     \<lparr>rec_task = t, rec_owner = owner, rec_source = \<lparr>listed = name, behind = None\<rparr>,
      rec_result = None, abort_handle = None, upstream = up, last_touched = now,
      pending_cancel_reason = None, rec_lease = lease\<rparr>"

definition create_inner ::
  "instant \<Rightarrow> string \<Rightarrow> task_owner \<Rightarrow> string \<Rightarrow> quota_lease option \<Rightarrow> task_store \<Rightarrow> (mcp_error + task) \<times> task_store" where
  "create_inner now stamp owner name lease s =
     (if is_tombstoned owner (lifecycle s)
      then (Inl owner_closed_during_create_error, s \<lparr>dropped := dropped s @ lease_list lease\<rparr>)
      else
        (let s1 = prune_expired now s;
             tid = fresh_id s1;
             s2 = s1 \<lparr>next_task_id := next_task_id s1 + 1\<rparr>;
             t = (task_new tid Working stamp stamp)
                   \<lparr>status_message := Some (running_message name), ttl := Some DEFAULT_TASK_TTL_MS,
                    poll_interval := Some DEFAULT_TASK_POLL_INTERVAL_MS\<rparr>;
             s3 = insert_record tid (new_record now owner name t None lease) s2
         in (Inr t, enforce_owner_completed_retention s3)))"

definition create_passthrough_inner ::
  "instant \<Rightarrow> task_owner \<Rightarrow> string \<Rightarrow> task \<Rightarrow> task_upstream_ref \<Rightarrow> quota_lease option \<Rightarrow> task_store \<Rightarrow>
   (mcp_error + task) \<times> task_store" where
  "create_passthrough_inner now owner name upstream_task up lease s =
     (if is_tombstoned owner (lifecycle s)
      then (Inl owner_closed_during_create_error, s \<lparr>dropped := dropped s @ lease_list lease\<rparr>)
      else
        (let s1 = prune_expired now s;
             tid = fresh_id s1;
             s2 = s1 \<lparr>next_task_id := next_task_id s1 + 1\<rparr>;
             t = upstream_task
                   \<lparr>task_id := tid,
                    status_message := (case status_message upstream_task of
                                         None \<Rightarrow> Some (running_message name) | Some m \<Rightarrow> Some m)\<rparr>;
             s3 = insert_record tid (new_record now owner name t (Some up) lease) s2
         in (Inr t, enforce_owner_completed_retention s3)))"

subsection \<open>Recording what dispatch learns\<close>

definition put_record :: "string \<Rightarrow> task_record \<Rightarrow> task_store \<Rightarrow> task_store" where
  "put_record tid r s = s \<lparr>tasks := hinsert tid r (tasks s)\<rparr>"

definition attach_abort_handle :: "string \<Rightarrow> join_handle \<Rightarrow> task_store \<Rightarrow> task_store" where
  "attach_abort_handle tid h s =
     (case hget (tasks s) tid of
        None \<Rightarrow> s
      | Some r \<Rightarrow> put_record tid (r \<lparr>abort_handle := Some h\<rparr>) s)"

definition set_upstream_request ::
  "instant \<Rightarrow> string \<Rightarrow> task_upstream_ref \<Rightarrow> task_store \<Rightarrow> upstream_record_outcome \<times> task_store" where
  "set_upstream_request now tid up s =
     (case hget (tasks s) tid of
        None \<Rightarrow> (Missing, s)
      | Some r \<Rightarrow>
          (Recorded (pending_cancel_reason r),
           put_record tid (r \<lparr>upstream := Some up, last_touched := now, pending_cancel_reason := None\<rparr>) s))"

definition record_source :: "string \<Rightarrow> string \<Rightarrow> string \<Rightarrow> task_store \<Rightarrow> task_store" where
  "record_source tid server own_tool s =
     (case hget (tasks s) tid of
        None \<Rightarrow> s
      | Some r \<Rightarrow> put_record tid (r \<lparr>rec_source := (rec_source r) \<lparr>behind := Some (server, own_tool)\<rparr>\<rparr>) s)"

definition source_of :: "string \<Rightarrow> task_store \<Rightarrow> task_source option" where
  "source_of tid s = map_option rec_source (hget (tasks s) tid)"

subsection \<open>Finishing tasks\<close>

definition complete :: "instant \<Rightarrow> string \<Rightarrow> string \<Rightarrow> json \<Rightarrow> task_store \<Rightarrow> task_store" where
  "complete now stamp tid result s =
     (case hget (tasks s) tid of
        None \<Rightarrow> enforce_owner_completed_retention s
      | Some r \<Rightarrow>
          (if is_terminal (status (rec_task r)) then put_record tid (r \<lparr>last_touched := now\<rparr>) s
           else enforce_owner_completed_retention
                  (put_record tid
                    (r \<lparr>rec_task := (rec_task r) \<lparr>status := Completed, status_message := Some ''Completed'',
                                                 last_updated_at := stamp\<rparr>,
                        rec_result := Some result, abort_handle := None, upstream := None,
                        last_touched := now\<rparr>) s)))"

definition task_fail :: "instant \<Rightarrow> string \<Rightarrow> string \<Rightarrow> string \<Rightarrow> task_store \<Rightarrow> task_store" where
  "task_fail now stamp tid message s =
     (case hget (tasks s) tid of
        None \<Rightarrow> enforce_owner_completed_retention s
      | Some r \<Rightarrow>
          (if is_terminal (status (rec_task r)) then put_record tid (r \<lparr>last_touched := now\<rparr>) s
           else enforce_owner_completed_retention
                  (put_record tid
                    (r \<lparr>rec_task := (rec_task r) \<lparr>status := Failed, status_message := Some message,
                                                 last_updated_at := stamp\<rparr>,
                        abort_handle := None, upstream := None, last_touched := now\<rparr>) s)))"

text \<open>
  The prologue that the owner's operations share: prune, find the record, check the owner.
\<close>

definition owned_record :: "task_owner \<Rightarrow> string \<Rightarrow> task_store \<Rightarrow> mcp_error + task_record" where
  "owned_record owner tid s =
     (case hget (tasks s) tid of
        None \<Rightarrow> Inl (task_not_found tid)
      | Some r \<Rightarrow> (case ensure_owner owner r of Inl e \<Rightarrow> Inl e | Inr _ \<Rightarrow> Inr r))"

definition mark_cancelled ::
  "instant \<Rightarrow> string \<Rightarrow> task_owner \<Rightarrow> string \<Rightarrow> task_store \<Rightarrow>
   (mcp_error + (task \<times> task_upstream_ref option \<times> join_handle option)) \<times> task_store" where
  "mark_cancelled now stamp owner tid s0 =
     (let s = prune_expired now s0
      in case owned_record owner tid s of
           Inl e \<Rightarrow> (Inl e, s)
         | Inr r \<Rightarrow>
             (if is_terminal (status (rec_task r))
              then (Inr (rec_task r, None, None), put_record tid (r \<lparr>last_touched := now\<rparr>) s)
              else
                (let t = (rec_task r) \<lparr>status := Cancelled, status_message := Some ''Cancelled'',
                                       last_updated_at := stamp\<rparr>;
                     r' = r \<lparr>rec_task := t, rec_result := None, last_touched := now, upstream := None,
                             pending_cancel_reason :=
                               (if upstream r = None then Some ''task cancelled'' else pending_cancel_reason r),
                             abort_handle := None\<rparr>
                 in (Inr (t, upstream r, abort_handle r),
                     enforce_owner_completed_retention (put_record tid r' s)))))"

definition cache_result_for_owner ::
  "instant \<Rightarrow> string \<Rightarrow> task_owner \<Rightarrow> string \<Rightarrow> json \<Rightarrow> task_store \<Rightarrow> (mcp_error + unit) \<times> task_store" where
  "cache_result_for_owner now stamp owner tid result s0 =
     (let s = prune_expired now s0
      in case owned_record owner tid s of
           Inl e \<Rightarrow> (Inl e, s)
         | Inr r \<Rightarrow>
             (Inr (),
              enforce_owner_completed_retention
                (put_record tid
                  (r \<lparr>rec_task := (rec_task r) \<lparr>status := Completed, status_message := Some ''Completed'',
                                               last_updated_at := stamp\<rparr>,
                      rec_result := Some result, abort_handle := None, upstream := None,
                      last_touched := now\<rparr>) s)))"

definition cleanup_owner ::
  "task_owner \<Rightarrow> task_store \<Rightarrow> (task_upstream_ref option \<times> join_handle option) list \<times> task_store" where
  "cleanup_owner owner s0 =
     (let s = s0 \<lparr>lifecycle := tombstone_if_in_flight owner (lifecycle s0)\<rparr>;
          owned = filter (\<lambda>(tid, r). rec_owner r = owner) (tasks s)
      in (map (\<lambda>(tid, r). (upstream r, abort_handle r)) owned,
          fold remove_record (map fst owned) s))"

subsection \<open>What an owner can ask\<close>

record list_tasks_result =
  page_tasks :: "task list"
  next_cursor :: "string option"

definition PAGE_SIZE :: nat where "PAGE_SIZE = 500"

definition paginate_tasks :: "task list \<Rightarrow> string option \<Rightarrow> list_tasks_result" where
  "paginate_tasks ts cursor =
     (let start = (case Option.bind cursor parse_usize of
                     None \<Rightarrow> 0 | Some i \<Rightarrow> if i < length ts then i else 0);
          stop = min (start + PAGE_SIZE) (length ts)
      in \<lparr>page_tasks = take (stop - start) (drop start ts),
          next_cursor = (if stop < length ts then Some (show_nat stop) else None)\<rparr>)"

definition list_for_owner ::
  "instant \<Rightarrow> task_owner \<Rightarrow> string option \<Rightarrow> task_store \<Rightarrow> list_tasks_result \<times> task_store" where
  "list_for_owner now owner cursor s0 =
     (let s = prune_expired now s0;
          ts = map (rec_task \<circ> snd) (filter (\<lambda>(tid, r). rec_owner r = owner) (tasks s))
      in (paginate_tasks (sort_key created_at ts) cursor, s))"

definition get_info_for_owner ::
  "instant \<Rightarrow> task_owner \<Rightarrow> string \<Rightarrow> task_store \<Rightarrow> (mcp_error + task) \<times> task_store" where
  "get_info_for_owner now owner tid s0 =
     (let s = prune_expired now s0
      in (map_sum id rec_task (owned_record owner tid s), s))"

text \<open>The status-specific payload of the modern task shape.\<close>

datatype task_payload =
    PayloadWorking | PayloadCompleted "json bmap" | PayloadFailed "json bmap" | PayloadCancelled

definition modern_payload :: "(error_code \<Rightarrow> json) \<Rightarrow> task_record \<Rightarrow> mcp_error + task_payload" where
  "modern_payload code_json r =
     (case status (rec_task r) of
        Working \<Rightarrow> Inr PayloadWorking
      | InputRequired \<Rightarrow>
          Inl (McpError INVALID_REQUEST ''task input requests are not bridged to modern clients yet'' None)
      | Completed \<Rightarrow>
          (case Option.bind (rec_result r) as_object of
             Some result \<Rightarrow> Inr (PayloadCompleted result)
           | None \<Rightarrow> Inl (McpError INTERNAL_ERROR ''task result missing or malformed'' None))
      | Failed \<Rightarrow>
          Inr (PayloadFailed
            [(''code'', code_json INTERNAL_ERROR),
             (''message'', JString (case status_message (rec_task r) of Some m \<Rightarrow> m | None \<Rightarrow> ''task failed''))])
      | Cancelled \<Rightarrow> Inr PayloadCancelled)"

definition get_modern_for_owner ::
  "(error_code \<Rightarrow> json) \<Rightarrow> instant \<Rightarrow> task_owner \<Rightarrow> string \<Rightarrow> task_store \<Rightarrow>
   (mcp_error + (task \<times> task_payload)) \<times> task_store" where
  "get_modern_for_owner code_json now owner tid s0 =
     (let s = prune_expired now s0
      in (case owned_record owner tid s of
            Inl e \<Rightarrow> Inl e
          | Inr r \<Rightarrow> (case modern_payload code_json r of Inl e \<Rightarrow> Inl e | Inr p \<Rightarrow> Inr (rec_task r, p)), s))"

definition validate_owner ::
  "instant \<Rightarrow> task_owner \<Rightarrow> string \<Rightarrow> task_store \<Rightarrow> (mcp_error + unit) \<times> task_store" where
  "validate_owner now owner tid s0 =
     (let s = prune_expired now s0
      in (map_sum id (\<lambda>_. ()) (owned_record owner tid s), s))"

definition sync_from_upstream_for_owner ::
  "instant \<Rightarrow> task_owner \<Rightarrow> string \<Rightarrow> task \<Rightarrow> task_store \<Rightarrow> (mcp_error + task) \<times> task_store" where
  "sync_from_upstream_for_owner now owner tid ut s0 =
     (let s = prune_expired now s0
      in case owned_record owner tid s of
           Inl e \<Rightarrow> (Inl e, s)
         | Inr r \<Rightarrow>
             (if is_terminal (status (rec_task r)) \<and> status (rec_task r) \<noteq> status ut
              then (Inr (rec_task r), put_record tid (r \<lparr>last_touched := now\<rparr>) s)
              else
                (let t = (rec_task r)
                       \<lparr>status := status ut, status_message := status_message ut, created_at := created_at ut,
                        last_updated_at := last_updated_at ut, ttl := ttl ut, poll_interval := poll_interval ut\<rparr>
                 in (Inr t, put_record tid (r \<lparr>rec_task := t, last_touched := now\<rparr>) s))))"

definition upstream_for_owner ::
  "instant \<Rightarrow> task_owner \<Rightarrow> string \<Rightarrow> task_store \<Rightarrow> (mcp_error + task_upstream_ref option) \<times> task_store" where
  "upstream_for_owner now owner tid s0 =
     (let s = prune_expired now s0
      in (map_sum id upstream (owned_record owner tid s), s))"

definition task_payload_result :: "string \<Rightarrow> task_record \<Rightarrow> mcp_error + json" where
  "task_payload_result tid r =
     (case status (rec_task r) of
        Completed \<Rightarrow>
          (case rec_result r of
             Some v \<Rightarrow> Inr v
           | None \<Rightarrow> Inl (McpError INTERNAL_ERROR ''task result missing'' None))
      | _ \<Rightarrow> Inl (McpError INVALID_REQUEST (''task '' @ tid @ '' is not in a completed state'') None))"

definition get_result_for_owner ::
  "instant \<Rightarrow> task_owner \<Rightarrow> string \<Rightarrow> task_store \<Rightarrow> (mcp_error + json) \<times> task_store" where
  "get_result_for_owner now owner tid s0 =
     (let s = prune_expired now s0
      in (case owned_record owner tid s of Inl e \<Rightarrow> Inl e | Inr r \<Rightarrow> task_payload_result tid r, s))"

definition cancel_result_for_owner ::
  "instant \<Rightarrow> task_owner \<Rightarrow> string \<Rightarrow> task_store \<Rightarrow> (mcp_error + task) \<times> task_store" where
  "cancel_result_for_owner now owner tid s0 =
     (let s = prune_expired now s0
      in (map_sum id rec_task (owned_record owner tid s), s))"

definition take_expired_cleanup :: "task_store \<Rightarrow> expired_task_cleanup list \<times> task_store" where
  "take_expired_cleanup s = (expired_cleanup s, s \<lparr>expired_cleanup := []\<rparr>)"

subsection \<open>What expiry removes\<close>

lemma hremove_all: "fold hremove ks m = filter (\<lambda>e. fst e \<notin> set ks) m"
  by (induction ks arbitrary: m) (auto simp: hremove_def intro: filter_cong)

lemma tasks_expire_one [simp]: "tasks (expire_one tid s) = hremove tid (tasks s)"
  by (simp add: expire_one_def Let_def hremove_absent split: option.splits)

lemma tasks_fold_expire: "tasks (fold expire_one ids s) = fold hremove ids (tasks s)"
  by (induction ids arbitrary: s) simp_all

lemma expire_one_frame [simp]:
  "lifecycle (expire_one tid s) = lifecycle s" "next_task_id (expire_one tid s) = next_task_id s"
  by (simp_all add: expire_one_def Let_def split: option.splits)

lemma fold_expire_frame [simp]:
  "lifecycle (fold expire_one ids s) = lifecycle s" "next_task_id (fold expire_one ids s) = next_task_id s"
  by (induction ids arbitrary: s) simp_all

lemma prune_frame [simp]:
  "lifecycle (prune_expired now s) = lifecycle s" "next_task_id (prune_expired now s) = next_task_id s"
  by (simp_all add: prune_expired_def)

lemma filter_keys_of:
  assumes "hmap_ok m"
  shows "filter (\<lambda>e. fst e \<notin> fst ` {x \<in> set m. P x}) m = filter (\<lambda>e. \<not> P e) m"
proof (intro filter_cong refl)
  fix e assume "e \<in> set m"
  with assms show "fst e \<notin> fst ` {x \<in> set m. P x} \<longleftrightarrow> \<not> P e"
    by (auto simp: hmap_ok_def distinct_map inj_on_def)
qed

lemma tasks_prune:
  "hmap_ok (tasks s) \<Longrightarrow>
   tasks (prune_expired now s) = filter (\<lambda>e. \<not> record_expired now (snd e)) (tasks s)"
  by (simp add: prune_expired_def tasks_fold_expire hremove_all split_beta filter_keys_of)

lemma hget_prune:
  "hmap_ok (tasks s) \<Longrightarrow>
   hget (tasks (prune_expired now s)) tid =
     (case hget (tasks s) tid of None \<Rightarrow> None | Some r \<Rightarrow> if record_expired now r then None else Some r)"
  using map_of_filter_distinct [of "tasks s" "\<lambda>_ r. \<not> record_expired now r" tid]
  by (auto simp: tasks_prune hmap_ok_def split: option.splits)

lemma hmap_ok_prune [simp]: "hmap_ok (tasks s) \<Longrightarrow> hmap_ok (tasks (prune_expired now s))"
  by (simp add: tasks_prune hmap_ok_def keys_filter_distinct)

subsection \<open>What retention removes\<close>

lemma tasks_remove_record [simp]: "tasks (remove_record tid s) = hremove tid (tasks s)"
  by (simp add: remove_record_def hremove_absent split: option.splits)

lemma remove_record_frame [simp]:
  "lifecycle (remove_record tid s) = lifecycle s" "next_task_id (remove_record tid s) = next_task_id s"
  "expired_cleanup (remove_record tid s) = expired_cleanup s" "aborted (remove_record tid s) = aborted s"
  by (simp_all add: remove_record_def split: option.splits)

lemma fold_remove_frame [simp]:
  "lifecycle (fold remove_record ids s) = lifecycle s"
  "next_task_id (fold remove_record ids s) = next_task_id s"
  "expired_cleanup (fold remove_record ids s) = expired_cleanup s"
  "aborted (fold remove_record ids s) = aborted s"
  by (induction ids arbitrary: s) simp_all

lemma tasks_fold_remove: "tasks (fold remove_record ids s) = filter (\<lambda>e. fst e \<notin> set ids) (tasks s)"
proof -
  have "tasks (fold remove_record ids s) = fold hremove ids (tasks s)"
    by (induction ids arbitrary: s) simp_all
  then show ?thesis by (simp add: hremove_all)
qed

text \<open>The terminal records of an owner, in map order, as the retention pass collects them.\<close>

definition terminal_of :: "task_owner \<Rightarrow> (string, task_record) hmap \<Rightarrow> (string \<times> task_record) list" where
  "terminal_of owner m = filter (\<lambda>e. is_terminal (status (rec_task (snd e))) \<and> rec_owner (snd e) = owner) m"

abbreviation stamped :: "(string \<times> task_record) list \<Rightarrow> (string \<times> instant) list" where
  "stamped \<equiv> map (\<lambda>e. (fst e, last_touched (snd e)))"

lemma completed_step:
  "hget (fold collect_completed m acc) owner =
   (case hget acc owner of
      Some xs \<Rightarrow> Some (xs @ stamped (terminal_of owner m))
    | None \<Rightarrow> if terminal_of owner m = [] then None else Some (stamped (terminal_of owner m)))"
proof (induction m arbitrary: acc)
  case Nil
  then show ?case by (simp add: terminal_of_def split: option.splits)
next
  case (Cons e m)
  obtain tid r where e: "e = (tid, r)" by (cases e)
  show ?case
    by (auto simp: e Cons.IH hm.get_ins terminal_of_def split: option.splits)
qed

lemma completed_by_owner_get:
  "hget (completed_by_owner m) owner =
     (if terminal_of owner m = [] then None else Some (stamped (terminal_of owner m)))"
  unfolding completed_by_owner_def by (subst completed_step) simp

lemma hmap_ok_completed: "hmap_ok (completed_by_owner m)"
proof -
  have "hmap_ok acc \<Longrightarrow> hmap_ok (fold collect_completed m acc)" for acc
  proof (induction m arbitrary: acc)
    case (Cons e m)
    then show ?case by (cases e) (simp add: hm.ok_ins)
  qed simp
  then show ?thesis by (simp add: completed_by_owner_def)
qed

definition retention_set :: "(string, task_record) hmap \<Rightarrow> string set" where
  "retention_set m = (\<Union>owner. set (retention_drops (stamped (terminal_of owner m))))"

lemma enforce_fold:
  "enforce_owner_completed_retention s =
     fold remove_record (concat (map (retention_drops \<circ> snd) (completed_by_owner (tasks s)))) s"
proof -
  have "fold (\<lambda>(owner, completed). fold remove_record (retention_drops completed)) cs s =
      fold remove_record (concat (map (retention_drops \<circ> snd) cs)) s" for cs
    by (induction cs arbitrary: s) (auto simp: fold_append)
  then show ?thesis by (simp add: enforce_owner_completed_retention_def)
qed

lemma retention_set_eq:
  "set (concat (map (retention_drops \<circ> snd) (completed_by_owner m))) = retention_set m"
proof -
  have nil: "retention_drops [] = []" by (simp add: retention_drops_def)
  have "set (concat (map (retention_drops \<circ> snd) (completed_by_owner m))) =
      (\<Union>(owner, xs) \<in> set (completed_by_owner m). set (retention_drops xs))" by auto
  also have "\<dots> = retention_set m"
  proof (intro equalityI subsetI)
    fix tid assume "tid \<in> (\<Union>(owner, xs) \<in> set (completed_by_owner m). set (retention_drops xs))"
    then show "tid \<in> retention_set m"
      by (auto simp: retention_set_def hmap_mem_iff [OF hmap_ok_completed] completed_by_owner_get split: if_splits)
  next
    fix tid assume "tid \<in> retention_set m"
    then obtain owner where owner: "tid \<in> set (retention_drops (stamped (terminal_of owner m)))"
      by (auto simp: retention_set_def)
    then have "terminal_of owner m \<noteq> []" by (auto simp: nil)
    then have "(owner, stamped (terminal_of owner m)) \<in> set (completed_by_owner m)"
      by (simp add: hmap_mem_iff [OF hmap_ok_completed] completed_by_owner_get)
    with owner show "tid \<in> (\<Union>(owner, xs) \<in> set (completed_by_owner m). set (retention_drops xs))" by blast
  qed
  finally show ?thesis .
qed

lemma tasks_enforce:
  "tasks (enforce_owner_completed_retention s) = filter (\<lambda>e. fst e \<notin> retention_set (tasks s)) (tasks s)"
  by (simp add: enforce_fold tasks_fold_remove retention_set_eq del: set_concat)

lemma enforce_frame [simp]:
  "lifecycle (enforce_owner_completed_retention s) = lifecycle s"
  "next_task_id (enforce_owner_completed_retention s) = next_task_id s"
  "expired_cleanup (enforce_owner_completed_retention s) = expired_cleanup s"
  "aborted (enforce_owner_completed_retention s) = aborted s"
  by (simp_all add: enforce_fold)

lemma hmap_ok_enforce [simp]: "hmap_ok (tasks s) \<Longrightarrow> hmap_ok (tasks (enforce_owner_completed_retention s))"
  by (simp add: tasks_enforce hmap_ok_def keys_filter_distinct)

lemma retention_drops_subset: "set (retention_drops xs) \<subseteq> fst ` set xs"
  unfolding retention_drops_def by (auto dest!: in_set_takeD intro!: rev_image_eqI)

lemma retention_set_terminal:
  assumes "hmap_ok m" "tid \<in> retention_set m" "hget m tid = Some r"
  shows "is_terminal (status (rec_task r))"
proof -
  from assms(2) obtain owner where "tid \<in> set (retention_drops (stamped (terminal_of owner m)))"
    by (auto simp: retention_set_def)
  then have "tid \<in> fst ` set (stamped (terminal_of owner m))" using retention_drops_subset by blast
  then obtain r' where "(tid, r') \<in> set m" "is_terminal (status (rec_task r'))"
    by (auto simp: terminal_of_def)
  with assms(1,3) show ?thesis by (simp add: hmap_mem_iff)
qed

lemma hget_enforce:
  "hmap_ok (tasks s) \<Longrightarrow>
   hget (tasks (enforce_owner_completed_retention s)) tid =
     (if tid \<in> retention_set (tasks s) then None else hget (tasks s) tid)"
  using map_of_filter_distinct [of "tasks s" "\<lambda>k _. k \<notin> retention_set (tasks s)" tid]
  by (simp add: tasks_enforce hmap_ok_def split: option.splits)

lemma enforce_keeps_in_flight:
  "hmap_ok (tasks s) \<Longrightarrow> hget (tasks s) tid = Some r \<Longrightarrow> \<not> is_terminal (status (rec_task r)) \<Longrightarrow>
   hget (tasks (enforce_owner_completed_retention s)) tid = Some r"
  by (auto simp: hget_enforce dest: retention_set_terminal)

subsection \<open>Runs of the store\<close>

datatype task_query = QInfo | QModern | QValidate | QUpstream | QResult | QCancelResult | QList

datatype task_op =
    BeginCreate task_owner
  | GuardDrop task_owner
  | Create instant string task_owner string "quota_lease option"
  | CreatePassthrough instant task_owner string task task_upstream_ref "quota_lease option"
  | AttachAbort string join_handle
  | SetUpstream instant string task_upstream_ref
  | RecordSource string string string
  | Complete instant string string json
  | Fail instant string string string
  | Cancel instant string task_owner string
  | CacheResult instant string task_owner string json
  | CleanupOwner task_owner
  | Query task_query instant task_owner string
  | SyncUpstream instant task_owner string task
  | TakeCleanup

fun task_query_exec :: "task_query \<Rightarrow> instant \<Rightarrow> task_owner \<Rightarrow> string \<Rightarrow> task_store \<Rightarrow> task_store" where
  "task_query_exec QInfo now owner tid s = snd (get_info_for_owner now owner tid s)"
| "task_query_exec QModern now owner tid s = snd (get_modern_for_owner (\<lambda>_. JNull) now owner tid s)"
| "task_query_exec QValidate now owner tid s = snd (validate_owner now owner tid s)"
| "task_query_exec QUpstream now owner tid s = snd (upstream_for_owner now owner tid s)"
| "task_query_exec QResult now owner tid s = snd (get_result_for_owner now owner tid s)"
| "task_query_exec QCancelResult now owner tid s = snd (cancel_result_for_owner now owner tid s)"
| "task_query_exec QList now owner tid s = snd (list_for_owner now owner (Some tid) s)"

definition cleanup_leases :: "expired_task_cleanup list \<Rightarrow> quota_lease list" where
  "cleanup_leases cs = concat (map (lease_list \<circ> cleanup_lease) cs)"

text \<open>The router drops what \<open>take_expired_cleanup\<close> gives it, and with it the leases.\<close>

fun task_exec :: "task_op \<Rightarrow> task_store \<Rightarrow> task_store" where
  "task_exec (BeginCreate owner) s = begin_owner_create owner s"
| "task_exec (GuardDrop owner) s = guard_drop owner s"
| "task_exec (Create now stamp owner name lease) s = snd (create_inner now stamp owner name lease s)"
| "task_exec (CreatePassthrough now owner name ut up lease) s =
     snd (create_passthrough_inner now owner name ut up lease s)"
| "task_exec (AttachAbort tid h) s = attach_abort_handle tid h s"
| "task_exec (SetUpstream now tid up) s = snd (set_upstream_request now tid up s)"
| "task_exec (RecordSource tid server own) s = record_source tid server own s"
| "task_exec (Complete now stamp tid result) s = complete now stamp tid result s"
| "task_exec (Fail now stamp tid message) s = task_fail now stamp tid message s"
| "task_exec (Cancel now stamp owner tid) s = snd (mark_cancelled now stamp owner tid s)"
| "task_exec (CacheResult now stamp owner tid result) s = snd (cache_result_for_owner now stamp owner tid result s)"
| "task_exec (CleanupOwner owner) s = snd (cleanup_owner owner s)"
| "task_exec (Query q now owner tid) s = task_query_exec q now owner tid s"
| "task_exec (SyncUpstream now owner tid ut) s = snd (sync_from_upstream_for_owner now owner tid ut s)"
| "task_exec TakeCleanup s =
     (let s' = snd (take_expired_cleanup s)
      in s' \<lparr>dropped := dropped s' @ cleanup_leases (fst (take_expired_cleanup s))\<rparr>)"

lemma task_query_prunes: "task_query_exec q now owner tid s = prune_expired now s"
  by (cases q)
     (simp_all add: get_info_for_owner_def get_modern_for_owner_def validate_owner_def upstream_for_owner_def
       get_result_for_owner_def cancel_result_for_owner_def list_for_owner_def Let_def)

text \<open>What an operation makes of one record that it does not remove.\<close>

definition finish_record :: "instant \<Rightarrow> (task_record \<Rightarrow> task_record) \<Rightarrow> task_record \<Rightarrow> task_record" where
  "finish_record now f r = (if is_terminal (status (rec_task r)) then r \<lparr>last_touched := now\<rparr> else f r)"

definition cancel_record :: "instant \<Rightarrow> string \<Rightarrow> task_record \<Rightarrow> task_record" where
  "cancel_record now stamp r =
     r \<lparr>rec_task := (rec_task r) \<lparr>status := Cancelled, status_message := Some ''Cancelled'', last_updated_at := stamp\<rparr>,
        rec_result := None, last_touched := now, upstream := None,
        pending_cancel_reason := (if upstream r = None then Some ''task cancelled'' else pending_cancel_reason r),
        abort_handle := None\<rparr>"

definition complete_record :: "instant \<Rightarrow> string \<Rightarrow> json \<Rightarrow> task_record \<Rightarrow> task_record" where
  "complete_record now stamp result r =
     r \<lparr>rec_task := (rec_task r) \<lparr>status := Completed, status_message := Some ''Completed'', last_updated_at := stamp\<rparr>,
        rec_result := Some result, abort_handle := None, upstream := None, last_touched := now\<rparr>"

definition fail_record :: "instant \<Rightarrow> string \<Rightarrow> string \<Rightarrow> task_record \<Rightarrow> task_record" where
  "fail_record now stamp message r =
     r \<lparr>rec_task := (rec_task r) \<lparr>status := Failed, status_message := Some message, last_updated_at := stamp\<rparr>,
        abort_handle := None, upstream := None, last_touched := now\<rparr>"

definition sync_record :: "instant \<Rightarrow> task \<Rightarrow> task_record \<Rightarrow> task_record" where
  "sync_record now ut r =
     (if is_terminal (status (rec_task r)) \<and> status (rec_task r) \<noteq> status ut then r \<lparr>last_touched := now\<rparr>
      else r \<lparr>rec_task := (rec_task r)
                \<lparr>status := status ut, status_message := status_message ut, created_at := created_at ut,
                 last_updated_at := last_updated_at ut, ttl := ttl ut, poll_interval := poll_interval ut\<rparr>,
              last_touched := now\<rparr>)"

fun updated_record :: "task_op \<Rightarrow> string \<Rightarrow> task_record \<Rightarrow> task_record" where
  "updated_record (AttachAbort tid' h) tid r = (if tid' = tid then r \<lparr>abort_handle := Some h\<rparr> else r)"
| "updated_record (SetUpstream now tid' up) tid r =
     (if tid' = tid then r \<lparr>upstream := Some up, last_touched := now, pending_cancel_reason := None\<rparr> else r)"
| "updated_record (RecordSource tid' server own) tid r =
     (if tid' = tid then r \<lparr>rec_source := (rec_source r) \<lparr>behind := Some (server, own)\<rparr>\<rparr> else r)"
| "updated_record (Complete now stamp tid' result) tid r =
     (if tid' = tid then finish_record now (complete_record now stamp result) r else r)"
| "updated_record (Fail now stamp tid' message) tid r =
     (if tid' = tid then finish_record now (fail_record now stamp message) r else r)"
| "updated_record (Cancel now stamp owner tid') tid r =
     (if tid' = tid \<and> rec_owner r = owner then finish_record now (cancel_record now stamp) r else r)"
| "updated_record (CacheResult now stamp owner tid' result) tid r =
     (if tid' = tid \<and> rec_owner r = owner then complete_record now stamp result r else r)"
| "updated_record (SyncUpstream now owner tid' ut) tid r =
     (if tid' = tid \<and> rec_owner r = owner then sync_record now ut r else r)"
| "updated_record _ tid r = r"

definition nth_task_id :: "nat \<Rightarrow> string" where
  "nth_task_id k = ''task_'' @ show_nat k"

lemma nth_task_id_inj [simp]: "nth_task_id j = nth_task_id k \<longleftrightarrow> j = k"
  by (simp add: nth_task_id_def show_nat_inj)

lemma fresh_id_nth: "fresh_id s = nth_task_id (unat (next_task_id s))"
  by (simp add: fresh_id_def nth_task_id_def show_u64_def)

definition task_ids_ok :: "task_store \<Rightarrow> bool" where
  "task_ids_ok s \<longleftrightarrow>
     hmap_ok (tasks s) \<and> hmap_ok (lifecycle s) \<and>
     (\<forall>tid r. hget (tasks s) tid = Some r \<longrightarrow>
        task_id (rec_task r) = tid \<and> (\<exists>k < unat (next_task_id s). tid = nth_task_id k))"

lemma task_ids_okD [dest]: "task_ids_ok s \<Longrightarrow> hmap_ok (tasks s)"
  by (simp add: task_ids_ok_def)

lemma fresh_id_unused: "task_ids_ok s \<Longrightarrow> hget (tasks s) (fresh_id s) = None"
  by (cases "hget (tasks s) (fresh_id s)") (fastforce simp: task_ids_ok_def fresh_id_nth)+

lemma fresh_id_prune [simp]: "fresh_id (prune_expired now s) = fresh_id s"
  by (simp add: fresh_id_def)

subsection \<open>How a record evolves\<close>

lemma prune_None: "hmap_ok (tasks s) \<Longrightarrow> hget (tasks s) tid = None \<Longrightarrow> hget (tasks (prune_expired now s)) tid = None"
  by (simp add: hget_prune)

lemma prune_Some:
  "hmap_ok (tasks s) \<Longrightarrow> hget (tasks (prune_expired now s)) tid = Some r \<longleftrightarrow>
     hget (tasks s) tid = Some r \<and> \<not> record_expired now r"
  by (auto simp: hget_prune split: option.splits if_splits)

lemma tasks_put_record: "tasks (put_record tid r s) = hinsert tid r (tasks s)"
  by (simp add: put_record_def)

lemma tasks_insert_record: "tasks (insert_record tid r s) = hinsert tid r (tasks s)"
  by (simp add: insert_record_def)

lemma enforce_result: "hmap_ok (tasks s) \<Longrightarrow> hget (tasks (enforce_owner_completed_retention s)) tid \<in> {None, hget (tasks s) tid}"
  by (simp add: hget_enforce)

lemma owned_record_Inr:
  "owned_record owner tid s = Inr r \<longleftrightarrow> hget (tasks s) tid = Some r \<and> rec_owner r = owner"
  by (auto simp: owned_record_def ensure_owner_def split: option.splits if_splits)

lemma owned_record_Inl:
  "owned_record owner tid s = Inl e \<longleftrightarrow>
     (hget (tasks s) tid = None \<and> e = task_not_found tid) \<or>
     (\<exists>r. hget (tasks s) tid = Some r \<and> rec_owner r \<noteq> owner \<and> e = not_owner_error)"
  by (auto simp: owned_record_def ensure_owner_def split: option.splits if_splits)

lemmas task_ops_defs =
  attach_abort_handle_def set_upstream_request_def record_source_def complete_def task_fail_def
  mark_cancelled_def cache_result_for_owner_def sync_from_upstream_for_owner_def
  finish_record_def cancel_record_def complete_record_def fail_record_def sync_record_def

lemma tasks_cleanup:
  "hmap_ok (tasks s) \<Longrightarrow> tasks (snd (cleanup_owner owner s)) = filter (\<lambda>e. rec_owner (snd e) \<noteq> owner) (tasks s)"
  by (simp add: cleanup_owner_def Let_def tasks_fold_remove split_beta filter_keys_of)

lemma hget_cleanup:
  "hmap_ok (tasks s) \<Longrightarrow>
   hget (tasks (snd (cleanup_owner owner s))) tid =
     (case hget (tasks s) tid of None \<Rightarrow> None | Some r \<Rightarrow> if rec_owner r \<noteq> owner then Some r else None)"
  using map_of_filter_distinct [of "tasks s" "\<lambda>_ r. rec_owner r \<noteq> owner" tid]
  by (simp add: tasks_cleanup hmap_ok_def)

definition creates_record :: "task_op \<Rightarrow> bool" where
  "creates_record op \<longleftrightarrow>
     (case op of Create _ _ _ _ _ \<Rightarrow> True | CreatePassthrough _ _ _ _ _ _ \<Rightarrow> True | _ \<Rightarrow> False)"

definition evolved :: "(string \<Rightarrow> task_record \<Rightarrow> task_record) \<Rightarrow> task_store \<Rightarrow> string \<rightharpoonup> task_record" where
  "evolved U s = (\<lambda>tid. map_option (U tid) (hget (tasks s) tid))"

lemma map_le_SomeD: "m \<subseteq>\<^sub>m m' \<Longrightarrow> m k = Some v \<Longrightarrow> m' k = Some v"
  by (auto simp: map_le_def dom_def)

lemma prune_map_le: "hmap_ok (tasks s) \<Longrightarrow> map_of (tasks (prune_expired now s)) \<subseteq>\<^sub>m map_of (tasks s)"
  by (auto simp: map_le_def dom_def prune_Some)

lemma enforce_map_le:
  "hmap_ok (tasks s) \<Longrightarrow> map_of (tasks (enforce_owner_completed_retention s)) \<subseteq>\<^sub>m map_of (tasks s)"
  by (auto simp: map_le_def dom_def hget_enforce split: if_splits)

lemma fold_remove_map_le:
  "hmap_ok (tasks s) \<Longrightarrow> map_of (tasks (fold remove_record ids s)) \<subseteq>\<^sub>m map_of (tasks s)"
  using map_of_filter_distinct [of "tasks s" "\<lambda>k _. k \<notin> set ids"]
  by (auto simp: map_le_def dom_def tasks_fold_remove hmap_ok_def split: option.splits if_splits)

lemma evolved_same:
  "m \<subseteq>\<^sub>m map_of (tasks s) \<Longrightarrow> (\<And>tid r. m tid = Some r \<Longrightarrow> U tid r = r) \<Longrightarrow> m \<subseteq>\<^sub>m evolved U s"
  by (auto simp: map_le_def evolved_def dom_def)

lemma evolved_put:
  assumes "map_of (tasks s') \<subseteq>\<^sub>m map_of (tasks s)" "hget (tasks s') tid = Some r" "U tid r = v"
    and "\<And>tid' r'. tid' \<noteq> tid \<Longrightarrow> U tid' r' = r'"
  shows "map_of (tasks (put_record tid v s')) \<subseteq>\<^sub>m evolved U s"
  using assms by (auto simp: map_le_def evolved_def dom_def tasks_put_record hm.get_ins)

lemma hmap_ok_put [simp]: "hmap_ok (tasks s) \<Longrightarrow> hmap_ok (tasks (put_record tid v s))"
  by (simp add: tasks_put_record hm.ok_ins)

lemma evolved_enforce:
  "hmap_ok (tasks s') \<Longrightarrow> map_of (tasks s') \<subseteq>\<^sub>m m \<Longrightarrow> map_of (tasks (enforce_owner_completed_retention s')) \<subseteq>\<^sub>m m"
  by (rule map_le_trans [OF enforce_map_le])

text \<open>One shape of proof for the operations that a record's owner calls.\<close>

lemma evolved_owner_op:
  assumes ok: "hmap_ok (tasks s)"
    and other: "\<And>tid' r'. tid' \<noteq> tid \<or> rec_owner r' \<noteq> owner \<Longrightarrow> U tid' r' = r'"
    and step: "\<And>r. rec_owner r = owner \<Longrightarrow> hget (tasks (prune_expired now s)) tid = Some r \<Longrightarrow>
       f r = put_record tid (U tid r) (prune_expired now s) \<or>
       f r = enforce_owner_completed_retention (put_record tid (U tid r) (prune_expired now s))"
  shows "map_of (tasks (case owned_record owner tid (prune_expired now s) of
           Inl e \<Rightarrow> prune_expired now s | Inr r \<Rightarrow> f r)) \<subseteq>\<^sub>m evolved U s"
proof (cases "owned_record owner tid (prune_expired now s)")
  case (Inl e)
  then have "U tid' r = r" if "hget (tasks (prune_expired now s)) tid' = Some r" for tid' r
    using that other by (cases "tid' = tid") (auto simp: owned_record_Inl)
  with Inl show ?thesis by (simp add: evolved_same [OF prune_map_le [OF ok]])
next
  case (Inr r)
  then have r: "hget (tasks (prune_expired now s)) tid = Some r" "rec_owner r = owner"
    by (simp_all add: owned_record_Inr)
  have "map_of (tasks (put_record tid (U tid r) (prune_expired now s))) \<subseteq>\<^sub>m evolved U s"
    by (rule evolved_put [where r = r]) (use ok r other in \<open>auto intro: prune_map_le\<close>)
  with step [OF r(2,1)] Inr ok show ?thesis
    by (elim disjE) (simp_all add: evolved_enforce [OF hmap_ok_put [OF hmap_ok_prune]])
qed

lemma snd_sum_case: "snd (case x of Inl e \<Rightarrow> f e | Inr r \<Rightarrow> g r) = (case x of Inl e \<Rightarrow> snd (f e) | Inr r \<Rightarrow> snd (g r))"
  by (cases x) simp_all

lemma exec_evolved_owner_ops:
  assumes "hmap_ok (tasks s)"
  shows "map_of (tasks (task_exec (Cancel now stamp owner tid) s)) \<subseteq>\<^sub>m evolved (updated_record (Cancel now stamp owner tid)) s"
    and "map_of (tasks (task_exec (CacheResult now stamp owner tid result) s)) \<subseteq>\<^sub>m
           evolved (updated_record (CacheResult now stamp owner tid result)) s"
    and "map_of (tasks (task_exec (SyncUpstream now owner tid ut) s)) \<subseteq>\<^sub>m
           evolved (updated_record (SyncUpstream now owner tid ut)) s"
  unfolding task_exec.simps mark_cancelled_def cache_result_for_owner_def
    sync_from_upstream_for_owner_def Let_def snd_sum_case snd_conv
  by (rule evolved_owner_op [OF assms]; auto simp: task_ops_defs)+

lemma exec_evolved_id_ops:
  assumes "hmap_ok (tasks s)"
    and "op \<in> {AttachAbort tid h, SetUpstream now tid up, RecordSource tid server own,
               Complete now stamp tid result, Fail now stamp tid message}"
  shows "map_of (tasks (task_exec op s)) \<subseteq>\<^sub>m evolved (updated_record op) s"
proof (cases "hget (tasks s) tid")
  case None
  then have "updated_record op tid' r = r" if "hget (tasks s) tid' = Some r" for tid' r
    using that assms(2) by auto
  moreover have "map_of (tasks (task_exec op s)) \<subseteq>\<^sub>m map_of (tasks s)"
    using None assms enforce_map_le [OF assms(1)] by (auto simp: task_ops_defs)
  ultimately show ?thesis
    by (intro evolved_same) (auto dest: map_le_SomeD)
next
  case (Some r)
  have put: "map_of (tasks (put_record tid (updated_record op tid r) s)) \<subseteq>\<^sub>m evolved (updated_record op) s"
    using assms(2) by (intro evolved_put [where r = r] Some) auto
  have "task_exec op s = put_record tid (updated_record op tid r) s \<or>
      task_exec op s = enforce_owner_completed_retention (put_record tid (updated_record op tid r) s)"
    using assms(2) Some by (auto simp: task_ops_defs)
  with put assms(1) show ?thesis
    by (elim disjE) (simp_all add: evolved_enforce [OF hmap_ok_put])
qed

text \<open>Creation is refused for a torn-down owner, or adds one record under the fresh id.\<close>

fun op_owner :: "task_op \<Rightarrow> task_owner option" where
  "op_owner (Create now stamp owner name lease) = Some owner"
| "op_owner (CreatePassthrough now owner name ut up lease) = Some owner"
| "op_owner (Cancel now stamp owner tid) = Some owner"
| "op_owner (CacheResult now stamp owner tid result) = Some owner"
| "op_owner (Query q now owner tid) = Some owner"
| "op_owner (SyncUpstream now owner tid ut) = Some owner"
| "op_owner (CleanupOwner owner) = Some owner"
| "op_owner (BeginCreate owner) = Some owner"
| "op_owner (GuardDrop owner) = Some owner"
| "op_owner _ = None"

fun op_lease :: "task_op \<Rightarrow> quota_lease list" where
  "op_lease (Create now stamp owner name lease) = lease_list lease"
| "op_lease (CreatePassthrough now owner name ut up lease) = lease_list lease"
| "op_lease _ = []"

definition admitted_record :: "task_op \<Rightarrow> string \<Rightarrow> task_record \<Rightarrow> bool" where
  "admitted_record op tid r \<longleftrightarrow>
     task_id (rec_task r) = tid \<and> op_owner op = Some (rec_owner r) \<and> lease_list (rec_lease r) = op_lease op \<and>
     pending_cancel_reason r = None"

lemma create_shape:
  assumes "creates_record op"
  shows "(\<exists>owner. op_owner op = Some owner \<and> is_tombstoned owner (lifecycle s) \<and>
            task_exec op s = s \<lparr>dropped := dropped s @ op_lease op\<rparr>) \<or>
         (\<exists>now r. admitted_record op (fresh_id s) r \<and> \<not> is_tombstoned (rec_owner r) (lifecycle s) \<and>
            task_exec op s = enforce_owner_completed_retention
              (insert_record (fresh_id s) r ((prune_expired now s) \<lparr>next_task_id := next_task_id s + 1\<rparr>)))"
proof (cases op)
  case (Create now stamp owner name lease)
  let ?t = "(task_new (fresh_id s) Working stamp stamp)
      \<lparr>status_message := Some (running_message name), ttl := Some DEFAULT_TASK_TTL_MS,
       poll_interval := Some DEFAULT_TASK_POLL_INTERVAL_MS\<rparr>"
  from Create have "admitted_record op (fresh_id s) (new_record now owner name ?t None lease)"
    by (simp add: admitted_record_def new_record_def task_new_def)
  moreover have "rec_owner (new_record now owner name ?t None lease) = owner" by (simp add: new_record_def)
  ultimately show ?thesis using Create
    by (cases "is_tombstoned owner (lifecycle s)") (fastforce simp: create_inner_def Let_def)+
next
  case (CreatePassthrough now owner name ut up lease)
  let ?t = "ut \<lparr>task_id := fresh_id s,
      status_message := (case status_message ut of None \<Rightarrow> Some (running_message name) | Some m \<Rightarrow> Some m)\<rparr>"
  from CreatePassthrough have "admitted_record op (fresh_id s) (new_record now owner name ?t (Some up) lease)"
    by (simp add: admitted_record_def new_record_def)
  moreover have "rec_owner (new_record now owner name ?t (Some up) lease) = owner" by (simp add: new_record_def)
  ultimately show ?thesis using CreatePassthrough
    by (cases "is_tombstoned owner (lifecycle s)") (fastforce simp: create_passthrough_inner_def Let_def)+
qed (use assms in \<open>simp_all add: creates_record_def\<close>)

lemma exec_evolved:
  assumes ok: "hmap_ok (tasks s)" and "\<not> creates_record op"
  shows "map_of (tasks (task_exec op s)) \<subseteq>\<^sub>m evolved (updated_record op) s"
proof (cases op)
  case (Query q now owner tid)
  then show ?thesis by (simp add: task_query_prunes evolved_same prune_map_le [OF ok])
next
  case (CleanupOwner owner)
  have "map_of (tasks (task_exec op s)) \<subseteq>\<^sub>m map_of (tasks s)"
    using fold_remove_map_le [of "s \<lparr>lifecycle := tombstone_if_in_flight owner (lifecycle s)\<rparr>"] ok
    by (simp add: CleanupOwner cleanup_owner_def Let_def)
  then show ?thesis by (rule evolved_same) (simp add: CleanupOwner)
next
  case (AttachAbort tid h)
  then show ?thesis using exec_evolved_id_ops [OF ok, of op tid h] by blast
next
  case (SetUpstream now tid up)
  then show ?thesis using exec_evolved_id_ops [OF ok, of op tid _ now up] by blast
next
  case (RecordSource tid server own)
  then show ?thesis using exec_evolved_id_ops [OF ok, of op tid _ _ _ server own] by blast
next
  case (Complete now stamp tid result)
  then show ?thesis using exec_evolved_id_ops [OF ok, of op tid _ now _ _ _ stamp result] by blast
next
  case (Fail now stamp tid message)
  then show ?thesis using exec_evolved_id_ops [OF ok, of op tid _ now _ _ _ stamp _ message] by blast
qed (use assms exec_evolved_owner_ops [OF ok] in
      \<open>simp_all add: creates_record_def evolved_same begin_owner_create_def guard_drop_def take_expired_cleanup_def Let_def\<close>)

lemma exec_created:
  assumes ok: "hmap_ok (tasks s)" and cr: "creates_record op" and got: "hget (tasks (task_exec op s)) tid = Some r"
  shows "hget (tasks s) tid = Some r \<or>
     (tid = fresh_id s \<and> admitted_record op tid r \<and> \<not> is_tombstoned (rec_owner r) (lifecycle s))"
  using create_shape [OF cr, of s]
proof (elim disjE exE conjE)
  fix now v
  let ?s = "insert_record (fresh_id s) v ((prune_expired now s) \<lparr>next_task_id := next_task_id s + 1\<rparr>)"
  assume v: "admitted_record op (fresh_id s) v" "\<not> is_tombstoned (rec_owner v) (lifecycle s)"
    and exec: "task_exec op s = enforce_owner_completed_retention ?s"
  have tasks: "tasks ?s = hinsert (fresh_id s) v (tasks (prune_expired now s))"
    by (simp add: tasks_insert_record)
  then have "hmap_ok (tasks ?s)" using ok by (simp add: hm.ok_ins)
  with got have "hget (tasks ?s) tid = Some r"
    unfolding exec by (metis enforce_map_le map_le_SomeD)
  with v ok show ?thesis by (auto simp: tasks hm.get_ins prune_Some split: if_splits)
qed (use got in simp)

text \<open>So a record that is there after an operation is an old one, updated, or the new one.\<close>

lemma exec_record_cases:
  assumes "hmap_ok (tasks s)" "hget (tasks (task_exec op s)) tid = Some r'"
  obtains (old) r where "hget (tasks s) tid = Some r" "r' = updated_record op tid r"
  | (new) "creates_record op" "tid = fresh_id s" "admitted_record op tid r'" "\<not> is_tombstoned (rec_owner r') (lifecycle s)"
proof (cases "creates_record op")
  case True
  then have id: "updated_record op tid r = r" for r
    by (cases op) (simp_all add: creates_record_def)
  from exec_created [OF assms(1) True assms(2)] show ?thesis using True id old new by metis
next
  case False
  from map_le_SomeD [OF exec_evolved [OF assms(1) False] assms(2)] show ?thesis
    using old by (auto simp: evolved_def)
qed

subsection \<open>Ids are never reused\<close>

lemma put_record_frame [simp]:
  "lifecycle (put_record tid r s) = lifecycle s" "next_task_id (put_record tid r s) = next_task_id s"
  "expired_cleanup (put_record tid r s) = expired_cleanup s" "aborted (put_record tid r s) = aborted s"
  "dropped (put_record tid r s) = dropped s"
  by (simp_all add: put_record_def)

lemma insert_record_frame [simp]:
  "lifecycle (insert_record tid r s) = lifecycle s" "next_task_id (insert_record tid r s) = next_task_id s"
  "expired_cleanup (insert_record tid r s) = expired_cleanup s"
  by (simp_all add: insert_record_def)

lemma exec_next_id_other: "\<not> creates_record op \<Longrightarrow> next_task_id (task_exec op s) = next_task_id s"
  by (cases op)
     (auto simp: creates_record_def begin_owner_create_def guard_drop_def task_query_prunes cleanup_owner_def
       take_expired_cleanup_def task_ops_defs Let_def split: option.splits sum.splits)

lemma exec_next_id_create:
  "creates_record op \<Longrightarrow> next_task_id (task_exec op s) \<in> {next_task_id s, next_task_id s + 1}"
  using create_shape [of op s] by auto

lemma updated_record_id: "task_id (rec_task (updated_record op tid r)) = task_id (rec_task r)"
  by (cases op) (simp_all add: task_ops_defs)

lemma updated_record_owner [simp]: "rec_owner (updated_record op tid r) = rec_owner r"
  by (cases op) (simp_all add: task_ops_defs)

lemma updated_record_lease [simp]: "rec_lease (updated_record op tid r) = rec_lease r"
  by (cases op) (simp_all add: task_ops_defs)

lemma hmap_ok_filter [simp]: "hmap_ok m \<Longrightarrow> hmap_ok (filter P m)"
  by (simp add: hmap_ok_def keys_filter_distinct)

lemma exec_hmap_ok_tasks: "hmap_ok (tasks s) \<Longrightarrow> hmap_ok (tasks (task_exec op s))"
proof (cases "creates_record op")
  case True
  assume "hmap_ok (tasks s)"
  with create_shape [OF True, of s] show ?thesis by (auto simp: tasks_insert_record hm.ok_ins)
next
  case False
  assume "hmap_ok (tasks s)"
  with False show ?thesis
    by (cases op)
       (auto simp: creates_record_def begin_owner_create_def guard_drop_def task_query_prunes cleanup_owner_def
         take_expired_cleanup_def task_ops_defs Let_def tasks_fold_remove split: option.splits sum.splits)
qed

lemma hmap_ok_ledger:
  "hmap_ok m \<Longrightarrow> hmap_ok (begin_create owner m)" "hmap_ok m \<Longrightarrow> hmap_ok (end_create owner m)"
  "hmap_ok m \<Longrightarrow> hmap_ok (tombstone_if_in_flight owner m)"
  by (auto simp: begin_create_def end_create_def tombstone_if_in_flight_def Let_def split: option.splits)

fun ledger_update :: "task_op \<Rightarrow> (task_owner, owner_lifecycle_state) hmap \<Rightarrow> (task_owner, owner_lifecycle_state) hmap" where
  "ledger_update (BeginCreate owner) m = begin_create owner m"
| "ledger_update (GuardDrop owner) m = end_create owner m"
| "ledger_update (CleanupOwner owner) m = tombstone_if_in_flight owner m"
| "ledger_update _ m = m"

lemma exec_lifecycle: "lifecycle (task_exec op s) = ledger_update op (lifecycle s)"
  by (cases op)
     (auto simp: begin_owner_create_def guard_drop_def task_query_prunes cleanup_owner_def create_inner_def
       create_passthrough_inner_def take_expired_cleanup_def task_ops_defs Let_def split: option.splits sum.splits)

lemma exec_ids_ok:
  assumes ok: "task_ids_ok s" and room: "unat (next_task_id s) + 1 < 2 ^ 64"
  shows "task_ids_ok (task_exec op s) \<and> unat (next_task_id (task_exec op s)) \<le> unat (next_task_id s) + 1"
proof -
  have suc: "unat (next_task_id s + 1) = unat (next_task_id s) + 1"
    using room by (simp add: unat_word_ariths)
  have next_ge: "unat (next_task_id s) \<le> unat (next_task_id (task_exec op s)) \<and>
      unat (next_task_id (task_exec op s)) \<le> unat (next_task_id s) + 1"
    using exec_next_id_other [of op s] exec_next_id_create [of op s] suc by (cases "creates_record op") auto
  have "task_id (rec_task r) = tid \<and> (\<exists>k < unat (next_task_id (task_exec op s)). tid = nth_task_id k)"
    if "hget (tasks (task_exec op s)) tid = Some r" for tid r
    using task_ids_okD [OF ok] that
  proof (cases rule: exec_record_cases)
    case (old r0)
    with ok next_ge show ?thesis
      by (fastforce simp: task_ids_ok_def updated_record_id dest: less_le_trans)
  next
    case new
    from create_shape [OF new(1), of s] have "next_task_id (task_exec op s) = next_task_id s + 1"
      using new(3,4) by (auto simp: admitted_record_def)
    with new suc show ?thesis by (auto simp: admitted_record_def fresh_id_nth)
  qed
  moreover have "hmap_ok (lifecycle (task_exec op s))"
    using ok unfolding exec_lifecycle by (cases op) (simp_all add: task_ids_ok_def hmap_ok_ledger)
  ultimately show ?thesis using next_ge exec_hmap_ok_tasks ok by (simp add: task_ids_ok_def)
qed

lemma run_ids_ok:
  "task_ids_ok s \<Longrightarrow> unat (next_task_id s) + length ops < 2 ^ 64 \<Longrightarrow>
   task_ids_ok (fold task_exec ops s) \<and>
   unat (next_task_id (fold task_exec ops s)) \<le> unat (next_task_id s) + length ops"
proof (induction ops arbitrary: s)
  case (Cons op ops)
  then have "task_ids_ok (task_exec op s)" "unat (next_task_id (task_exec op s)) \<le> unat (next_task_id s) + 1"
    using exec_ids_ok [of s op] by auto
  with Cons.IH [of "task_exec op s"] Cons.prems show ?case by simp
qed simp

lemma new_ids_ok: "task_ids_ok task_store_new" "unat (next_task_id task_store_new) = 1"
  by (simp_all add: task_ids_ok_def task_store_new_def)

fun created_id :: "task_op \<Rightarrow> task_store \<Rightarrow> string option" where
  "created_id (Create now stamp owner name lease) s =
     (case fst (create_inner now stamp owner name lease s) of Inr t \<Rightarrow> Some (task_id t) | Inl e \<Rightarrow> None)"
| "created_id (CreatePassthrough now owner name ut up lease) s =
     (case fst (create_passthrough_inner now owner name ut up lease s) of Inr t \<Rightarrow> Some (task_id t) | Inl e \<Rightarrow> None)"
| "created_id _ s = None"

fun issued_ids :: "task_op list \<Rightarrow> task_store \<Rightarrow> string list" where
  "issued_ids [] s = []"
| "issued_ids (op # ops) s =
     (case created_id op s of Some i \<Rightarrow> [i] | None \<Rightarrow> []) @ issued_ids ops (task_exec op s)"

lemma created_id_next:
  "created_id op s = (if next_task_id (task_exec op s) = next_task_id s then None else Some (fresh_id s))"
proof (cases "creates_record op")
  case True
  then show ?thesis
    by (cases op)
       (auto simp: creates_record_def create_inner_def create_passthrough_inner_def Let_def task_new_def)
next
  case False
  then have "created_id op s = None" by (cases op) (simp_all add: creates_record_def)
  with exec_next_id_other [OF False] show ?thesis by simp
qed

lemma issued_ids_range:
  "unat (next_task_id s) + length ops < 2 ^ 64 \<Longrightarrow>
   set (issued_ids ops s) \<subseteq> nth_task_id ` {unat (next_task_id s)..} \<and> distinct (issued_ids ops s)"
proof (induction ops arbitrary: s)
  case (Cons op ops)
  let ?t = "task_exec op s"
  have next': "next_task_id ?t = next_task_id s \<or> unat (next_task_id ?t) = unat (next_task_id s) + 1"
  proof -
    have "unat (next_task_id s + 1) = unat (next_task_id s) + 1"
      using Cons.prems by (simp add: unat_word_ariths)
    then show ?thesis
      using exec_next_id_other [of op s] exec_next_id_create [of op s] by (cases "creates_record op") auto
  qed
  then have IH: "set (issued_ids ops ?t) \<subseteq> nth_task_id ` {unat (next_task_id ?t)..}" "distinct (issued_ids ops ?t)"
    using Cons.IH [of ?t] Cons.prems by auto
  show ?case
  proof (cases "next_task_id ?t = next_task_id s")
    case True
    with IH show ?thesis by (simp add: created_id_next)
  next
    case False
    with next' have n: "unat (next_task_id ?t) = unat (next_task_id s) + 1" by blast
    with IH(1) have "fresh_id s \<notin> set (issued_ids ops ?t)" by (auto simp: fresh_id_nth)
    moreover have "set (issued_ids ops ?t) \<subseteq> nth_task_id ` {unat (next_task_id s)..}"
      using IH(1) n by fastforce
    ultimately show ?thesis using IH(2) False by (auto simp: created_id_next fresh_id_nth)
  qed
qed simp

subsection \<open>Facts about a task that survive any run\<close>

text \<open>
  A predicate on the record of one task that every update keeps holds of that record
  as long as the record exists, whatever else happens in the store: ids are not reused.
\<close>

definition task_fact :: "string \<Rightarrow> (task_record \<Rightarrow> bool) \<Rightarrow> task_store \<Rightarrow> bool" where
  "task_fact tid P s \<longleftrightarrow> (\<exists>k < unat (next_task_id s). tid = nth_task_id k) \<and>
     (case hget (tasks s) tid of None \<Rightarrow> True | Some r \<Rightarrow> P r)"

lemma run_task_fact:
  assumes "task_ids_ok s" "unat (next_task_id s) + length ops < 2 ^ 64" "task_fact tid P s"
    and step: "\<And>op r. op \<in> set ops \<Longrightarrow> P r \<Longrightarrow> P (updated_record op tid r)"
  shows "task_fact tid P (fold task_exec ops s)"
  using assms
proof (induction ops arbitrary: s)
  case (Cons op ops)
  note ok = exec_ids_ok [OF Cons.prems(1), of op]
  have room: "unat (next_task_id s) + 1 < 2 ^ 64" using Cons.prems(2) by simp
  from Cons.prems(3) obtain k where k: "k < unat (next_task_id s)" "tid = nth_task_id k"
    by (auto simp: task_fact_def)
  have "unat (next_task_id s + 1) = unat (next_task_id s) + 1" using room by (simp add: unat_word_ariths)
  then have "unat (next_task_id s) \<le> unat (next_task_id (task_exec op s))"
    using exec_next_id_other [of op s] exec_next_id_create [of op s] by (cases "creates_record op") auto
  then have "\<exists>k < unat (next_task_id (task_exec op s)). tid = nth_task_id k"
    using k by (intro exI [of _ k]) simp
  moreover have "P r'" if "hget (tasks (task_exec op s)) tid = Some r'" for r'
    using task_ids_okD [OF Cons.prems(1)] that
  proof (cases rule: exec_record_cases)
    case (old r)
    with Cons.prems(3) Cons.prems(4) [of op r] show ?thesis by (simp add: task_fact_def)
  next
    case new
    with k show ?thesis by (simp add: fresh_id_nth)
  qed
  ultimately have "task_fact tid P (task_exec op s)" by (auto simp: task_fact_def split: option.splits)
  with Cons ok room show ?case by simp
qed simp

lemma task_fact_get: "task_fact tid P s \<Longrightarrow> hget (tasks s) tid = Some r \<Longrightarrow> P r"
  by (simp add: task_fact_def)

lemma task_fact_start:
  "task_ids_ok s \<Longrightarrow> hget (tasks s) tid = Some r \<Longrightarrow> P r \<Longrightarrow> task_fact tid P s"
  by (fastforce simp: task_ids_ok_def task_fact_def)

fun caches :: "string \<Rightarrow> task_op \<Rightarrow> bool" where
  "caches tid (CacheResult now stamp owner tid' result) = (tid' = tid)"
| "caches tid op = False"

fun sets_upstream :: "string \<Rightarrow> task_op \<Rightarrow> bool" where
  "sets_upstream tid (SetUpstream now tid' up) = (tid' = tid)"
| "sets_upstream tid op = False"

lemma terminal_kept:
  "is_terminal (status (rec_task r)) \<Longrightarrow> \<not> caches tid op \<Longrightarrow>
   status (rec_task (updated_record op tid r)) = status (rec_task r) \<and>
   rec_result (updated_record op tid r) = rec_result r"
  by (cases op) (auto simp: task_ops_defs)

lemma pending_kept:
  "is_terminal (status (rec_task r)) \<Longrightarrow> pending_cancel_reason r = Some reason \<Longrightarrow> \<not> sets_upstream tid op \<Longrightarrow>
   is_terminal (status (rec_task (updated_record op tid r))) \<and>
   pending_cancel_reason (updated_record op tid r) = Some reason"
  by (cases op) (auto simp: task_ops_defs)

lemma fold_exec_append: "fold task_exec ops' (fold task_exec ops s) = fold task_exec (ops @ ops') s"
  by simp

subsection \<open>Properties\<close>

text \<open>
  Task ids are never reused: however a new store is used, for fewer than \<open>2^64 - 1\<close> operations,
  the ids that successful creations return are all different, and no record is
  ever stored under another task's id.
\<close>

theorem task_ids_fresh:
  assumes "Suc (length ops) < 2 ^ 64"
  shows "distinct (issued_ids ops task_store_new) \<and>
    (\<forall>tid r. hget (tasks (fold task_exec ops task_store_new)) tid = Some r \<longrightarrow> task_id (rec_task r) = tid)"
  using issued_ids_range [of task_store_new ops] run_ids_ok [OF new_ids_ok(1), of ops] assms
  by (simp add: new_ids_ok task_ids_ok_def)

theorem task_ids_fresh_witness:
  "distinct (issued_ids [Create 0 ''t'' ''o'' ''x'' None, CleanupOwner ''o'', Create 0 ''t'' ''o'' ''x'' None] task_store_new)"
  using task_ids_fresh [of "[Create 0 ''t'' ''o'' ''x'' None, CleanupOwner ''o'', Create 0 ''t'' ''o'' ''x'' None]"]
  by simp

text \<open>
  A finished task stays finished. Once a task is completed, failed or cancelled, no
  operation of the store other than caching a result for it changes its status or its
  result, for as long as the record is kept: late completions, failures,
  cancellations and upstream syncs are ignored.
\<close>

theorem terminal_status_sticky:
  assumes "Suc (length ops + length ops') < 2 ^ 64"
    and "hget (tasks (fold task_exec ops task_store_new)) tid = Some r" "is_terminal (status (rec_task r))"
    and "list_all (\<lambda>op. \<not> caches tid op) ops'"
    and "hget (tasks (fold task_exec (ops @ ops') task_store_new)) tid = Some r'"
  shows "status (rec_task r') = status (rec_task r) \<and> rec_result r' = rec_result r"
proof -
  let ?s = "fold task_exec ops task_store_new"
  let ?P = "\<lambda>x. status (rec_task x) = status (rec_task r) \<and> rec_result x = rec_result r"
  have ok: "task_ids_ok ?s" "unat (next_task_id ?s) \<le> 1 + length ops"
    using run_ids_ok [OF new_ids_ok(1), of ops] assms(1) by (auto simp: new_ids_ok)
  have "task_fact tid ?P (fold task_exec ops' ?s)"
  proof (rule run_task_fact [OF ok(1)])
    show "unat (next_task_id ?s) + length ops' < 2 ^ 64" using ok(2) assms(1) by simp
    show "task_fact tid ?P ?s" using ok(1) assms(2) by (rule task_fact_start) simp
    show "?P (updated_record op tid x)" if "op \<in> set ops'" "?P x" for op x
      using terminal_kept [of x tid op] that assms(3,4) by (auto simp: list_all_iff)
  qed
  then show ?thesis by (rule task_fact_get) (use assms(5) in simp)
qed

text \<open>What a concrete run is evaluated with.\<close>

lemmas task_eval =
  task_store_new_def create_inner_def create_passthrough_inner_def new_record_def task_new_def
  insert_record_def remove_record_def put_record_def prune_expired_def record_expired_def
  enforce_owner_completed_retention_def completed_by_owner_def retention_drops_def
  mark_cancelled_def cache_result_for_owner_def complete_def task_fail_def set_upstream_request_def
  owned_record_def ensure_owner_def get_info_for_owner_def get_result_for_owner_def task_payload_result_def
  cleanup_owner_def begin_owner_create_def guard_drop_def begin_create_def end_create_def
  tombstone_if_in_flight_def is_tombstoned_def ledger_default_def lease_list_def
  fresh_id_def show_u64_def show_nat.simps running_message_def Let_def
  hinsert_def hremove_def elapsed_def millis_def DEFAULT_TASK_TTL_MS_def DEFAULT_STALE_IN_FLIGHT_TTL_MS_def
  DEFAULT_MAX_COMPLETED_TASKS_PER_OWNER_def DEFAULT_TASK_POLL_INTERVAL_MS_def

definition demo_cancelled :: "task_op list" where
  "demo_cancelled = [Create 0 ''t0'' ''alice'' ''build'' None, Cancel 5 ''t1'' ''alice'' ''task_1'']"

theorem terminal_status_sticky_witness:
  "\<exists>r'. hget (tasks (fold task_exec (demo_cancelled @ [Complete 7 ''t2'' ''task_1'' JNull]) task_store_new)) ''task_1'' = Some r' \<and>
     status (rec_task r') = Cancelled \<and> rec_result r' = None"
proof -
  let ?s = "fold task_exec demo_cancelled task_store_new"
  let ?s' = "fold task_exec (demo_cancelled @ [Complete 7 ''t2'' ''task_1'' JNull]) task_store_new"
  have "map_option (\<lambda>r. (status (rec_task r), rec_result r)) (hget (tasks ?s) ''task_1'') = Some (Cancelled, None)"
    "hget (tasks ?s') ''task_1'' \<noteq> None"
    by (simp_all add: demo_cancelled_def task_eval)
  then obtain r r' where r: "hget (tasks ?s) ''task_1'' = Some r" "status (rec_task r) = Cancelled" "rec_result r = None"
    "hget (tasks ?s') ''task_1'' = Some r'" by auto
  then have "status (rec_task r') = status (rec_task r) \<and> rec_result r' = rec_result r"
    by (intro terminal_status_sticky [of demo_cancelled "[Complete 7 ''t2'' ''task_1'' JNull]" "''task_1''" r r'])
       (simp_all add: demo_cancelled_def)
  with r show ?thesis by simp
qed


lemma mark_cancelled_in_flight:
  assumes "hmap_ok (tasks s)" "hget (tasks s) tid = Some r" "rec_owner r = owner"
    and "\<not> is_terminal (status (rec_task r))" "\<not> record_expired now r"
  shows "\<exists>t. fst (mark_cancelled now stamp owner tid s) = Inr (t, upstream r, abort_handle r) \<and> status t = Cancelled"
proof -
  have "owned_record owner tid (prune_expired now s) = Inr r"
    using assms by (simp add: owned_record_Inr prune_Some)
  with assms(4) show ?thesis by (simp add: mark_cancelled_def Let_def)
qed

text \<open>
  C6. A cancellation is never lost. Cancelling a running task hands its upstream reference to the
  caller, to be cancelled there. When dispatch had not recorded a reference yet, then
  whatever happens to the store before it does, recording it either reports the pending
  cancellation or reports that the record is gone; in both cases the dispatcher knows it
  has to cancel upstream.
\<close>

theorem cancellation_not_lost:
  assumes "Suc (Suc (length ops + length ops')) < 2 ^ 64"
    and "s = fold task_exec ops task_store_new"
    and "hget (tasks s) tid = Some r" "rec_owner r = owner"
    and "\<not> is_terminal (status (rec_task r))" "\<not> record_expired now r"
    and "list_all (\<lambda>op. \<not> sets_upstream tid op) ops'"
    and "s' = fold task_exec (Cancel now stamp owner tid # ops') s"
  shows "(\<exists>t. fst (mark_cancelled now stamp owner tid s) = Inr (t, upstream r, abort_handle r) \<and> status t = Cancelled) \<and>
    (upstream r = None \<longrightarrow>
       fst (set_upstream_request now' tid up s') \<in> {Missing, Recorded (Some ''task cancelled'')})"
proof (intro conjI impI)
  have ok: "task_ids_ok s" "unat (next_task_id s) \<le> 1 + length ops"
    using run_ids_ok [OF new_ids_ok(1), of ops] assms(1,2) by (auto simp: new_ids_ok)
  then show "\<exists>t. fst (mark_cancelled now stamp owner tid s) = Inr (t, upstream r, abort_handle r) \<and> status t = Cancelled"
    using assms(3-6) by (intro mark_cancelled_in_flight) auto
  assume none: "upstream r = None"
  let ?P = "\<lambda>x. is_terminal (status (rec_task x)) \<and> pending_cancel_reason x = Some ''task cancelled''"
  let ?s1 = "task_exec (Cancel now stamp owner tid) s"
  have ok1: "task_ids_ok ?s1" "unat (next_task_id ?s1) \<le> unat (next_task_id s) + 1"
    using exec_ids_ok [OF ok(1), of "Cancel now stamp owner tid"] ok(2) assms(1) by auto
  have "task_fact tid (\<lambda>x. x = r) s" using ok(1) assms(3) by (rule task_fact_start) simp
  then obtain k where k: "k < unat (next_task_id s)" "tid = nth_task_id k" by (auto simp: task_fact_def)
  have same: "next_task_id ?s1 = next_task_id s" by (rule exec_next_id_other) (simp add: creates_record_def)
  have "?P r1" if "hget (tasks ?s1) tid = Some r1" for r1
  proof -
    have "map_of (tasks ?s1) \<subseteq>\<^sub>m evolved (updated_record (Cancel now stamp owner tid)) s"
      using ok(1) by (intro exec_evolved) (auto simp: creates_record_def)
    from map_le_SomeD [OF this that] have "r1 = updated_record (Cancel now stamp owner tid) tid r"
      using assms(3) by (simp add: evolved_def)
    with assms(4,5) none show ?thesis by (simp add: finish_record_def cancel_record_def)
  qed
  with k same have fact: "task_fact tid ?P ?s1"
    unfolding task_fact_def by (auto split: option.splits)
  have "task_fact tid ?P (fold task_exec ops' ?s1)"
  proof (rule run_task_fact [OF ok1(1) _ fact])
    show "unat (next_task_id ?s1) + length ops' < 2 ^ 64" using ok(2) ok1(2) same assms(1) by simp
    show "?P (updated_record op tid x)" if "op \<in> set ops'" "?P x" for op x
      using pending_kept [of x _ tid op] that assms(7) by (auto simp: list_all_iff)
  qed
  then show "fst (set_upstream_request now' tid up s') \<in> {Missing, Recorded (Some ''task cancelled'')}"
    unfolding assms(8) by (auto simp: set_upstream_request_def task_fact_def split: option.splits)
qed

theorem cancellation_not_lost_witness:
  "fst (set_upstream_request 9 ''task_1'' (UpstreamTask ''srv'' ''u1'')
     (fold task_exec [Cancel 5 ''t1'' ''alice'' ''task_1'', Fail 6 ''t2'' ''task_1'' ''late'']
       (task_exec (Create 0 ''t0'' ''alice'' ''build'' None) task_store_new)))
   \<in> {Missing, Recorded (Some ''task cancelled'')}"
proof -
  let ?s = "fold task_exec [Create 0 ''t0'' ''alice'' ''build'' None] task_store_new"
  have "map_option (\<lambda>r. (status (rec_task r), rec_owner r, upstream r, last_touched r)) (hget (tasks ?s) ''task_1'') =
      Some (Working, ''alice'', None, 0)"
    by (simp add: task_eval)
  then obtain r where r: "hget (tasks ?s) ''task_1'' = Some r" "status (rec_task r) = Working"
    "rec_owner r = ''alice''" "upstream r = None" "last_touched r = 0" by auto
  have "\<not> record_expired 5 r" using r by (simp add: task_eval)
  with cancellation_not_lost [of "[Create 0 ''t0'' ''alice'' ''build'' None]" "[Fail 6 ''t2'' ''task_1'' ''late'']"
      ?s "''task_1''" r "''alice''" 5 _ "''t1''" 9 "UpstreamTask ''srv'' ''u1''"] r
  show ?thesis by simp
qed

fun op_now :: "task_op \<Rightarrow> instant" where
  "op_now (Create now stamp owner name lease) = now"
| "op_now (CreatePassthrough now owner name ut up lease) = now"
| "op_now (Cancel now stamp owner tid) = now"
| "op_now (CacheResult now stamp owner tid result) = now"
| "op_now (Query q now owner tid) = now"
| "op_now (SyncUpstream now owner tid ut) = now"
| "op_now _ = 0"

lemma updated_record_other_owner:
  "op_owner op = Some owner \<Longrightarrow> rec_owner r \<noteq> owner \<Longrightarrow> updated_record op tid r = r"
  by (cases op) auto

lemma owner_op_keeps:
  assumes ok: "hmap_ok (tasks s)" and r: "hget (tasks s) tid = Some r" "rec_owner r \<noteq> owner"
    and live: "\<not> is_terminal (status (rec_task r))" "\<not> record_expired now r"
  shows "hget (tasks (case owned_record owner tid' (prune_expired now s) of
      Inl e \<Rightarrow> prune_expired now s
    | Inr x \<Rightarrow> (if b x then put_record tid' (f x) (prune_expired now s)
               else enforce_owner_completed_retention (put_record tid' (g x) (prune_expired now s))))) tid = Some r"
proof -
  have p: "hget (tasks (prune_expired now s)) tid = Some r" using ok r live by (simp add: prune_Some)
  have "tid \<noteq> tid'" if "owned_record owner tid' (prune_expired now s) = Inr x" for x
    using that p r(2) by (auto simp: owned_record_Inr)
  with p live(1) ok show ?thesis
    by (auto simp: tasks_put_record hm.get_ins hm.ok_ins intro!: enforce_keeps_in_flight split: sum.splits)
qed

lemma isolation_keeps:
  assumes ids: "task_ids_ok s" and op: "op_owner op = Some owner"
    and r: "hget (tasks s) tid = Some r" "rec_owner r \<noteq> owner"
    and live: "\<not> is_terminal (status (rec_task r))" "\<not> record_expired (op_now op) r"
  shows "hget (tasks (task_exec op s)) tid = Some r"
proof -
  note ok = task_ids_okD [OF ids]
  have fresh: "tid \<noteq> fresh_id s" using fresh_id_unused [OF ids] r(1) by auto
  show ?thesis
  proof (cases op)
    case (Create now stamp own name lease)
    with fresh r live ok show ?thesis
      by (auto simp: create_inner_def Let_def tasks_insert_record hm.get_ins hm.ok_ins prune_Some
          intro!: enforce_keeps_in_flight)
  next
    case (CreatePassthrough now own name ut up lease)
    with fresh r live ok show ?thesis
      by (auto simp: create_passthrough_inner_def Let_def tasks_insert_record hm.get_ins hm.ok_ins prune_Some
          intro!: enforce_keeps_in_flight)
  next
    case (Cancel now stamp own tid')
    then have "own = owner" using op by simp
    moreover have "task_exec op s = (case owned_record own tid' (prune_expired now s) of
        Inl e \<Rightarrow> prune_expired now s
      | Inr x \<Rightarrow> (if is_terminal (status (rec_task x)) then put_record tid' (x \<lparr>last_touched := now\<rparr>) (prune_expired now s)
                 else enforce_owner_completed_retention (put_record tid' (cancel_record now stamp x) (prune_expired now s))))"
      by (auto simp: Cancel mark_cancelled_def cancel_record_def Let_def split: sum.splits)
    ultimately show ?thesis using Cancel live by (simp add: owner_op_keeps [OF ok r])
  next
    case (CacheResult now stamp own tid' result)
    then have "own = owner" using op by simp
    moreover have "task_exec op s = (case owned_record own tid' (prune_expired now s) of
        Inl e \<Rightarrow> prune_expired now s
      | Inr x \<Rightarrow> enforce_owner_completed_retention
                 (put_record tid' (complete_record now stamp result x) (prune_expired now s)))"
      by (auto simp: CacheResult cache_result_for_owner_def complete_record_def Let_def split: sum.splits)
    ultimately show ?thesis
      using owner_op_keeps [OF ok r, where now = now and tid' = tid' and b = "\<lambda>x. False" and f = id and
          g = "complete_record now stamp result", unfolded if_False] CacheResult live by simp
  next
    case (SyncUpstream now own tid' ut)
    then have "own = owner" using op by simp
    moreover have "task_exec op s = (case owned_record own tid' (prune_expired now s) of
        Inl e \<Rightarrow> prune_expired now s | Inr x \<Rightarrow> put_record tid' (sync_record now ut x) (prune_expired now s))"
      by (auto simp: SyncUpstream sync_from_upstream_for_owner_def sync_record_def Let_def split: sum.splits)
    ultimately show ?thesis
      using owner_op_keeps [OF ok r, where now = now and tid' = tid' and b = "\<lambda>x. True" and
          f = "sync_record now ut" and g = id, unfolded if_True] SyncUpstream live by simp
  next
    case (CleanupOwner own)
    with op r ok show ?thesis by (simp add: hget_cleanup)
  qed (use op r live ok in \<open>simp_all add: task_query_prunes prune_Some begin_owner_create_def guard_drop_def\<close>)
qed

definition refused :: "(mcp_error + 'a) \<times> task_store \<Rightarrow> bool" where
  "refused x = (case fst x of Inl e \<Rightarrow> True | Inr v \<Rightarrow> False)"

lemma other_owner_refused:
  assumes "hmap_ok (tasks s)" "hget (tasks s) tid = Some r" "rec_owner r \<noteq> owner"
  shows "\<exists>e. owned_record owner tid (prune_expired now s) = Inl e"
  using assms by (cases "owned_record owner tid (prune_expired now s)") (auto simp: owned_record_Inr prune_Some)

text \<open>
  C24. Owners are isolated. In a store reached by any run, whatever one owner does, the record of
  another owner's task is never modified; it can only disappear by the store's own
  expiry and retention rules, which leave a running task that is not stale in place.
  Every question about that task is refused, and a listing shows the asker's own tasks only.
\<close>

theorem owner_isolation:
  assumes "Suc (length ops) < 2 ^ 64" and "s = fold task_exec ops task_store_new"
    and "hget (tasks s) tid = Some r" "rec_owner r \<noteq> owner" "op_owner op = Some owner"
  shows "hget (tasks (task_exec op s)) tid \<in> {None, Some r} \<and>
    (\<not> is_terminal (status (rec_task r)) \<and> \<not> record_expired (op_now op) r \<longrightarrow>
       hget (tasks (task_exec op s)) tid = Some r) \<and>
    refused (get_info_for_owner now owner tid s) \<and> refused (get_modern_for_owner code_json now owner tid s) \<and>
    refused (validate_owner now owner tid s) \<and> refused (upstream_for_owner now owner tid s) \<and>
    refused (get_result_for_owner now owner tid s) \<and> refused (cancel_result_for_owner now owner tid s) \<and>
    refused (mark_cancelled now stamp owner tid s) \<and> refused (cache_result_for_owner now stamp owner tid v s) \<and>
    refused (sync_from_upstream_for_owner now owner tid ut s) \<and>
    (\<forall>t \<in> set (page_tasks (fst (list_for_owner now owner cursor s))).
       \<exists>tid' r'. hget (tasks s) tid' = Some r' \<and> rec_owner r' = owner \<and> rec_task r' = t)"
proof -
  have ids: "task_ids_ok s"
    using run_ids_ok [OF new_ids_ok(1), of ops] assms(1,2) by (auto simp: new_ids_ok)
  note ok = task_ids_okD [OF ids]
  have kept: "hget (tasks (task_exec op s)) tid \<in> {None, Some r}"
  proof (cases "hget (tasks (task_exec op s)) tid")
    case (Some r')
    with ok show ?thesis
    proof (cases rule: exec_record_cases)
      case (old r0)
      then show ?thesis using assms(3-5) Some updated_record_other_owner [OF assms(5,4)] by simp
    next
      case new
      then show ?thesis using fresh_id_unused [OF ids] assms(3) by simp
    qed
  qed simp
  obtain e where e: "owned_record owner tid (prune_expired now s) = Inl e"
    using other_owner_refused [OF ok assms(3,4)] by blast
  have listing: "\<exists>tid' r'. hget (tasks s) tid' = Some r' \<and> rec_owner r' = owner \<and> rec_task r' = t"
    if "t \<in> set (page_tasks (fst (list_for_owner now owner cursor s)))" for t
  proof -
    from that have "t \<in> rec_task ` snd ` {e \<in> set (tasks (prune_expired now s)). rec_owner (snd e) = owner}"
      by (auto simp: list_for_owner_def paginate_tasks_def Let_def dest!: in_set_takeD in_set_dropD) force
    then show ?thesis using ok by (auto simp: tasks_prune hmap_mem_iff) blast
  qed
  have refusals: "refused (get_info_for_owner now owner tid s) \<and> refused (get_modern_for_owner code_json now owner tid s) \<and>
    refused (validate_owner now owner tid s) \<and> refused (upstream_for_owner now owner tid s) \<and>
    refused (get_result_for_owner now owner tid s) \<and> refused (cancel_result_for_owner now owner tid s) \<and>
    refused (mark_cancelled now stamp owner tid s) \<and> refused (cache_result_for_owner now stamp owner tid v s) \<and>
    refused (sync_from_upstream_for_owner now owner tid ut s)"
    by (simp add: refused_def get_info_for_owner_def get_modern_for_owner_def validate_owner_def
        upstream_for_owner_def get_result_for_owner_def cancel_result_for_owner_def mark_cancelled_def
        cache_result_for_owner_def sync_from_upstream_for_owner_def Let_def e)
  show ?thesis
    using kept isolation_keeps [OF ids assms(5,3,4)] listing refusals by blast
qed

theorem owner_isolation_witness:
  "hget (tasks (task_exec (CleanupOwner ''mallory'') (fold task_exec [Create 0 ''t0'' ''alice'' ''build'' None] task_store_new))) ''task_1'' =
     hget (tasks (fold task_exec [Create 0 ''t0'' ''alice'' ''build'' None] task_store_new)) ''task_1'' \<and>
   refused (get_result_for_owner 1 ''mallory'' ''task_1'' (fold task_exec [Create 0 ''t0'' ''alice'' ''build'' None] task_store_new))"
proof -
  let ?s = "fold task_exec [Create 0 ''t0'' ''alice'' ''build'' None] task_store_new"
  have "map_option (\<lambda>r. (status (rec_task r), rec_owner r, last_touched r)) (hget (tasks ?s) ''task_1'') =
      Some (Working, ''alice'', 0)"
    by (simp add: task_eval)
  then obtain r where r: "hget (tasks ?s) ''task_1'' = Some r" "status (rec_task r) = Working"
    "rec_owner r = ''alice''" "last_touched r = 0" by auto
  have "\<not> record_expired 0 r" using r by (simp add: task_eval)
  with owner_isolation [OF _ refl r(1), of "''mallory''" "CleanupOwner ''mallory''" 1] r show ?thesis by simp
qed

fun count_creates :: "task_owner \<Rightarrow> task_op \<Rightarrow> nat \<Rightarrow> nat" where
  "count_creates owner (BeginCreate o') n = (if o' = owner then Suc n else n)"
| "count_creates owner (GuardDrop o') n = (if o' = owner then n - 1 else n)"
| "count_creates owner op n = n"

definition open_creates :: "task_owner \<Rightarrow> task_op list \<Rightarrow> nat" where
  "open_creates owner ops = fold (count_creates owner) ops 0"

definition ledger_counts :: "task_owner \<Rightarrow> nat \<Rightarrow> (task_owner, owner_lifecycle_state) hmap \<Rightarrow> bool" where
  "ledger_counts owner n m \<longleftrightarrow>
     (case hget m owner of None \<Rightarrow> n = 0 | Some st \<Rightarrow> 0 < n \<and> unat (in_flight_creates st) = n)"

lemma count_creates_le: "count_creates owner op n \<le> Suc n"
  by (cases op) auto

lemma open_creates_le: "fold (count_creates owner) ops n \<le> n + length ops"
proof (induction ops arbitrary: n)
  case (Cons op ops)
  from Cons [of "count_creates owner op n"] count_creates_le [of owner op n] show ?case by simp
qed simp

lemma ledger_counts_step:
  assumes "ledger_counts owner n m" "Suc n < 2 ^ 64"
  shows "ledger_counts owner (count_creates owner op n) (ledger_update op m)"
proof (cases op)
  case (BeginCreate o')
  with assms show ?thesis
    by (auto simp: ledger_counts_def begin_create_def ledger_default_def Let_def hm.get_ins unat_word_ariths
        split: option.splits)
next
  case (GuardDrop o')
  show ?thesis
  proof (cases "o' = owner")
    case False
    then show ?thesis using GuardDrop assms(1)
      by (simp add: ledger_counts_def end_create_def Let_def hmap_get split: option.splits)
  next
    case True
    show ?thesis
    proof (cases "hget m owner")
      case None
      with True GuardDrop assms(1) show ?thesis by (simp add: ledger_counts_def end_create_def)
    next
      case (Some st)
      with assms(1) have n: "0 < n" "unat (in_flight_creates st) = n" by (simp_all add: ledger_counts_def)
      show ?thesis
      proof (cases "n = 1")
        case True
        then have "saturating_sub (in_flight_creates st) 1 = 0" using n by (simp add: saturating_sub_eq_0)
        with True Some GuardDrop \<open>o' = owner\<close> show ?thesis
          by (simp add: ledger_counts_def end_create_def hmap_get)
      next
        case False
        then have "saturating_sub (in_flight_creates st) 1 \<noteq> 0" using n by (simp add: saturating_sub_eq_0)
        moreover have "unat (saturating_sub (in_flight_creates st) 1) = n - 1" using n by (simp add: unat_saturating_sub)
        ultimately show ?thesis using n False Some GuardDrop \<open>o' = owner\<close>
          by (simp add: ledger_counts_def end_create_def hmap_get)
      qed
    qed
  qed
next
  case (CleanupOwner o')
  with assms show ?thesis
    by (auto simp: ledger_counts_def tombstone_if_in_flight_def hm.get_ins split: option.splits)
qed (use assms in simp_all)

lemma ledger_counts_run:
  "ledger_counts owner n (lifecycle s) \<Longrightarrow> n + length ops < 2 ^ 64 \<Longrightarrow>
   ledger_counts owner (fold (count_creates owner) ops n) (lifecycle (fold task_exec ops s))"
proof (induction ops arbitrary: n s)
  case (Cons op ops)
  have "ledger_counts owner (count_creates owner op n) (lifecycle (task_exec op s))"
    using Cons.prems by (simp add: exec_lifecycle ledger_counts_step)
  with Cons.IH [OF this] Cons.prems(2) count_creates_le [of owner op n] show ?case by simp
qed simp

lemma ledger_counts_reached:
  "length ops < 2 ^ 64 \<Longrightarrow> ledger_counts owner (open_creates owner ops) (lifecycle (fold task_exec ops task_store_new))"
  unfolding open_creates_def
  by (rule ledger_counts_run) (simp_all add: ledger_counts_def task_store_new_def)

definition torn_down_clean :: "task_owner \<Rightarrow> task_store \<Rightarrow> bool" where
  "torn_down_clean owner s \<longleftrightarrow>
     is_tombstoned owner (lifecycle s) \<and> (\<forall>tid r. hget (tasks s) tid = Some r \<longrightarrow> rec_owner r \<noteq> owner)"

lemma tombstone_step:
  "is_tombstoned owner m \<Longrightarrow> hget (ledger_update op m) owner \<noteq> None \<Longrightarrow> is_tombstoned owner (ledger_update op m)"
  by (cases op)
     (auto simp: is_tombstoned_def begin_create_def end_create_def tombstone_if_in_flight_def Let_def hmap_get
       split: option.splits if_splits)

lemma torn_down_clean_step:
  assumes "hmap_ok (tasks s)" "torn_down_clean owner s" "hget (lifecycle (task_exec op s)) owner \<noteq> None"
  shows "torn_down_clean owner (task_exec op s)"
proof -
  have "is_tombstoned owner (lifecycle (task_exec op s))"
    using tombstone_step assms(2,3) by (simp add: exec_lifecycle torn_down_clean_def del: not_None_eq)
  moreover have "rec_owner r \<noteq> owner" if "hget (tasks (task_exec op s)) tid = Some r" for tid r
    using assms(1) that by (cases rule: exec_record_cases) (use assms(2) in \<open>auto simp: torn_down_clean_def\<close>)
  ultimately show ?thesis by (simp add: torn_down_clean_def)
qed

lemma torn_down_clean_run:
  assumes "hmap_ok (tasks s)" "torn_down_clean owner s"
    and "\<And>k. k \<le> length ops \<Longrightarrow> hget (lifecycle (fold task_exec (take k ops) s)) owner \<noteq> None"
  shows "torn_down_clean owner (fold task_exec ops s)"
  using assms
proof (induction ops arbitrary: s)
  case (Cons op ops)
  have "torn_down_clean owner (task_exec op s)"
    using Cons.prems(1,2) Cons.prems(3) [of 1] by (intro torn_down_clean_step) simp_all
  moreover have "hget (lifecycle (fold task_exec (take k ops) (task_exec op s))) owner \<noteq> None" if "k \<le> length ops" for k
    using Cons.prems(3) [of "Suc k"] that by simp
  ultimately show ?case using Cons.IH [of "task_exec op s"] exec_hmap_ok_tasks [OF Cons.prems(1)] by simp
qed simp

lemma open_creates_positive:
  assumes "length ops < 2 ^ 64" "0 < open_creates owner ops"
  shows "\<exists>st. hget (lifecycle (fold task_exec ops task_store_new)) owner = Some st \<and> 0 < in_flight_creates st"
  using ledger_counts_reached [OF assms(1), of owner] assms(2)
  by (auto simp: ledger_counts_def word_less_nat_alt split: option.splits)

lemma cleanup_torn_down:
  assumes "hmap_ok (tasks s)" "hget (lifecycle s) owner = Some st" "0 < in_flight_creates st"
  shows "torn_down_clean owner (task_exec (CleanupOwner owner) s)"
proof -
  have "is_tombstoned owner (lifecycle (task_exec (CleanupOwner owner) s))"
    unfolding exec_lifecycle using assms(2,3)
    by (simp add: is_tombstoned_def tombstone_if_in_flight_def hm.get_ins)
  moreover have "rec_owner r \<noteq> owner" if "hget (tasks (task_exec (CleanupOwner owner) s)) tid = Some r" for tid r
    using that assms(1) by (simp add: hget_cleanup split: option.splits if_splits)
  ultimately show ?thesis by (auto simp: torn_down_clean_def)
qed

text \<open>
  C25. A torn-down owner leaves nothing behind. When an owner is cleaned up while some of its creations
  are still in flight, then as long as one of them holds its guard, whatever else happens
  the store holds no record of that owner and refuses to create one: a creation that
  resolves late cannot leave an orphan. Once the last guard is dropped the ledger
  entry is gone, so the ledger holds an entry exactly for the owners with creations in flight.
\<close>

theorem teardown_blocks_late_creates:
  assumes "Suc (length ops + length ops') < 2 ^ 64"
    and "0 < open_creates owner ops"
    and "\<And>k. k \<le> length ops' \<Longrightarrow> 0 < open_creates owner (ops @ CleanupOwner owner # take k ops')"
    and "s = fold task_exec (ops @ CleanupOwner owner # ops') task_store_new"
  shows "(\<forall>tid r. hget (tasks s) tid = Some r \<longrightarrow> rec_owner r \<noteq> owner) \<and>
    fst (create_inner now stamp owner name lease s) = Inl owner_closed_during_create_error \<and>
    fst (create_passthrough_inner now owner name ut up lease s) = Inl owner_closed_during_create_error \<and>
    (\<forall>o'. hget (lifecycle s) o' = None \<longleftrightarrow> open_creates o' (ops @ CleanupOwner owner # ops') = 0)"
proof -
  let ?s0 = "fold task_exec ops task_store_new"
  have ok: "task_ids_ok ?s0" using run_ids_ok [OF new_ids_ok(1), of ops] assms(1) by (simp add: new_ids_ok)
  obtain st where st: "hget (lifecycle ?s0) owner = Some st" "0 < in_flight_creates st"
    using open_creates_positive [of ops owner] assms(1,2) by auto
  have clean: "torn_down_clean owner (task_exec (CleanupOwner owner) ?s0)"
    using task_ids_okD [OF ok] st by (rule cleanup_torn_down)
  have "torn_down_clean owner (fold task_exec ops' (task_exec (CleanupOwner owner) ?s0))"
  proof (rule torn_down_clean_run [OF exec_hmap_ok_tasks [OF task_ids_okD [OF ok]] clean])
    fix k assume "k \<le> length ops'"
    then show "hget (lifecycle (fold task_exec (take k ops') (task_exec (CleanupOwner owner) ?s0))) owner \<noteq> None"
      using open_creates_positive [of "ops @ CleanupOwner owner # take k ops'" owner] assms(1,3) by auto
  qed
  then have "torn_down_clean owner s" by (simp add: assms(4))
  moreover have "hget (lifecycle s) o' = None \<longleftrightarrow> open_creates o' (ops @ CleanupOwner owner # ops') = 0" for o'
    using ledger_counts_reached [of "ops @ CleanupOwner owner # ops'" o'] assms(1,4)
    by (auto simp: ledger_counts_def split: option.splits)
  ultimately show ?thesis
    by (auto simp: torn_down_clean_def create_inner_def create_passthrough_inner_def)
qed

theorem teardown_blocks_late_creates_witness:
  "fst (create_inner 4 ''t'' ''alice'' ''build'' None
      (fold task_exec ([BeginCreate ''alice'', BeginCreate ''alice''] @ CleanupOwner ''alice'' #
          [GuardDrop ''alice'', Create 3 ''t'' ''alice'' ''x'' None]) task_store_new)) =
   Inl owner_closed_during_create_error"
proof -
  have "0 < open_creates ''alice'' ([BeginCreate ''alice'', BeginCreate ''alice''] @ CleanupOwner ''alice'' #
      take k [GuardDrop ''alice'', Create 3 ''t'' ''alice'' ''x'' None])" if "k \<le> 2" for k
    using that by (cases k; cases "k - 1") (auto simp: open_creates_def take_Cons split: nat.splits)
  with teardown_blocks_late_creates [of "[BeginCreate ''alice'', BeginCreate ''alice'']"
      "[GuardDrop ''alice'', Create 3 ''t'' ''alice'' ''x'' None]" "''alice''" _ 4 "''t''" "''build''" None]
  show ?thesis by (simp add: open_creates_def)
qed

end
