(* ===== verification/Task_Resources.thy ===== *)
theory Task_Resources
  imports Tasks
begin

section \<open>What the task store keeps, holds and lists\<close>

text \<open>
  The bounded resources of the task store (\<open>plug-core/src/tasks.rs\<close>): the retention of
  finished tasks per owner, the quota leases that records hold, the local work that expiry
  aborts, and the pages of a listing.
\<close>

subsection \<open>Retention\<close>

lemma distinct_terminal: "hmap_ok m \<Longrightarrow> distinct (map fst (terminal_of owner m))"
  by (simp add: terminal_of_def hmap_ok_def keys_filter_distinct)

lemma terminal_of_filter:
  "terminal_of owner (filter P m) = filter P (terminal_of owner m)"
  unfolding terminal_of_def filter_filter by (rule filter_cong) auto

lemma retention_set_of_owner:
  assumes "hmap_ok m" "e \<in> set (terminal_of owner m)"
  shows "fst e \<in> retention_set m \<longleftrightarrow> fst e \<in> set (retention_drops (stamped (terminal_of owner m)))"
proof
  assume "fst e \<in> retention_set m"
  then obtain o' where o': "fst e \<in> set (retention_drops (stamped (terminal_of o' m)))"
    by (auto simp: retention_set_def)
  then have "fst e \<in> fst ` set (stamped (terminal_of o' m))" using retention_drops_subset by blast
  then obtain e' where "e' \<in> set (terminal_of o' m)" "fst e' = fst e" by auto
  moreover from this assms have "e' = e"
    by (auto simp: terminal_of_def hmap_ok_def distinct_map inj_on_def)
  ultimately have "o' = owner" using assms(2) by (simp add: terminal_of_def)
  with o' show "fst e \<in> set (retention_drops (stamped (terminal_of owner m)))" by simp
qed (auto simp: retention_set_def)

lemma count_dropped:
  assumes "distinct (map fst xs)"
  shows "length (filter (\<lambda>e. fst e \<notin> set (retention_drops xs)) xs) =
    min (length xs) DEFAULT_MAX_COMPLETED_TASKS_PER_OWNER"
proof (cases "length xs \<le> DEFAULT_MAX_COMPLETED_TASKS_PER_OWNER")
  case True
  then show ?thesis by (simp add: retention_drops_def min_def)
next
  case False
  let ?n = "length xs - DEFAULT_MAX_COMPLETED_TASKS_PER_OWNER"
  let ?d = "map fst (take ?n (sort_key snd xs))"
  have perm: "mset (map fst (sort_key snd xs)) = mset (map fst xs)" by simp
  then have "distinct (map fst (sort_key snd xs))" using assms by (metis mset_eq_imp_distinct_iff)
  then have d: "distinct ?d" by (simp add: take_map [symmetric] distinct_take)
  have sub: "set ?d \<subseteq> set (map fst xs)" by (auto dest!: in_set_takeD intro!: rev_image_eqI)
  have "card (set (map fst (filter (\<lambda>e. fst e \<notin> set ?d) xs))) = card (set (map fst xs) - set ?d)"
    by (rule arg_cong [where f = card]) auto
  also have "\<dots> = length xs - ?n"
    using card_Diff_subset [OF _ sub] distinct_card [OF d] distinct_card [OF assms] by simp
  finally have "card (set (map fst (filter (\<lambda>e. fst e \<notin> set ?d) xs))) = DEFAULT_MAX_COMPLETED_TASKS_PER_OWNER"
    using False by simp
  moreover have "distinct (map fst (filter (\<lambda>e. fst e \<notin> set ?d) xs))" using assms by (rule keys_filter_distinct)
  ultimately have "length (filter (\<lambda>e. fst e \<notin> set ?d) xs) = DEFAULT_MAX_COMPLETED_TASKS_PER_OWNER"
    using distinct_card [of "map fst (filter (\<lambda>e. fst e \<notin> set ?d) xs)"] by simp
  with False show ?thesis by (simp add: retention_drops_def)
qed

lemma sort_key_take_le:
  assumes "x \<in> set (take n (sort_key f xs))" "y \<in> set (drop n (sort_key f xs))"
  shows "f x \<le> f y"
proof -
  have "sorted (map f (take n (sort_key f xs)) @ map f (drop n (sort_key f xs)))"
    by (simp add: map_append [symmetric] del: map_append)
  with assms show ?thesis by (auto simp: sorted_append)
qed

lemma dropped_older:
  assumes "distinct (map fst xs)" "x \<in> set xs" "y \<in> set xs"
    and "fst x \<in> set (retention_drops xs)" "fst y \<notin> set (retention_drops xs)"
  shows "snd x \<le> snd y"
proof -
  let ?n = "length xs - DEFAULT_MAX_COMPLETED_TASKS_PER_OWNER"
  from assms(4) have big: "\<not> length xs \<le> DEFAULT_MAX_COMPLETED_TASKS_PER_OWNER"
    by (auto simp: retention_drops_def split: if_splits)
  then have drops: "set (retention_drops xs) = fst ` set (take ?n (sort_key snd xs))"
    by (simp add: retention_drops_def)
  from assms(4) obtain x' where x': "x' \<in> set (take ?n (sort_key snd xs))" "fst x' = fst x"
    unfolding drops by auto
  then have "x' \<in> set xs" by (auto dest: in_set_takeD)
  with x' assms(1,2) have "x' = x" by (auto simp: distinct_map inj_on_def)
  have "y \<notin> set (take ?n (sort_key snd xs))" using assms(5) unfolding drops by auto
  then have "y \<in> set (drop ?n (sort_key snd xs))"
    using assms(3) by (metis Un_iff append_take_drop_id set_append set_sort)
  with x'(1) \<open>x' = x\<close> show ?thesis by (blast intro: sort_key_take_le)
qed

text \<open>
  Retention keeps what it should. After a retention pass over a store that any run has reached, an
  owner has as many finished tasks as before, or exactly one hundred if it had more; no
  running task is touched, and every finished task it drops was last touched no later than
  every finished task of the same owner that it keeps.
\<close>

theorem retention_keeps_recent:
  assumes "Suc (length ops) < 2 ^ 64" and "s = fold task_exec ops task_store_new"
    and "s' = enforce_owner_completed_retention s"
  shows "length (terminal_of owner (tasks s')) = min (length (terminal_of owner (tasks s))) 100 \<and>
    (\<forall>tid r. hget (tasks s) tid = Some r \<and> \<not> is_terminal (status (rec_task r)) \<longrightarrow> hget (tasks s') tid = Some r) \<and>
    (\<forall>x \<in> set (terminal_of owner (tasks s)). \<forall>y \<in> set (terminal_of owner (tasks s')).
       hget (tasks s') (fst x) = None \<longrightarrow> last_touched (snd x) \<le> last_touched (snd y))"
proof -
  have ok: "hmap_ok (tasks s)"
    using run_ids_ok [OF new_ids_ok(1), of ops] assms(1,2) by (auto simp: new_ids_ok)
  let ?t = "terminal_of owner (tasks s)"
  have dist: "distinct (map fst (stamped ?t))" using distinct_terminal [OF ok] by (simp add: comp_def)
  have kept: "terminal_of owner (tasks s') = filter (\<lambda>e. fst e \<notin> set (retention_drops (stamped ?t))) ?t"
    unfolding assms(3) tasks_enforce terminal_of_filter
    by (rule filter_cong) (simp_all add: retention_set_of_owner [OF ok])
  have "length (terminal_of owner (tasks s')) =
      length (filter (\<lambda>e. fst e \<notin> set (retention_drops (stamped ?t))) (stamped ?t))"
    unfolding kept by (simp add: filter_map comp_def)
  also have "\<dots> = min (length ?t) 100"
    using count_dropped [OF dist] by (simp add: DEFAULT_MAX_COMPLETED_TASKS_PER_OWNER_def)
  finally have count: "length (terminal_of owner (tasks s')) = min (length ?t) 100" .
  have recent: "last_touched (snd x) \<le> last_touched (snd y)"
    if x: "x \<in> set ?t" and y: "y \<in> set (terminal_of owner (tasks s'))" and gone: "hget (tasks s') (fst x) = None" for x y
  proof -
    have "(fst x, snd x) \<in> set (tasks s)" using x by (simp add: terminal_of_def)
    then have "hget (tasks s) (fst x) = Some (snd x)" unfolding hmap_mem_iff [OF ok] .
    with gone have "fst x \<in> retention_set (tasks s)"
      unfolding assms(3) hget_enforce [OF ok] by (auto split: if_splits)
    then have "fst x \<in> set (retention_drops (stamped ?t))" using retention_set_of_owner [OF ok x] by simp
    moreover have "fst y \<notin> set (retention_drops (stamped ?t))" "y \<in> set ?t" using y by (simp_all add: kept)
    ultimately show ?thesis
      using dropped_older [OF dist, of "(fst x, last_touched (snd x))" "(fst y, last_touched (snd y))"] x by auto
  qed
  show ?thesis
    using count recent enforce_keeps_in_flight [OF ok] unfolding assms(3) by blast
qed

theorem retention_keeps_recent_witness:
  "length (terminal_of ''alice'' (tasks (enforce_owner_completed_retention (fold task_exec demo_cancelled task_store_new)))) =
   min (length (terminal_of ''alice'' (tasks (fold task_exec demo_cancelled task_store_new)))) 100"
  using retention_keeps_recent [of demo_cancelled, OF _ refl refl, of "''alice''"] by (simp add: demo_cancelled_def)

subsection \<open>Leases are conserved\<close>

definition record_leases :: "(string, task_record) hmap \<Rightarrow> quota_lease multiset" where
  "record_leases m = (\<Sum>e\<in>#mset m. mset (lease_list (rec_lease (snd e))))"

definition store_leases :: "task_store \<Rightarrow> quota_lease multiset" where
  "store_leases s = record_leases (tasks s) + mset (cleanup_leases (expired_cleanup s))"

definition lease_total :: "task_store \<Rightarrow> quota_lease multiset" where
  "lease_total s = store_leases s + mset (dropped s)"

lemma record_leases_hremove:
  assumes "hmap_ok m" "hget m k = Some r"
  shows "record_leases m = record_leases (hremove k m) + mset (lease_list (rec_lease r))"
  using assms
proof (induction m)
  case (Cons e m)
  obtain k' r' where e: "e = (k', r')" by (cases e)
  show ?case
  proof (cases "k' = k")
    case True
    with Cons.prems have "hget m k = None" by (auto simp: e hmap_ok_def map_of_eq_None_iff)
    with True Cons.prems show ?thesis
      by (simp add: e record_leases_def hremove_def hremove_absent [unfolded hremove_def])
  next
    case False
    with Cons show ?thesis by (simp add: e record_leases_def hremove_def hmap_ok_def)
  qed
qed simp

lemma record_leases_hinsert_new:
  "hget m k = None \<Longrightarrow> record_leases (hinsert k r m) = record_leases m + mset (lease_list (rec_lease r))"
  unfolding record_leases_def hinsert_def by (induction m) (auto split: if_splits)

lemma record_leases_hinsert_old:
  "hget m k = Some r \<Longrightarrow> rec_lease r' = rec_lease r \<Longrightarrow> record_leases (hinsert k r' m) = record_leases m"
  unfolding record_leases_def hinsert_def by (induction m) (auto split: if_splits)

lemma cleanup_leases_append: "cleanup_leases (xs @ ys) = cleanup_leases xs @ cleanup_leases ys"
  by (simp add: cleanup_leases_def)

lemma lease_total_expire_one: "hmap_ok (tasks s) \<Longrightarrow> lease_total (expire_one tid s) = lease_total s"
  by (cases "hget (tasks s) tid")
     (auto simp: expire_one_def Let_def lease_total_def store_leases_def cleanup_leases_append
       cleanup_leases_def record_leases_hremove)

lemma lease_total_remove: "hmap_ok (tasks s) \<Longrightarrow> lease_total (remove_record tid s) = lease_total s"
  by (cases "hget (tasks s) tid")
     (auto simp: remove_record_def lease_total_def store_leases_def record_leases_hremove)

lemma lease_total_fold:
  assumes "\<And>x t. hmap_ok (tasks t) \<Longrightarrow> lease_total (f x t) = lease_total t \<and> hmap_ok (tasks (f x t))"
  shows "hmap_ok (tasks s) \<Longrightarrow> lease_total (fold f xs s) = lease_total s"
  using assms by (induction xs arbitrary: s) auto

lemma lease_total_prune: "hmap_ok (tasks s) \<Longrightarrow> lease_total (prune_expired now s) = lease_total s"
  unfolding prune_expired_def Let_def
  by (rule lease_total_fold) (auto simp: lease_total_expire_one)

lemma lease_total_fold_remove: "hmap_ok (tasks s) \<Longrightarrow> lease_total (fold remove_record ids s) = lease_total s"
  by (rule lease_total_fold) (auto simp: lease_total_remove)

lemma lease_total_enforce: "hmap_ok (tasks s) \<Longrightarrow> lease_total (enforce_owner_completed_retention s) = lease_total s"
  by (simp add: enforce_fold lease_total_fold_remove)

lemma lease_total_put:
  "hget (tasks s) tid = Some r \<Longrightarrow> rec_lease r' = rec_lease r \<Longrightarrow> lease_total (put_record tid r' s) = lease_total s"
  by (simp add: lease_total_def store_leases_def tasks_put_record record_leases_hinsert_old)

lemma lease_total_insert:
  "hget (tasks s) tid = None \<Longrightarrow> lease_total (insert_record tid r s) = lease_total s + mset (lease_list (rec_lease r))"
  by (simp add: lease_total_def store_leases_def insert_record_def remove_record_def record_leases_hinsert_new)

lemma lease_total_lifecycle [simp]:
  "lease_total (s \<lparr>lifecycle := l\<rparr>) = lease_total s" "lease_total (s \<lparr>next_task_id := n\<rparr>) = lease_total s"
  by (simp_all add: lease_total_def store_leases_def)

lemma lease_total_create:
  assumes "task_ids_ok s" "creates_record op"
  shows "lease_total (task_exec op s) = lease_total s + mset (op_lease op)"
  using create_shape [OF assms(2), of s]
proof (elim disjE exE conjE)
  fix owner assume "task_exec op s = s \<lparr>dropped := dropped s @ op_lease op\<rparr>"
  then show ?thesis by (simp add: lease_total_def store_leases_def)
next
  fix now r
  let ?s = "(prune_expired now s) \<lparr>next_task_id := next_task_id s + 1\<rparr>"
  assume r: "admitted_record op (fresh_id s) r"
    and exec: "task_exec op s = enforce_owner_completed_retention (insert_record (fresh_id s) r ?s)"
  note ok = task_ids_okD [OF assms(1)]
  have "hget (tasks ?s) (fresh_id s) = None" using fresh_id_unused [OF assms(1)] prune_None [OF ok] by simp
  then have "lease_total (insert_record (fresh_id s) r ?s) = lease_total s + mset (op_lease op)"
    using r ok by (simp add: lease_total_insert lease_total_prune admitted_record_def)
  moreover have "hmap_ok (tasks (insert_record (fresh_id s) r ?s))"
    using ok by (simp add: tasks_insert_record hm.ok_ins)
  ultimately show ?thesis by (simp add: exec lease_total_enforce)
qed

lemma lease_total_exec:
  assumes "task_ids_ok s"
  shows "lease_total (task_exec op s) = lease_total s + mset (op_lease op)"
proof (cases "creates_record op")
  case True
  with assms show ?thesis by (rule lease_total_create)
next
  case False
  note ok = task_ids_okD [OF assms]
  note simps = ok lease_total_prune lease_total_enforce lease_total_fold_remove lease_total_put
  show ?thesis
  proof (cases op)
    case TakeCleanup
    then show ?thesis
      by (simp add: take_expired_cleanup_def Let_def lease_total_def store_leases_def) (simp add: cleanup_leases_def)
  qed (use False in \<open>auto simp: simps creates_record_def begin_owner_create_def guard_drop_def task_query_prunes
      cleanup_owner_def attach_abort_handle_def set_upstream_request_def record_source_def complete_def task_fail_def
      mark_cancelled_def cache_result_for_owner_def sync_from_upstream_for_owner_def Let_def owned_record_Inr
      split: option.splits sum.splits\<close>)
qed

text \<open>
  No quota lease is lost or released twice. Along every run of the store, the leases handed in
  with creations are exactly those that records and pending cleanups still hold and those that
  have been dropped; in particular a refused creation drops its lease at once.
\<close>

theorem task_leases_conserved:
  assumes "Suc (length ops) < 2 ^ 64" and "s = fold task_exec ops task_store_new"
  shows "store_leases s + mset (dropped s) = mset (concat (map op_lease ops))"
proof -
  have "unat (next_task_id t) + length ops < 2 ^ 64 \<Longrightarrow> task_ids_ok t \<Longrightarrow>
      lease_total (fold task_exec ops t) = lease_total t + mset (concat (map op_lease ops))" for t
  proof (induction ops arbitrary: t)
    case (Cons op ops)
    have "task_ids_ok (task_exec op t)" "unat (next_task_id (task_exec op t)) \<le> unat (next_task_id t) + 1"
      using exec_ids_ok [OF Cons.prems(2), of op] Cons.prems(1) by auto
    with Cons.IH [of "task_exec op t"] Cons.prems lease_total_exec [OF Cons.prems(2), of op] show ?case by simp
  qed simp
  from this [of task_store_new] show ?thesis
    using assms by (simp add: new_ids_ok)
      (simp add: lease_total_def store_leases_def record_leases_def cleanup_leases_def task_store_new_def)
qed

definition demo_lease :: quota_lease where
  "demo_lease = \<lparr>lease_principal = StdioProcess 1, lease_resource = quota_resource.Tasks, lease_units = 1\<rparr>"

theorem task_leases_conserved_witness:
  "store_leases (fold task_exec [Create 0 ''t'' ''o'' ''x'' (Some demo_lease), CleanupOwner ''o''] task_store_new) +
   mset (dropped (fold task_exec [Create 0 ''t'' ''o'' ''x'' (Some demo_lease), CleanupOwner ''o''] task_store_new)) =
   {#demo_lease#}"
  using task_leases_conserved [of "[Create 0 ''t'' ''o'' ''x'' (Some demo_lease), CleanupOwner ''o'']", OF _ refl]
  by (simp add: lease_list_def)

subsection \<open>Pages\<close>

fun collect_pages :: "nat \<Rightarrow> task list \<Rightarrow> string option \<Rightarrow> task list option" where
  "collect_pages 0 ts cursor = None"
| "collect_pages (Suc fuel) ts cursor =
     (let page = paginate_tasks ts cursor
      in case next_cursor page of
           None \<Rightarrow> Some (page_tasks page)
         | Some c \<Rightarrow> map_option (\<lambda>rest. page_tasks page @ rest) (collect_pages fuel ts (Some c)))"

lemma collect_from:
  assumes "length ts < 2 ^ 64" "start < length ts \<or> start = 0" "length ts - start < fuel * PAGE_SIZE"
    and "cursor = Some (show_nat start) \<or> cursor = None \<and> start = 0"
  shows "collect_pages fuel ts cursor = Some (drop start ts)"
  using assms
proof (induction fuel arbitrary: start cursor)
  case (Suc fuel)
  have start: "(case Option.bind cursor parse_usize of None \<Rightarrow> 0 | Some i \<Rightarrow> if i < length ts then i else 0) = start"
    using Suc.prems(1,2,4) by (auto simp: parse_show_nat)
  show ?case
  proof (cases "start + PAGE_SIZE < length ts")
    case True
    then have "collect_pages fuel ts (Some (show_nat (start + PAGE_SIZE))) = Some (drop (start + PAGE_SIZE) ts)"
      using Suc.prems by (intro Suc.IH) auto
    moreover have "take PAGE_SIZE (drop start ts) @ drop (start + PAGE_SIZE) ts = drop start ts"
      by (metis add.commute append_take_drop_id drop_drop)
    ultimately show ?thesis using True by (simp add: paginate_tasks_def Let_def start)
  next
    case False
    then show ?thesis by (simp add: paginate_tasks_def Let_def start)
  qed
qed simp

text \<open>
  Following the cursors of a listing visits every task exactly once, in order, and ends: the
  pages from the first on concatenate to the whole list, after at most one page
  per five hundred tasks and one.
\<close>

theorem pages_cover_listing:
  assumes "length ts < 2 ^ 64"
  shows "collect_pages (length ts div 500 + 1) ts None = Some ts"
proof -
  have "length ts < (length ts div 500 + 1) * 500"
    using div_mult_mod_eq [of "length ts" 500] mod_less_divisor [of 500 "length ts"]
    by (simp add: add.commute)
  then show ?thesis using assms collect_from [of ts 0 "length ts div 500 + 1" None] by (simp add: PAGE_SIZE_def)
qed

theorem pages_cover_listing_witness:
  "collect_pages 1 [task_new ''task_1'' Working ''t'' ''t''] None = Some [task_new ''task_1'' Working ''t'' ''t'']"
  using pages_cover_listing [of "[task_new ''task_1'' Working ''t'' ''t'']"] by simp

end
