(* ===== verification/Sessions.thy ===== *)
theory Sessions
  imports Json "HOL-Library.Multiset"
begin

section \<open>Downstream HTTP sessions\<close>

text \<open>
  Models \<open>plug-core/src/session/stateful.rs\<close> and the types of \<open>session/mod.rs\<close>: the sessions
  of HTTP clients, the events queued for them while no stream is open, the replay
  buffer behind \<open>Last-Event-Id\<close>, and admission under a session limit. A \<open>DashMap\<close> is
  a hash map whose operations on one entry are atomic. Two-phase operations are modelled
  phase by phase (\<open>try_send_begin\<close> and the two continuations), so that other
  operations can come between.

  Tokio's bounded channel is a parameter: \<open>try_send\<close> and \<open>is_closed\<close> act on a world that
  the store does not look into, and \<open>channel_laws\<close> is what the documentation
  promises of them, in terms of the events \<open>received\<close> on a channel. Two senders are the
  same channel when they are equal. The check of a client's access is a number
  whose answer at the time of the call is the argument \<open>ask\<close>, and clock, UUID and the
  UUID syntax check are arguments. Ids sent to the expiry listener are
  logged in the ghost field \<open>expiry_sent\<close>.
\<close>

subsection \<open>Data\<close>

datatype sse_replay_key = ReverseRequest int

record sse_message =
  serialized :: string
  replay_key :: "sse_replay_key option"

record sse_event =
  event_id :: u64
  message :: sse_message

datatype session_send_outcome = Delivered | Queued | SessionNotFoundOutcome

datatype broadcast_kind = ToolList | ResourceList | PromptList | LoggingBroadcast

record broadcast_audience =
  aud_tools :: bool
  aud_resources :: bool
  aud_prompts :: bool
  aud_logging :: bool

definition audience_default :: broadcast_audience where
  "audience_default = \<lparr>aud_tools = False, aud_resources = False, aud_prompts = False, aud_logging = False\<rparr>"

definition audience_unrestricted :: broadcast_audience where
  "audience_unrestricted = \<lparr>aud_tools = True, aud_resources = True, aud_prompts = True, aud_logging = True\<rparr>"

fun admits :: "broadcast_audience \<Rightarrow> broadcast_kind \<Rightarrow> bool" where
  "admits a ToolList = aud_tools a"
| "admits a ResourceList = aud_resources a"
| "admits a PromptList = aud_prompts a"
| "admits a LoggingBroadcast = aud_logging a"

datatype http_error = SessionNotFound | TooManySessions

datatype client_type =
    ClaudeCode | ClaudeDesktop | Cursor | Devin | VSCodeCopilot | CopilotCli | GeminiCli | CodexCli
  | GrokBuild | GrokBot | OpenCode | Zed | UnknownClient

type_synonym access_check = nat

record 'c session_state =
  last_activity :: instant
  session_created_at :: instant
  sse_sender :: "'c option"
  pending_notifications :: "sse_event list"
  replay_events :: "sse_event list"
  next_event_id :: u64
  session_client_type :: client_type
  grant :: "string option"
  still_allowed :: "access_check option"
  audience :: broadcast_audience
  reopened :: bool

record 'c session_store =
  sessions :: "(string, 'c session_state) hmap"
  max_sessions :: nat
  timeout :: duration
  expiry_notifier :: bool
  closed :: "string list"
  expiry_sent :: "string list"

definition CLOSED_SESSIONS_KEPT :: nat where "CLOSED_SESSIONS_KEPT = 512"
definition PENDING_LIMIT :: nat where "PENDING_LIMIT = 32"
definition REPLAY_LIMIT :: nat where "REPLAY_LIMIT = 128"

definition session_store_new :: "nat \<Rightarrow> nat \<Rightarrow> 'c session_store" where
  "session_store_new timeout_secs max_count =
     \<lparr>sessions = [], max_sessions = max_count, timeout = secs timeout_secs, expiry_notifier = False,
      closed = [], expiry_sent = []\<rparr>"

definition with_expiry_notifier :: "'c session_store \<Rightarrow> 'c session_store" where
  "with_expiry_notifier s = s \<lparr>expiry_notifier := True\<rparr>"

subsection \<open>The channel\<close>

datatype try_send_result = SendOk | SendClosed | SendFull

record ('c, 'w) channel_ops =
  try_send :: "'c \<Rightarrow> sse_event \<Rightarrow> 'w \<Rightarrow> try_send_result \<times> 'w"
  is_closed :: "'c \<Rightarrow> 'w \<Rightarrow> bool"

definition channel_laws :: "('c, 'w) channel_ops \<Rightarrow> ('w \<Rightarrow> 'c \<Rightarrow> sse_event list) \<Rightarrow> bool" where
  "channel_laws C received \<longleftrightarrow>
     (\<forall>c e w. case try_send C c e w of
        (SendOk, w') \<Rightarrow> received w' = (received w)(c := received w c @ [e])
      | (_, w') \<Rightarrow> received w' = received w)"

subsection \<open>One session\<close>

definition access_ended :: "(access_check \<Rightarrow> bool) \<Rightarrow> 'c session_state \<Rightarrow> bool" where
  "access_ended ask st = (case still_allowed st of None \<Rightarrow> False | Some c \<Rightarrow> \<not> ask c)"

definition enqueue_pending :: "sse_event \<Rightarrow> 'c session_state \<Rightarrow> 'c session_state" where
  "enqueue_pending e st =
     st \<lparr>pending_notifications := push_bounded PENDING_LIMIT e (pending_notifications st)\<rparr>"

definition requeue_front :: "sse_event list \<Rightarrow> 'c session_state \<Rightarrow> 'c session_state" where
  "requeue_front es st = st \<lparr>pending_notifications := es @ pending_notifications st\<rparr>"

definition enqueue_replay :: "sse_event \<Rightarrow> 'c session_state \<Rightarrow> 'c session_state" where
  "enqueue_replay e st =
     st \<lparr>replay_events := push_bounded REPLAY_LIMIT e (replay_events st)\<rparr>"

definition next_event :: "sse_message \<Rightarrow> 'c session_state \<Rightarrow> sse_event \<times> 'c session_state" where
  "next_event m st =
     (let e = \<lparr>event_id = next_event_id st, message = m\<rparr>
      in (e, enqueue_replay e (st \<lparr>next_event_id := saturating_add (next_event_id st) 1\<rparr>)))"

definition new_session :: "instant \<Rightarrow> 'c session_state" where
  "new_session now =
     \<lparr>last_activity = now, session_created_at = now, sse_sender = None, pending_notifications = [],
      replay_events = [], next_event_id = 1, session_client_type = UnknownClient, grant = None,
      still_allowed = None, audience = audience_default, reopened = False\<rparr>"

definition insert_new :: "instant \<Rightarrow> string \<Rightarrow> 'c session_store \<Rightarrow> 'c session_store" where
  "insert_new now sid s = s \<lparr>sessions := hinsert sid (new_session now) (sessions s)\<rparr>"

definition session_expired :: "instant \<Rightarrow> 'c session_store \<Rightarrow> 'c session_state \<Rightarrow> bool" where
  "session_expired now s st = (timeout s < elapsed now (last_activity st))"

definition put_session :: "string \<Rightarrow> 'c session_state \<Rightarrow> 'c session_store \<Rightarrow> 'c session_store" where
  "put_session sid st s = s \<lparr>sessions := hinsert sid st (sessions s)\<rparr>"

subsection \<open>Ending sessions\<close>

definition notify_expiry :: "string \<Rightarrow> 'c session_store \<Rightarrow> 'c session_store" where
  "notify_expiry sid s = (if expiry_notifier s then s \<lparr>expiry_sent := expiry_sent s @ [sid]\<rparr> else s)"

definition remove_if_expired :: "instant \<Rightarrow> string \<Rightarrow> 'c session_store \<Rightarrow> bool \<times> 'c session_store" where
  "remove_if_expired now sid s =
     (case hget (sessions s) sid of
        None \<Rightarrow> (False, s)
      | Some st \<Rightarrow>
          (if session_expired now s st
           then (True, notify_expiry sid (s \<lparr>sessions := hremove sid (sessions s)\<rparr>))
           else (False, s)))"

text \<open>\<open>ids.iter().filter(|id| f(id)).count()\<close> for an \<open>f\<close> with an effect on the store.\<close>

definition count_where :: "(string \<Rightarrow> 's \<Rightarrow> bool \<times> 's) \<Rightarrow> string list \<Rightarrow> 's \<Rightarrow> nat \<times> 's" where
  "count_where f ids s =
     fold (\<lambda>sid (n, s). case f sid s of (b, s') \<Rightarrow> (if b then Suc n else n, s')) ids (0, s)"

definition prune_expired_sessions :: "instant \<Rightarrow> 'c session_store \<Rightarrow> nat \<times> 'c session_store" where
  "prune_expired_sessions now s =
     count_where (remove_if_expired now) (map fst (filter (\<lambda>(sid, st). session_expired now s st) (sessions s))) s"

definition end_session :: "string \<Rightarrow> 'c session_store \<Rightarrow> bool \<times> 'c session_store" where
  "end_session sid s =
     (case hget (sessions s) sid of
        None \<Rightarrow> (False, s)
      | Some st \<Rightarrow> (True, notify_expiry sid (s \<lparr>sessions := hremove sid (sessions s)\<rparr>)))"

definition remember_closed :: "string \<Rightarrow> string list \<Rightarrow> string list" where
  "remember_closed sid q = (if length q = CLOSED_SESSIONS_KEPT then tl q else q) @ [sid]"

definition remove_session :: "string \<Rightarrow> 'c session_store \<Rightarrow> bool \<times> 'c session_store" where
  "remove_session sid s =
     (case hget (sessions s) sid of
        None \<Rightarrow> (False, s)
      | Some st \<Rightarrow>
          (True, s \<lparr>sessions := hremove sid (sessions s),
                    closed := remember_closed sid (closed s)\<rparr>))"

definition end_sessions_of :: "string \<Rightarrow> 'c session_store \<Rightarrow> nat \<times> 'c session_store" where
  "end_sessions_of client s =
     count_where end_session (map fst (filter (\<lambda>(sid, st). grant st = Some client) (sessions s))) s"

subsection \<open>Admission\<close>

definition QUIET_FOR :: duration where "QUIET_FOR = secs 60"

text \<open>\<open>min_by_key\<close> keeps the first of several least elements.\<close>

fun quietest :: "(string \<times> 'c session_state) list \<Rightarrow> (string \<times> 'c session_state) option" where
  "quietest [] = None"
| "quietest (e # es) =
     (case quietest es of
        None \<Rightarrow> Some e
      | Some e' \<Rightarrow> if last_activity (snd e) \<le> last_activity (snd e') then Some e else Some e')"

definition is_quiet :: "('c, 'w) channel_ops \<Rightarrow> 'w \<Rightarrow> instant \<Rightarrow> 'c session_state \<Rightarrow> bool" where
  "is_quiet C w now st \<longleftrightarrow>
     (case sse_sender st of None \<Rightarrow> True | Some c \<Rightarrow> is_closed C c w) \<and> QUIET_FOR \<le> elapsed now (last_activity st)"

definition make_room :: "('c, 'w) channel_ops \<Rightarrow> 'w \<Rightarrow> instant \<Rightarrow> 'c session_store \<Rightarrow> bool \<times> 'c session_store" where
  "make_room C w now s0 =
     (let s = snd (prune_expired_sessions now s0)
      in if length (sessions s) < max_sessions s then (True, s)
         else
           (case quietest (filter (\<lambda>(sid, st). is_quiet C w now st) (sessions s)) of
              None \<Rightarrow> (False, s)
            | Some (sid, st) \<Rightarrow>
                (let s' = notify_expiry sid (s \<lparr>sessions := hremove sid (sessions s)\<rparr>)
                 in (length (sessions s') < max_sessions s', s'))))"

definition create_session ::
  "('c, 'w) channel_ops \<Rightarrow> 'w \<Rightarrow> instant \<Rightarrow> string \<Rightarrow> 'c session_store \<Rightarrow> (http_error + string) \<times> 'c session_store" where
  "create_session C w now new_uuid s0 =
     (case make_room C w now s0 of
        (False, s) \<Rightarrow> (Inl TooManySessions, s)
      | (True, s) \<Rightarrow> (Inr new_uuid, insert_new now new_uuid s))"

definition reopen_session ::
  "('c, 'w) channel_ops \<Rightarrow> (string \<Rightarrow> bool) \<Rightarrow> 'w \<Rightarrow> instant \<Rightarrow> string \<Rightarrow> 'c session_store \<Rightarrow>
   (http_error + bool) \<times> 'c session_store" where
  "reopen_session C is_uuid w now sid s0 =
     (if \<not> is_uuid sid then (Inl SessionNotFound, s0)
      else
        (let s1 = snd (prune_expired_sessions now s0)
         in if hget (sessions s1) sid \<noteq> None then (Inr False, s1)
            else if sid \<in> set (closed s1) then (Inl SessionNotFound, s1)
            else
              (case make_room C w now s1 of
                 (False, s2) \<Rightarrow> (Inl TooManySessions, s2)
               | (True, s2) \<Rightarrow>
                   (let s3 = insert_new now sid s2
                    in (Inr True,
                        (case hget (sessions s3) sid of
                           None \<Rightarrow> s3 | Some st \<Rightarrow> put_session sid (st \<lparr>reopened := True\<rparr>) s3))))))"

subsection \<open>Using a session\<close>

definition with_live_session_mut ::
  "(access_check \<Rightarrow> bool) \<Rightarrow> instant \<Rightarrow> string \<Rightarrow> ('c session_state \<Rightarrow> 'r \<times> 'c session_state) \<Rightarrow>
   'c session_store \<Rightarrow> (http_error + 'r) \<times> 'c session_store" where
  "with_live_session_mut ask now sid f s =
     (case hget (sessions s) sid of
        None \<Rightarrow> (Inl SessionNotFound, s)
      | Some st \<Rightarrow>
          (if session_expired now s st then (Inl SessionNotFound, snd (remove_if_expired now sid s))
           else if access_ended ask st then (Inl SessionNotFound, snd (end_session sid s))
           else (case f st of (r, st') \<Rightarrow> (Inr r, put_session sid st' s))))"

definition validate ::
  "(access_check \<Rightarrow> bool) \<Rightarrow> instant \<Rightarrow> string \<Rightarrow> 'c session_store \<Rightarrow> (http_error + unit) \<times> 'c session_store" where
  "validate ask now sid = with_live_session_mut ask now sid (\<lambda>st. ((), st \<lparr>last_activity := now\<rparr>))"

definition has_live_sse_sender ::
  "(access_check \<Rightarrow> bool) \<Rightarrow> instant \<Rightarrow> string \<Rightarrow> 'c session_store \<Rightarrow> (http_error + bool) \<times> 'c session_store" where
  "has_live_sse_sender ask now sid = with_live_session_mut ask now sid (\<lambda>st. (sse_sender st \<noteq> None, st))"

definition update_session ::
  "string \<Rightarrow> ('c session_state \<Rightarrow> 'c session_state) \<Rightarrow> 'c session_store \<Rightarrow> (http_error + unit) \<times> 'c session_store" where
  "update_session sid f s =
     (case hget (sessions s) sid of
        None \<Rightarrow> (Inl SessionNotFound, s)
      | Some st \<Rightarrow> (Inr (), put_session sid (f st) s))"

definition set_client_type ::
  "string \<Rightarrow> client_type \<Rightarrow> 'c session_store \<Rightarrow> (http_error + unit) \<times> 'c session_store" where
  "set_client_type sid t = update_session sid (\<lambda>st. st \<lparr>session_client_type := t\<rparr>)"

definition set_grant :: "string \<Rightarrow> string \<Rightarrow> 'c session_store \<Rightarrow> (http_error + unit) \<times> 'c session_store" where
  "set_grant sid client = update_session sid (\<lambda>st. st \<lparr>grant := Some client\<rparr>)"

definition set_access_check ::
  "string \<Rightarrow> access_check \<Rightarrow> 'c session_store \<Rightarrow> (http_error + unit) \<times> 'c session_store" where
  "set_access_check sid check = update_session sid (\<lambda>st. st \<lparr>still_allowed := Some check\<rparr>)"

definition set_broadcast_audience ::
  "string \<Rightarrow> broadcast_audience \<Rightarrow> 'c session_store \<Rightarrow> (http_error + unit) \<times> 'c session_store" where
  "set_broadcast_audience sid a = update_session sid (\<lambda>st. st \<lparr>audience := a\<rparr>)"

definition get_client_type :: "string \<Rightarrow> 'c session_store \<Rightarrow> http_error + client_type" where
  "get_client_type sid s =
     (case hget (sessions s) sid of None \<Rightarrow> Inl SessionNotFound | Some st \<Rightarrow> Inr (session_client_type st))"

definition grant_of :: "string \<Rightarrow> 'c session_store \<Rightarrow> string option" where
  "grant_of sid s = Option.bind (hget (sessions s) sid) grant"

definition remove_replay_events_by_key :: "string \<Rightarrow> sse_replay_key \<Rightarrow> 'c session_store \<Rightarrow> 'c session_store" where
  "remove_replay_events_by_key sid key s =
     (case hget (sessions s) sid of
        None \<Rightarrow> s
      | Some st \<Rightarrow>
          put_session sid
            (st \<lparr>replay_events := filter (\<lambda>e. replay_key (message e) \<noteq> Some key) (replay_events st),
                 pending_notifications := filter (\<lambda>e. replay_key (message e) \<noteq> Some key) (pending_notifications st)\<rparr>) s)"

record session_snapshot =
  snap_id :: string
  snap_client_type :: client_type
  snap_grant :: "string option"
  connected_seconds :: nat
  idle_seconds :: nat
  timeout_seconds :: nat

definition list_sessions :: "instant \<Rightarrow> 'c session_store \<Rightarrow> session_snapshot list" where
  "list_sessions now s =
     sort_key snap_id
       (map (\<lambda>(sid, st). \<lparr>snap_id = sid, snap_client_type = session_client_type st, snap_grant = grant st,
                          connected_seconds = elapsed now (session_created_at st) div secs 1,
                          idle_seconds = elapsed now (last_activity st) div secs 1,
                          timeout_seconds = timeout s div secs 1\<rparr>)
         (filter (\<lambda>(sid, st). \<not> session_expired now s st) (sessions s)))"

subsection \<open>Opening a stream\<close>

fun replay_loop ::
  "('c, 'w) channel_ops \<Rightarrow> instant \<Rightarrow> 'c \<Rightarrow> bool \<Rightarrow> sse_event list \<Rightarrow> u64 option \<Rightarrow>
   'c session_state \<Rightarrow> 'w \<Rightarrow> u64 option \<times> 'c session_state \<times> 'w" where
  "replay_loop C now c from_pending [] sent_through st w = (sent_through, st, w)"
| "replay_loop C now c from_pending (e # es) sent_through st w =
     (case try_send C c e w of
        (SendOk, w') \<Rightarrow> replay_loop C now c from_pending es (Some (event_id e)) (st \<lparr>last_activity := now\<rparr>) w'
      | (_, w') \<Rightarrow>
          (sent_through,
           (if from_pending then requeue_front (e # es) st else enqueue_pending e st) \<lparr>sse_sender := None\<rparr>, w'))"

definition send_replay_events ::
  "('c, 'w) channel_ops \<Rightarrow> instant \<Rightarrow> 'c \<Rightarrow> u64 option \<Rightarrow> 'c session_state \<Rightarrow> 'w \<Rightarrow> 'c session_state \<times> 'w" where
  "send_replay_events C now c last_event_id st w =
     (case (case last_event_id of
              Some last_id \<Rightarrow> (filter (\<lambda>e. last_id < event_id e) (replay_events st), st)
            | None \<Rightarrow> (pending_notifications st, st \<lparr>pending_notifications := []\<rparr>)) of
        (events, st1) \<Rightarrow>
          (case replay_loop C now c (last_event_id = None) events last_event_id st1 w of
             (sent_through, st2, w') \<Rightarrow>
               ((case sent_through of
                   None \<Rightarrow> st2
                 | Some sent_id \<Rightarrow>
                     st2 \<lparr>pending_notifications := filter (\<lambda>e. sent_id < event_id e) (pending_notifications st2)\<rparr>), w')))"

definition honoured_event_id :: "u64 option \<Rightarrow> 'c session_state \<Rightarrow> u64 option" where
  "honoured_event_id last_event_id st =
     (if reopened st then None
      else (case last_event_id of None \<Rightarrow> None | Some i \<Rightarrow> if i < next_event_id st then Some i else None))"

definition set_sse_sender ::
  "('c, 'w) channel_ops \<Rightarrow> instant \<Rightarrow> string \<Rightarrow> 'c \<Rightarrow> u64 option \<Rightarrow> 'c session_store \<Rightarrow> 'w \<Rightarrow>
   (http_error + unit) \<times> 'c session_store \<times> 'w" where
  "set_sse_sender C now sid c last_event_id s w =
     (case hget (sessions s) sid of
        None \<Rightarrow> (Inl SessionNotFound, s, w)
      | Some st \<Rightarrow>
          (let st1 = st \<lparr>last_activity := now, sse_sender := Some c, reopened := False\<rparr>
           in case send_replay_events C now c (honoured_event_id last_event_id st) st1 w of
                (st2, w') \<Rightarrow> (Inr (), put_session sid st2 s, w')))"

subsection \<open>Sending to one session\<close>

text \<open>
  \<open>try_send_to_session\<close> lets go of the entry between finding the sender unusable and putting the event
  away. \<open>try_send_begin\<close> is the part up to that point, and its result says what is left to do.
\<close>

datatype 'c send_phase =
    Done session_send_outcome
  | ClearSender 'c "sse_event option"
  | EnqueueOrDeliver sse_event

definition try_send_begin ::
  "('c, 'w) channel_ops \<Rightarrow> (access_check \<Rightarrow> bool) \<Rightarrow> instant \<Rightarrow> string \<Rightarrow> sse_message \<Rightarrow> bool \<Rightarrow>
   'c session_store \<Rightarrow> 'w \<Rightarrow> 'c send_phase \<times> 'c session_store \<times> 'w" where
  "try_send_begin C ask now sid m queue_if_unavailable s w =
     (case hget (sessions s) sid of
        None \<Rightarrow> (Done SessionNotFoundOutcome, s, w)
      | Some st \<Rightarrow>
          (if session_expired now s st
           then (Done SessionNotFoundOutcome, snd (remove_if_expired now sid s), w)
           else if access_ended ask st
           then (Done SessionNotFoundOutcome, snd (end_session sid s), w)
           else
             (case sse_sender st of
                Some c \<Rightarrow>
                  (case next_event m st of
                     (e, st1) \<Rightarrow>
                       (case try_send C c e w of
                          (SendOk, w') \<Rightarrow> (Done Delivered, put_session sid (st1 \<lparr>last_activity := now\<rparr>) s, w')
                        | (_, w') \<Rightarrow>
                            (ClearSender c (if queue_if_unavailable then Some e else None), put_session sid st1 s, w')))
              | None \<Rightarrow>
                  (if queue_if_unavailable
                   then (case next_event m st of (e, st1) \<Rightarrow> (EnqueueOrDeliver e, put_session sid st1 s, w))
                   else (Done SessionNotFoundOutcome, s, w)))))"

text \<open>Delivery on the sender that is there now, else the pending queue.\<close>

definition deliver_or_queue ::
  "('c, 'w) channel_ops \<Rightarrow> instant \<Rightarrow> sse_event \<Rightarrow> 'c session_state \<Rightarrow> 'w \<Rightarrow> bool \<times> 'c session_state \<times> 'w" where
  "deliver_or_queue C now e st w =
     (case sse_sender st of
        Some c \<Rightarrow>
          (case try_send C c e w of
             (SendOk, w') \<Rightarrow> (True, st \<lparr>last_activity := now\<rparr>, w')
           | (_, w') \<Rightarrow> (False, enqueue_pending e st, w'))
      | None \<Rightarrow> (False, enqueue_pending e st, w))"

definition enqueue_or_deliver_racy ::
  "('c, 'w) channel_ops \<Rightarrow> instant \<Rightarrow> string \<Rightarrow> sse_event \<Rightarrow> 'c session_store \<Rightarrow> 'w \<Rightarrow> bool \<times> 'c session_store \<times> 'w" where
  "enqueue_or_deliver_racy C now sid e s w =
     (case hget (sessions s) sid of
        None \<Rightarrow> (False, s, w)
      | Some st \<Rightarrow>
          (case deliver_or_queue C now e st w of (delivered, st', w') \<Rightarrow> (delivered, put_session sid st' s, w')))"

definition clear_sender_if_matching ::
  "('c, 'w) channel_ops \<Rightarrow> instant \<Rightarrow> string \<Rightarrow> 'c option \<Rightarrow> sse_event option \<Rightarrow> 'c session_store \<Rightarrow> 'w \<Rightarrow>
   'c session_store \<times> 'w" where
  "clear_sender_if_matching C now sid failed_sender queue_event s w =
     (case hget (sessions s) sid of
        None \<Rightarrow> (s, w)
      | Some st \<Rightarrow>
          (if sse_sender st \<noteq> None \<and> sse_sender st = failed_sender
           then
             (let st1 = st \<lparr>sse_sender := None\<rparr>
              in (put_session sid (case queue_event of None \<Rightarrow> st1 | Some e \<Rightarrow> enqueue_pending e st1) s, w))
           else
             (case queue_event of
                None \<Rightarrow> (s, w)
              | Some e \<Rightarrow>
                  (case deliver_or_queue C now e st w of (delivered, st', w') \<Rightarrow> (put_session sid st' s, w')))))"

definition try_send_finish ::
  "('c, 'w) channel_ops \<Rightarrow> instant \<Rightarrow> string \<Rightarrow> 'c send_phase \<Rightarrow> 'c session_store \<Rightarrow> 'w \<Rightarrow>
   session_send_outcome \<times> 'c session_store \<times> 'w" where
  "try_send_finish C now sid phase s w =
     (case phase of
        Done out \<Rightarrow> (out, s, w)
      | ClearSender c queue_event \<Rightarrow>
          (case clear_sender_if_matching C now sid (Some c) queue_event s w of
             (s', w') \<Rightarrow> (if queue_event = None then SessionNotFoundOutcome else Queued, s', w'))
      | EnqueueOrDeliver e \<Rightarrow>
          (case enqueue_or_deliver_racy C now sid e s w of
             (delivered, s', w') \<Rightarrow> (if delivered then Delivered else Queued, s', w')))"

definition try_send_to_session ::
  "('c, 'w) channel_ops \<Rightarrow> (access_check \<Rightarrow> bool) \<Rightarrow> instant \<Rightarrow> string \<Rightarrow> sse_message \<Rightarrow> bool \<Rightarrow>
   'c session_store \<Rightarrow> 'w \<Rightarrow> session_send_outcome \<times> 'c session_store \<times> 'w" where
  "try_send_to_session C ask now sid m queue_if_unavailable s w =
     (case try_send_begin C ask now sid m queue_if_unavailable s w of
        (phase, s1, w1) \<Rightarrow> try_send_finish C now sid phase s1 w1)"

definition send_to_live_session ::
  "('c, 'w) channel_ops \<Rightarrow> (access_check \<Rightarrow> bool) \<Rightarrow> instant \<Rightarrow> string \<Rightarrow> sse_message \<Rightarrow>
   'c session_store \<Rightarrow> 'w \<Rightarrow> session_send_outcome \<times> 'c session_store \<times> 'w" where
  "send_to_live_session C ask now sid m = try_send_to_session C ask now sid m True"

subsection \<open>Broadcast\<close>

definition broadcast_one ::
  "('c, 'w) channel_ops \<Rightarrow> (access_check \<Rightarrow> bool) \<Rightarrow> instant \<Rightarrow> sse_message \<Rightarrow> broadcast_kind \<Rightarrow>
   (string option \<Rightarrow> bool) \<Rightarrow> string \<Rightarrow> (string list \<times> string list) \<times> 'c session_store \<times> 'w \<Rightarrow>
   (string list \<times> string list) \<times> 'c session_store \<times> 'w" where
  "broadcast_one C ask now m kind allowed sid acc =
     (case acc of ((expired, ended), s, w) \<Rightarrow>
        (case hget (sessions s) sid of
           None \<Rightarrow> acc
         | Some st \<Rightarrow>
             (if session_expired now s st then ((expired @ [sid], ended), s, w)
              else if access_ended ask st then ((expired, ended @ [sid]), s, w)
              else if \<not> admits (audience st) kind \<or> \<not> allowed (grant st) then acc
              else
                (case next_event m st of
                   (e, st1) \<Rightarrow>
                     (case sse_sender st1 of
                        Some c \<Rightarrow>
                          (case try_send C c e w of
                             (SendOk, w') \<Rightarrow> ((expired, ended), put_session sid (st1 \<lparr>last_activity := now\<rparr>) s, w')
                           | (_, w') \<Rightarrow>
                               ((expired, ended), put_session sid (enqueue_pending e (st1 \<lparr>sse_sender := None\<rparr>)) s, w'))
                      | None \<Rightarrow> ((expired, ended), put_session sid (enqueue_pending e st1) s, w))))))"

definition broadcast_where ::
  "('c, 'w) channel_ops \<Rightarrow> (access_check \<Rightarrow> bool) \<Rightarrow> instant \<Rightarrow> sse_message \<Rightarrow> broadcast_kind \<Rightarrow>
   (string option \<Rightarrow> bool) \<Rightarrow> 'c session_store \<Rightarrow> 'w \<Rightarrow> 'c session_store \<times> 'w" where
  "broadcast_where C ask now m kind allowed s w =
     (case fold (broadcast_one C ask now m kind allowed) (map fst (sessions s)) (([], []), s, w) of
        ((expired, ended), s1, w1) \<Rightarrow>
          (fold (\<lambda>sid s. snd (end_session sid s)) ended
             (fold (\<lambda>sid s. snd (remove_if_expired now sid s)) expired s1), w1))"

subsection \<open>The queues are bounded\<close>

interpretation pending_q: bounded_queue "push_bounded PENDING_LIMIT" PENDING_LIMIT
  by (rule push_bounded_queue) (simp add: PENDING_LIMIT_def)

interpretation replay_q: bounded_queue "push_bounded REPLAY_LIMIT" REPLAY_LIMIT
  by (rule push_bounded_queue) (simp add: REPLAY_LIMIT_def)

interpretation closed_q: bounded_queue remember_closed CLOSED_SESSIONS_KEPT
  by unfold_locales (auto simp: remember_closed_def CLOSED_SESSIONS_KEPT_def)

subsection \<open>Well-formed sessions\<close>

text \<open>
  Event ids are unique until the counter saturates: the replay buffer is strictly increasing
  and every id in the session is below the next one.
\<close>

definition ids_ok :: "'c session_state \<Rightarrow> bool" where
  "ids_ok st \<longleftrightarrow> next_event_id st = - 1 \<or>
     (sorted_wrt (<) (map event_id (replay_events st)) \<and>
      (\<forall>e \<in> set (replay_events st) \<union> set (pending_notifications st). event_id e < next_event_id st))"

definition state_ok :: "'c session_state \<Rightarrow> bool" where
  "state_ok st \<longleftrightarrow> length (pending_notifications st) \<le> PENDING_LIMIT \<and>
     length (replay_events st) \<le> REPLAY_LIMIT \<and> ids_ok st"

definition event_known :: "sse_event \<Rightarrow> 'c session_state \<Rightarrow> bool" where
  "event_known e st \<longleftrightarrow> next_event_id st = - 1 \<or> event_id e < next_event_id st"

lemma set_push_bounded: "set (push_bounded n x q) \<subseteq> insert x (set q)"
  by (cases q) (auto simp: push_bounded_def)

lemma enqueue_pending_ok: "state_ok st \<Longrightarrow> event_known e st \<Longrightarrow> state_ok (enqueue_pending e st)"
  using set_push_bounded [of PENDING_LIMIT e "pending_notifications st"]
  by (auto simp: state_ok_def ids_ok_def event_known_def enqueue_pending_def pending_q.push_bounded_length)

lemma sorted_push_bounded:
  assumes "sorted_wrt (<) (map f q)" "\<forall>y \<in> set q. f y < (f x :: 'b::linorder)"
  shows "sorted_wrt (<) (map f (push_bounded n x q))"
proof -
  have tl: "sorted_wrt (<) (map f (tl q))" "\<forall>y \<in> set (tl q). f y < f x"
    using assms by (cases q; simp)+
  with assms show ?thesis by (auto simp: push_bounded_def sorted_wrt_append)
qed

lemma next_event_ok:
  assumes "state_ok st" "next_event m st = (e, st')"
  shows "state_ok st' \<and> event_known e st' \<and> event_id e = next_event_id st \<and> message e = m \<and>
    pending_notifications st' = pending_notifications st \<and> sse_sender st' = sse_sender st \<and>
    last_activity st' = last_activity st"
proof -
  let ?next = "saturating_add (next_event_id st) 1"
  from assms(2) have st': "st' = enqueue_replay e (st \<lparr>next_event_id := ?next\<rparr>)"
    "e = \<lparr>event_id = next_event_id st, message = m\<rparr>"
    by (auto simp: next_event_def Let_def)
  have less: "next_event_id st < ?next" if "?next \<noteq> - 1"
  proof -
    have "unat ?next \<noteq> 2 ^ 64 - 1" using that by (simp add: word_unat_eq_iff)
    then show ?thesis by (simp add: word_less_nat_alt unat_saturating_add min_def split: if_splits)
  qed
  have "ids_ok st'" if "?next \<noteq> - 1"
  proof -
    have n: "next_event_id st \<noteq> - 1"
    proof
      assume "next_event_id st = - 1"
      then have "?next = - 1" by (simp add: saturating_add_def)
      with that show False ..
    qed
    with assms(1) have old: "sorted_wrt (<) (map event_id (replay_events st))"
      "\<forall>x \<in> set (replay_events st) \<union> set (pending_notifications st). event_id x < next_event_id st"
      by (auto simp: state_ok_def ids_ok_def)
    have "event_id x < ?next" if "x \<in> set (push_bounded REPLAY_LIMIT e (replay_events st)) \<union> set (pending_notifications st)" for x
    proof -
      have "x = e \<or> x \<in> set (replay_events st) \<union> set (pending_notifications st)"
        using that set_push_bounded [of REPLAY_LIMIT e "replay_events st"] by blast
      with less [OF \<open>?next \<noteq> - 1\<close>] old(2) show ?thesis by (auto simp: st'(2) intro: less_trans)
    qed
    moreover have "sorted_wrt (<) (map event_id (push_bounded REPLAY_LIMIT e (replay_events st)))"
      using old by (intro sorted_push_bounded) (auto simp: st'(2))
    ultimately show ?thesis by (simp add: st'(1) ids_ok_def enqueue_replay_def)
  qed
  moreover have "ids_ok st'" if "?next = - 1"
    using that by (simp add: st' ids_ok_def enqueue_replay_def)
  ultimately have "ids_ok st'" by blast
  then show ?thesis
    using assms(1) less
    by (auto simp: st' state_ok_def enqueue_replay_def event_known_def replay_q.push_bounded_length)
qed

subsection \<open>The invariant of the store\<close>

definition sess_inv :: "'c session_store \<Rightarrow> bool" where
  "sess_inv s \<longleftrightarrow> hmap_ok (sessions s) \<and> length (sessions s) \<le> max_sessions s \<and>
     length (closed s) \<le> CLOSED_SESSIONS_KEPT \<and>
     (\<forall>sid st. hget (sessions s) sid = Some st \<longrightarrow> state_ok st)"

lemma sess_inv_ok: "sess_inv s \<Longrightarrow> hmap_ok (sessions s)"
  by (simp add: sess_inv_def)

lemma sess_inv_get: "sess_inv s \<Longrightarrow> hget (sessions s) sid = Some st \<Longrightarrow> state_ok st"
  by (simp add: sess_inv_def)

lemma put_session_inv:
  "sess_inv s \<Longrightarrow> hget (sessions s) sid = Some st0 \<Longrightarrow> state_ok st \<Longrightarrow> sess_inv (put_session sid st s)"
  by (auto simp: sess_inv_def put_session_def hm.get_ins hm.ok_ins length_hinsert_old)

lemma hremove_sess_inv: "sess_inv s \<Longrightarrow> sess_inv (s \<lparr>sessions := hremove sid (sessions s)\<rparr>)"
  using length_hremove_le [of sid "sessions s"] by (auto simp: sess_inv_def hm.get_del hm.ok_del split: if_splits)

lemma notify_expiry_frame [simp]:
  "sessions (notify_expiry sid s) = sessions s" "max_sessions (notify_expiry sid s) = max_sessions s"
  "closed (notify_expiry sid s) = closed s" "timeout (notify_expiry sid s) = timeout s"
  "expiry_notifier (notify_expiry sid s) = expiry_notifier s"
  by (simp_all add: notify_expiry_def)

lemma notify_expiry_inv [simp]: "sess_inv (notify_expiry sid s) = sess_inv s"
  by (simp add: sess_inv_def)

lemma sess_inv_flags [simp]:
  "sess_inv (s \<lparr>expiry_sent := x\<rparr>) = sess_inv s"
  by (simp add: sess_inv_def)

lemma remove_if_expired_inv: "sess_inv s \<Longrightarrow> sess_inv (snd (remove_if_expired now sid s))"
  by (simp add: remove_if_expired_def hremove_sess_inv split: option.splits)

lemma end_session_inv: "sess_inv s \<Longrightarrow> sess_inv (snd (end_session sid s))"
  by (simp add: end_session_def hremove_sess_inv split: option.splits)

lemma count_where_inv:
  assumes "\<And>sid s. I s \<Longrightarrow> I (snd (f sid s))"
  shows "I s \<Longrightarrow> I (snd (count_where f ids s))"
proof -
  have "I s \<Longrightarrow> I (snd (fold (\<lambda>sid (n, s). case f sid s of (b, s') \<Rightarrow> (if b then Suc n else n, s')) ids (n, s)))" for n
  proof (induction ids arbitrary: n s)
    case (Cons sid ids)
    obtain b s' where f: "f sid s = (b, s')" by fastforce
    with assms [OF Cons.prems, of sid] have "I s'" by simp
    from Cons.IH [OF this] show ?case by (simp add: f)
  qed simp
  then show "I s \<Longrightarrow> I (snd (count_where f ids s))" by (simp add: count_where_def)
qed

lemma prune_inv: "sess_inv s \<Longrightarrow> sess_inv (snd (prune_expired_sessions now s))"
  unfolding prune_expired_sessions_def by (rule count_where_inv) (rule remove_if_expired_inv)

lemma end_sessions_of_inv: "sess_inv s \<Longrightarrow> sess_inv (snd (end_sessions_of client s))"
  unfolding end_sessions_of_def by (rule count_where_inv) (rule end_session_inv)

lemma make_room_inv:
  assumes "sess_inv s" "make_room C w now s = (ok, s')"
  shows "sess_inv s' \<and> (ok \<longrightarrow> length (sessions s') < max_sessions s')"
  using assms prune_inv [OF assms(1), of now]
  by (auto simp: make_room_def Let_def hremove_sess_inv split: if_splits option.splits prod.splits)

lemma new_session_ok [simp]: "state_ok (new_session now)"
  by (simp add: state_ok_def ids_ok_def new_session_def)

lemma insert_new_inv:
  assumes "sess_inv s" "length (sessions s) < max_sessions s"
  shows "sess_inv (insert_new now sid s)"
proof -
  have "length (hinsert sid (new_session now) (sessions s)) \<le> Suc (length (sessions s))"
    by (cases "hget (sessions s) sid") (auto simp: length_hinsert_new length_hinsert_old)
  with assms show ?thesis by (auto simp: sess_inv_def insert_new_def hm.get_ins hm.ok_ins)
qed

lemma create_session_inv: "sess_inv s \<Longrightarrow> sess_inv (snd (create_session C w now uuid s))"
  using make_room_inv [of s C w now]
  by (auto simp: create_session_def insert_new_inv split: prod.splits bool.splits)

lemma state_ok_flags [simp]:
  "state_ok (st \<lparr>reopened := b\<rparr>) = state_ok st" "state_ok (st \<lparr>last_activity := t\<rparr>) = state_ok st"
  "state_ok (st \<lparr>sse_sender := c\<rparr>) = state_ok st" "state_ok (st \<lparr>grant := g\<rparr>) = state_ok st"
  "state_ok (st \<lparr>still_allowed := a\<rparr>) = state_ok st" "state_ok (st \<lparr>audience := au\<rparr>) = state_ok st"
  "state_ok (st \<lparr>session_client_type := ct\<rparr>) = state_ok st"
  by (simp_all add: state_ok_def ids_ok_def)

lemma event_known_flags [simp]:
  "event_known e (st \<lparr>last_activity := t\<rparr>) = event_known e st"
  "event_known e (st \<lparr>sse_sender := c\<rparr>) = event_known e st"
  by (simp_all add: event_known_def)

lemma reopen_session_inv: "sess_inv s \<Longrightarrow> sess_inv (snd (reopen_session C is_uuid w now sid s))"
proof -
  assume inv: "sess_inv s"
  let ?s1 = "snd (prune_expired_sessions now s)"
  obtain ok s2 where room: "make_room C w now ?s1 = (ok, s2)" by fastforce
  note r = make_room_inv [OF prune_inv [OF inv] room]
  have "sess_inv (case hget (sessions (insert_new now sid s2)) sid of
      None \<Rightarrow> insert_new now sid s2 | Some st \<Rightarrow> put_session sid (st \<lparr>reopened := True\<rparr>) (insert_new now sid s2))" if ok
    using insert_new_inv [of s2 now sid] r that sess_inv_get [OF insert_new_inv, of s2 now sid]
    by (auto split: option.splits intro: put_session_inv)
  with r room prune_inv [OF inv, of now] inv show ?thesis
    by (auto simp: reopen_session_def Let_def split: bool.splits)
qed

lemma with_live_inv:
  assumes "sess_inv s" "\<And>st. state_ok st \<Longrightarrow> state_ok (snd (f st))"
  shows "sess_inv (snd (with_live_session_mut ask now sid f s))"
proof (cases "hget (sessions s) sid")
  case (Some st)
  with assms have "state_ok (snd (f st))" by (blast intro: sess_inv_get)
  with assms(1) Some show ?thesis
    by (auto simp: with_live_session_mut_def remove_if_expired_inv end_session_inv put_session_inv split: prod.splits)
qed (use assms in \<open>simp add: with_live_session_mut_def\<close>)

lemma update_session_inv:
  assumes "sess_inv s" "\<And>st. state_ok st \<Longrightarrow> state_ok (f st)"
  shows "sess_inv (snd (update_session sid f s))"
  using assms by (auto simp: update_session_def split: option.splits intro: put_session_inv sess_inv_get)

lemma state_ok_subset:
  assumes "state_ok st" "sorted_wrt (<) (map event_id (replay_events st)) \<longrightarrow> sorted_wrt (<) (map event_id r)"
    and "set r \<subseteq> set (replay_events st)" "length r \<le> length (replay_events st)"
    and "\<forall>e \<in> set p. event_known e st" "length p \<le> PENDING_LIMIT"
  shows "state_ok (st \<lparr>replay_events := r, pending_notifications := p\<rparr>)"
  using assms by (auto simp: state_ok_def ids_ok_def event_known_def)

lemma pending_known: "state_ok st \<Longrightarrow> e \<in> set (pending_notifications st) \<union> set (replay_events st) \<Longrightarrow> event_known e st"
  by (auto simp: state_ok_def ids_ok_def event_known_def)

lemma sorted_map_filter: "sorted_wrt R (map f xs) \<Longrightarrow> sorted_wrt R (map f (filter P xs))"
  by (induction xs) auto

lemma remove_key_inv: "sess_inv s \<Longrightarrow> sess_inv (remove_replay_events_by_key sid key s)"
proof (cases "hget (sessions s) sid")
  case (Some st)
  assume inv: "sess_inv s"
  let ?f = "filter (\<lambda>e. replay_key (message e) \<noteq> Some key)"
  have ok: "state_ok st" using inv Some by (rule sess_inv_get)
  have "length (?f (pending_notifications st)) \<le> PENDING_LIMIT"
    using ok length_filter_le [of _ "pending_notifications st"] by (meson order_trans state_ok_def)
  with ok have "state_ok (st \<lparr>replay_events := ?f (replay_events st), pending_notifications := ?f (pending_notifications st)\<rparr>)"
    by (intro state_ok_subset) (auto simp: sorted_map_filter intro: pending_known)
  with inv Some show ?thesis by (simp add: remove_replay_events_by_key_def put_session_inv)
qed (simp add: remove_replay_events_by_key_def)

lemma remove_session_inv: "sess_inv s \<Longrightarrow> sess_inv (snd (remove_session sid s))"
  using length_hremove_le [of sid "sessions s"]
  by (auto simp: remove_session_def sess_inv_def hm.get_del hm.ok_del closed_q.push_bounded_length
      split: option.splits if_splits)

lemma replay_loop_ok:
  assumes "state_ok st" "\<forall>e \<in> set es. event_known e st"
    and "from_pending \<longrightarrow> pending_notifications st = [] \<and> length es \<le> PENDING_LIMIT"
  shows "state_ok (fst (snd (replay_loop C now c from_pending es sent st w)))"
  using assms
proof (induction es arbitrary: sent st w)
  case (Cons e es)
  obtain r w' where t: "try_send C c e w = (r, w')" by fastforce
  show ?case
  proof (cases "r = SendOk")
    case True
    with Cons.prems show ?thesis by (simp add: t) (rule Cons.IH, auto)
  next
    case False
    have "state_ok (if from_pending then requeue_front (e # es) st else enqueue_pending e st)"
      using Cons.prems state_ok_subset [of st "replay_events st" "e # es"]
      by (auto simp: requeue_front_def enqueue_pending_ok)
    with False show ?thesis by (cases r) (simp_all add: t)
  qed
qed simp

lemma send_replay_ok:
  assumes ok: "state_ok st"
  shows "state_ok (fst (send_replay_events C now c last_id st w))"
proof -
  have trim: "state_ok (st' \<lparr>pending_notifications := filter P (pending_notifications st')\<rparr>)" if "state_ok st'" for st' P
  proof -
    have "length (filter P (pending_notifications st')) \<le> PENDING_LIMIT"
      using that length_filter_le [of P "pending_notifications st'"] by (meson order_trans state_ok_def)
    with that have "state_ok (st' \<lparr>replay_events := replay_events st', pending_notifications := filter P (pending_notifications st')\<rparr>)"
      by (intro state_ok_subset) (auto intro: pending_known)
    then show ?thesis by simp
  qed
  show ?thesis
  proof (cases last_id)
    case None
    obtain sent st2 w' where l: "replay_loop C now c True (pending_notifications st) None
        (st \<lparr>pending_notifications := []\<rparr>) w = (sent, st2, w')" by (metis prod_cases3)
    have "state_ok (st \<lparr>pending_notifications := []\<rparr>)"
      using state_ok_subset [OF ok, of "replay_events st" "[]"] by simp
    moreover have "\<forall>e \<in> set (pending_notifications st). event_known e (st \<lparr>pending_notifications := []\<rparr>)"
      using ok pending_known by (fastforce simp: event_known_def)
    ultimately have "state_ok st2"
      using replay_loop_ok [of "st \<lparr>pending_notifications := []\<rparr>" "pending_notifications st" True C now c None w] ok l
      by (simp add: state_ok_def)
    with trim [of st2] None l show ?thesis by (cases sent) (simp_all add: send_replay_events_def)
  next
    case (Some i)
    obtain sent st2 w' where l: "replay_loop C now c False (filter (\<lambda>e. i < event_id e) (replay_events st)) (Some i) st w =
        (sent, st2, w')" by (metis prod_cases3)
    have "state_ok st2"
      using replay_loop_ok [OF ok, of "filter (\<lambda>e. i < event_id e) (replay_events st)" False C now c "Some i" w] ok l
      by (auto intro: pending_known)
    with trim [of st2] Some l show ?thesis by (cases sent) (simp_all add: send_replay_events_def)
  qed
qed

lemma set_sse_sender_inv:
  assumes "sess_inv s"
  shows "sess_inv (fst (snd (set_sse_sender C now sid c last_id s w)))"
proof (cases "hget (sessions s) sid")
  case (Some st)
  have "state_ok (st \<lparr>last_activity := now, sse_sender := Some c, reopened := False\<rparr>)"
    using sess_inv_get [OF assms Some] by simp
  from send_replay_ok [OF this, of C now c "honoured_event_id last_id st" w] assms Some show ?thesis
    by (auto simp: set_sse_sender_def Let_def put_session_inv split: prod.splits)
qed (use assms in \<open>simp add: set_sse_sender_def\<close>)

lemma put_session_get [simp]: "hget (sessions (put_session sid st s)) sid' = (if sid' = sid then Some st else hget (sessions s) sid')"
  by (simp add: put_session_def hm.get_ins)

lemma deliver_or_queue_ok:
  "state_ok st \<Longrightarrow> event_known e st \<Longrightarrow> state_ok (fst (snd (deliver_or_queue C now e st w)))"
  by (auto simp: deliver_or_queue_def enqueue_pending_ok split: option.splits prod.splits try_send_result.splits)

lemma try_send_inv:
  assumes inv: "sess_inv s"
  shows "sess_inv (fst (snd (try_send_to_session C ask now sid m q s w)))"
proof (cases "hget (sessions s) sid")
  case None
  with inv show ?thesis by (simp add: try_send_to_session_def try_send_begin_def try_send_finish_def)
next
  case (Some st)
  obtain e st1 where n: "next_event m st = (e, st1)" by fastforce
  note ok = next_event_ok [OF sess_inv_get [OF inv Some] n]
  have inv1: "sess_inv (put_session sid st1 s)" using put_session_inv [OF inv Some] ok by blast
  have upd: "sess_inv (put_session sid x (put_session sid st1 s))" "sess_inv (put_session sid x s)" if "state_ok x" for x
    using put_session_inv [OF inv1, of sid st1 x] put_session_inv [OF inv Some that] that by simp_all
  have "sess_inv (fst (snd (try_send_finish C now sid (EnqueueOrDeliver e) (put_session sid st1 s) w)))"
    using deliver_or_queue_ok [of st1 e C now w] ok upd(1)
    by (auto simp: try_send_finish_def enqueue_or_deliver_racy_def split: prod.splits)
  moreover have "sess_inv (fst (snd (try_send_finish C now sid (ClearSender c qe) (put_session sid st1 s) w')))"
    if "qe \<in> {None, Some e}" for c qe w'
    using deliver_or_queue_ok [of st1 e C now w'] ok upd(1) inv1 that
      enqueue_pending_ok [of "st1 \<lparr>sse_sender := None\<rparr>" e]
    by (auto simp: try_send_finish_def clear_sender_if_matching_def Let_def split: prod.splits)
  moreover have "sess_inv (fst (snd (try_send_finish C now sid (Done out) s' w')))" if "sess_inv s'" for out s' w'
    using that by (simp add: try_send_finish_def)
  ultimately show ?thesis
    using inv ok upd(2)
    by (auto simp: try_send_to_session_def try_send_begin_def Some n remove_if_expired_inv end_session_inv
        split: option.splits prod.splits try_send_result.splits)
qed

lemma broadcast_one_inv:
  assumes "sess_inv (fst (snd acc))"
  shows "sess_inv (fst (snd (broadcast_one C ask now m kind allowed sid acc)))"
proof -
  obtain ex en s w where acc: "acc = ((ex, en), s, w)" by (metis surj_pair)
  show ?thesis
  proof (cases "hget (sessions s) sid")
    case (Some st)
    obtain e st1 where n: "next_event m st = (e, st1)" by fastforce
    have inv: "sess_inv s" using assms by (simp add: acc)
    note ok = next_event_ok [OF sess_inv_get [OF inv Some] n]
    have "sess_inv (put_session sid x s)" if "state_ok x" for x
      using put_session_inv [OF inv Some that] .
    with ok inv show ?thesis
      by (auto simp: broadcast_one_def acc Some n enqueue_pending_ok
          split: option.splits prod.splits try_send_result.splits)
  qed (use assms in \<open>simp add: broadcast_one_def acc\<close>)
qed

lemma fold_inv: "(\<And>x s. I s \<Longrightarrow> I (f x s)) \<Longrightarrow> I s \<Longrightarrow> I (fold f xs s)"
  by (induction xs arbitrary: s) auto

lemma broadcast_inv:
  assumes "sess_inv s"
  shows "sess_inv (fst (broadcast_where C ask now m kind allowed s w))"
proof -
  obtain ex en s1 w1 where f: "fold (broadcast_one C ask now m kind allowed) (map fst (sessions s)) (([], []), s, w) =
      ((ex, en), s1, w1)" by (metis surj_pair)
  have "sess_inv (fst (snd (fold (broadcast_one C ask now m kind allowed) (map fst (sessions s)) (([], []), s, w))))"
    by (rule fold_inv [where I = "\<lambda>acc. sess_inv (fst (snd acc))"]) (simp_all add: broadcast_one_inv assms)
  then have "sess_inv s1" by (simp add: f)
  then have "sess_inv (fold (\<lambda>sid s. snd (remove_if_expired now sid s)) ex s1)"
    by (rule fold_inv [where I = sess_inv, rotated]) (rule remove_if_expired_inv)
  then have "sess_inv (fold (\<lambda>sid s. snd (end_session sid s)) en (fold (\<lambda>sid s. snd (remove_if_expired now sid s)) ex s1))"
    by (rule fold_inv [where I = sess_inv, rotated]) (rule end_session_inv)
  then show ?thesis by (simp add: broadcast_where_def f)
qed

subsection \<open>Runs\<close>

datatype 'c sess_op =
    SCreate instant string
  | SReopen instant string
  | SValidate "access_check \<Rightarrow> bool" instant string
  | SHasSender "access_check \<Rightarrow> bool" instant string
  | SSetSender instant string 'c "u64 option"
  | SSetClientType string client_type
  | SSetGrant string string
  | SSetAccessCheck string access_check
  | SSetAudience string broadcast_audience
  | SRemove string
  | SBroadcast "access_check \<Rightarrow> bool" instant sse_message broadcast_kind "string option \<Rightarrow> bool"
  | SSend "access_check \<Rightarrow> bool" instant string sse_message
  | SRemoveKey string sse_replay_key
  | SCleanupTick instant
  | SEndSessionsOf string

fun sess_exec ::
  "('c, 'w) channel_ops \<Rightarrow> (string \<Rightarrow> bool) \<Rightarrow> 'c sess_op \<Rightarrow> 'c session_store \<times> 'w \<Rightarrow> 'c session_store \<times> 'w" where
  "sess_exec C is_uuid (SCreate now uuid) (s, w) = (snd (create_session C w now uuid s), w)"
| "sess_exec C is_uuid (SReopen now sid) (s, w) = (snd (reopen_session C is_uuid w now sid s), w)"
| "sess_exec C is_uuid (SValidate ask now sid) (s, w) = (snd (validate ask now sid s), w)"
| "sess_exec C is_uuid (SHasSender ask now sid) (s, w) = (snd (has_live_sse_sender ask now sid s), w)"
| "sess_exec C is_uuid (SSetSender now sid c last_id) (s, w) = snd (set_sse_sender C now sid c last_id s w)"
| "sess_exec C is_uuid (SSetClientType sid t) (s, w) = (snd (set_client_type sid t s), w)"
| "sess_exec C is_uuid (SSetGrant sid g) (s, w) = (snd (set_grant sid g s), w)"
| "sess_exec C is_uuid (SSetAccessCheck sid a) (s, w) = (snd (set_access_check sid a s), w)"
| "sess_exec C is_uuid (SSetAudience sid a) (s, w) = (snd (set_broadcast_audience sid a s), w)"
| "sess_exec C is_uuid (SRemove sid) (s, w) = (snd (remove_session sid s), w)"
| "sess_exec C is_uuid (SBroadcast ask now m kind allowed) (s, w) = broadcast_where C ask now m kind allowed s w"
| "sess_exec C is_uuid (SSend ask now sid m) (s, w) = snd (send_to_live_session C ask now sid m s w)"
| "sess_exec C is_uuid (SRemoveKey sid key) (s, w) = (remove_replay_events_by_key sid key s, w)"
| "sess_exec C is_uuid (SCleanupTick now) (s, w) = (snd (prune_expired_sessions now s), w)"
| "sess_exec C is_uuid (SEndSessionsOf client) (s, w) = (snd (end_sessions_of client s), w)"

lemma sess_exec_inv: "sess_inv s \<Longrightarrow> sess_inv (fst (sess_exec C is_uuid op (s, w)))"
  by (cases op)
     (simp_all add: create_session_inv reopen_session_inv validate_def has_live_sse_sender_def with_live_inv
       set_sse_sender_inv set_client_type_def set_grant_def set_access_check_def set_broadcast_audience_def
       update_session_inv remove_session_inv broadcast_inv send_to_live_session_def try_send_inv remove_key_inv
       prune_inv end_sessions_of_inv)

interpretation session_runs: run_system "sess_exec C is_uuid" "\<lambda>sw. sess_inv (fst sw)" for C is_uuid
proof
  fix sw :: "'a session_store \<times> 'b" and op
  assume "sess_inv (fst sw)"
  then show "sess_inv (fst (sess_exec C is_uuid op sw))" by (cases sw) (simp add: sess_exec_inv)
qed

lemma session_store_new_inv: "sess_inv (session_store_new t n)"
  by (simp add: sess_inv_def session_store_new_def)

subsection \<open>How the set of sessions changes\<close>

text \<open>
  Between two stores: no session appears, the closed list and the settings stay, and each session
  that disappears has been reported to the expiry listener.
\<close>

definition session_ids :: "'c session_store \<Rightarrow> string set" where
  "session_ids s = dom (map_of (sessions s))"

definition loses :: "'c session_store \<Rightarrow> 'c session_store \<Rightarrow> bool" where
  "loses s s' \<longleftrightarrow>
     closed s' = closed s \<and> max_sessions s' = max_sessions s \<and> timeout s' = timeout s \<and>
     expiry_notifier s' = expiry_notifier s \<and> session_ids s' \<subseteq> session_ids s \<and>
     (\<exists>new. expiry_sent s' = expiry_sent s @ new \<and>
        (expiry_notifier s \<longrightarrow> session_ids s - session_ids s' \<subseteq> set new))"

lemma loses_refl [simp]: "loses s s"
  by (simp add: loses_def)

lemma loses_trans:
  assumes "loses s t" "loses t u"
  shows "loses s u"
proof -
  from assms(1) obtain n where n: "expiry_sent t = expiry_sent s @ n"
    "expiry_notifier s \<longrightarrow> session_ids s - session_ids t \<subseteq> set n" by (auto simp: loses_def)
  from assms(2) obtain m where m: "expiry_sent u = expiry_sent t @ m"
    "expiry_notifier t \<longrightarrow> session_ids t - session_ids u \<subseteq> set m" by (auto simp: loses_def)
  have same: "closed u = closed s" "max_sessions u = max_sessions s" "timeout u = timeout s"
    "expiry_notifier t = expiry_notifier s" "expiry_notifier u = expiry_notifier s"
    using assms by (simp_all add: loses_def)
  have "session_ids u \<subseteq> session_ids s" using assms unfolding loses_def by blast
  moreover have "expiry_notifier s \<longrightarrow> session_ids s - session_ids u \<subseteq> set (n @ m)"
    using n(2) m(2) same(4) by auto
  moreover have "expiry_sent u = expiry_sent s @ (n @ m)" using n(1) m(1) by simp
  ultimately show ?thesis unfolding loses_def using same by blast
qed

lemma loses_put: "hget (sessions s) sid = Some st0 \<Longrightarrow> loses s (put_session sid st s)"
  by (auto simp: loses_def session_ids_def put_session_def hm.get_ins)

lemma loses_removed: "loses s (notify_expiry sid (s \<lparr>sessions := hremove sid (sessions s)\<rparr>))"
  unfolding loses_def notify_expiry_def
  by (intro conjI exI [of _ "if expiry_notifier s then [sid] else []"]) (auto simp: session_ids_def hm.get_del)

lemma loses_remove_if_expired: "loses s (snd (remove_if_expired now sid s))"
  by (simp add: remove_if_expired_def loses_removed split: option.splits)

lemma loses_end_session: "loses s (snd (end_session sid s))"
  by (simp add: end_session_def loses_removed split: option.splits)

lemma loses_fold: "(\<And>x s. loses s (f x s)) \<Longrightarrow> loses s (fold f xs s)"
  by (induction xs arbitrary: s) (auto intro: loses_trans)

lemma loses_count_where: "(\<And>x s. loses s (snd (f x s))) \<Longrightarrow> loses s (snd (count_where f ids s))"
  by (rule count_where_inv [of "loses s"]) (auto intro: loses_trans)

lemma loses_prune: "loses s (snd (prune_expired_sessions now s))"
  unfolding prune_expired_sessions_def by (rule loses_count_where) (rule loses_remove_if_expired)

lemma loses_end_sessions_of: "loses s (snd (end_sessions_of client s))"
  unfolding end_sessions_of_def by (rule loses_count_where) (rule loses_end_session)

lemma loses_make_room: "loses s (snd (make_room C w now s))"
  using loses_trans [OF loses_prune [of s now] loses_removed]
  by (auto simp: make_room_def Let_def loses_prune split: option.splits)

lemma loses_with_live: "loses s (snd (with_live_session_mut ask now sid f s))"
  by (simp add: with_live_session_mut_def loses_remove_if_expired loses_end_session loses_put
      split: option.splits prod.splits)

lemma loses_update_session: "loses s (snd (update_session sid f s))"
  by (simp add: update_session_def loses_put split: option.splits)

lemma loses_set_sender: "loses s (fst (snd (set_sse_sender C now sid c last_id s w)))"
  by (auto simp: set_sse_sender_def Let_def loses_put split: option.splits prod.splits)

lemma loses_try_send: "loses s (fst (snd (try_send_to_session C ask now sid m q s w)))"
proof -
  have first: "loses s (fst (snd (try_send_begin C ask now sid m q s w)))"
    by (auto simp: try_send_begin_def loses_put loses_remove_if_expired loses_end_session
        split: option.splits prod.splits try_send_result.splits)
  have finish: "loses t (fst (snd (try_send_finish C now sid phase t w')))" for phase t w'
    by (auto simp: try_send_finish_def clear_sender_if_matching_def enqueue_or_deliver_racy_def Let_def loses_put
        split: send_phase.splits option.splits prod.splits)
  obtain phase s1 w1 where b: "try_send_begin C ask now sid m q s w = (phase, s1, w1)" by (metis surj_pair)
  from first finish [of s1 phase w1] show ?thesis
    by (simp add: try_send_to_session_def b) (rule loses_trans)
qed

lemma loses_broadcast: "loses s (fst (broadcast_where C ask now m kind allowed s w))"
proof -
  have one: "loses (fst (snd acc)) (fst (snd (broadcast_one C ask now m kind allowed sid acc)))" for sid acc
    by (auto simp: broadcast_one_def loses_put split: option.splits prod.splits try_send_result.splits)
  have many: "loses s (fst (snd (fold (broadcast_one C ask now m kind allowed) ids (x, s, w))))" for ids x
    by (rule fold_inv [where I = "\<lambda>acc. loses s (fst (snd acc))"]) (auto intro: loses_trans one)
  obtain ex en s1 w1 where f: "fold (broadcast_one C ask now m kind allowed) (map fst (sessions s)) (([], []), s, w) =
      ((ex, en), s1, w1)" by (metis surj_pair)
  have "loses s s1" using many [of "map fst (sessions s)" "([], [])"] by (simp add: f)
  moreover have "loses s1 (fold (\<lambda>sid s. snd (remove_if_expired now sid s)) ex s1)"
    by (rule loses_fold) (rule loses_remove_if_expired)
  moreover have "loses t (fold (\<lambda>sid s. snd (end_session sid s)) en t)" for t :: "'a session_store"
    by (rule loses_fold) (rule loses_end_session)
  ultimately show ?thesis by (simp add: broadcast_where_def f) (blast intro: loses_trans)
qed

lemma loses_remove_key: "loses s (remove_replay_events_by_key sid key s)"
  by (simp add: remove_replay_events_by_key_def loses_put split: option.splits)

fun opens_or_removes :: "'c sess_op \<Rightarrow> bool" where
  "opens_or_removes (SCreate now uuid) = True"
| "opens_or_removes (SReopen now sid) = True"
| "opens_or_removes (SRemove sid) = True"
| "opens_or_removes _ = False"

lemma exec_loses: "\<not> opens_or_removes op \<Longrightarrow> loses s (fst (sess_exec C is_uuid op (s, w)))"
  by (cases op)
     (simp_all add: validate_def has_live_sse_sender_def loses_with_live loses_set_sender set_client_type_def
       set_grant_def set_access_check_def set_broadcast_audience_def loses_update_session loses_broadcast
       send_to_live_session_def loses_try_send loses_remove_key loses_prune loses_end_sessions_of)

lemma create_shape_session:
  "\<exists>t. loses s t \<and> (snd (create_session C w now uuid s) = t \<and> fst (create_session C w now uuid s) = Inl TooManySessions \<or>
     snd (create_session C w now uuid s) = insert_new now uuid t \<and> fst (create_session C w now uuid s) = Inr uuid)"
proof -
  obtain ok t where r: "make_room C w now s = (ok, t)" by fastforce
  have "loses s t" using loses_make_room [of s C w now] by (simp add: r)
  then show ?thesis by (intro exI [of _ t]) (auto simp: create_session_def r split: bool.splits)
qed

lemma reopen_shape_session:
  "\<exists>t. loses s t \<and>
     ((snd (reopen_session C is_uuid w now sid s) = t \<and> fst (reopen_session C is_uuid w now sid s) \<noteq> Inr True) \<or>
      (is_uuid sid \<and> sid \<notin> set (closed s) \<and> hget (sessions t) sid = None \<and>
       fst (reopen_session C is_uuid w now sid s) = Inr True \<and>
       snd (reopen_session C is_uuid w now sid s) =
         put_session sid ((new_session now) \<lparr>reopened := True\<rparr>) (insert_new now sid t)))"
proof -
  let ?s1 = "snd (prune_expired_sessions now s)"
  have s1: "loses s ?s1" by (rule loses_prune)
  obtain ok t where r: "make_room C w now ?s1 = (ok, t)" by fastforce
  have st: "loses ?s1 t" using loses_make_room [of ?s1 C w now] by (simp add: r)
  have "hget (sessions t) sid = None" if "hget (sessions ?s1) sid = None"
    using st that by (auto simp: loses_def session_ids_def dom_def)
  moreover have "closed ?s1 = closed s" using s1 by (simp add: loses_def)
  ultimately show ?thesis
    using s1 loses_trans [OF s1 st]
    by (cases "hget (sessions ?s1) sid"; cases ok)
       (auto simp: reopen_session_def Let_def r insert_new_def hm.get_ins)
qed

lemma sessions_reached:
  "fold (sess_exec C is_uuid) ops (session_store_new t n, w) = (s, w') \<Longrightarrow> sess_inv s"
  using session_runs.run_inv [of "(session_store_new t n, w)" C is_uuid ops] by (simp add: session_store_new_inv)

subsection \<open>Properties\<close>


text \<open>A bounded channel, to show that the laws can hold: the events received per channel.\<close>

definition bounded_channel :: "(nat \<Rightarrow> nat) \<Rightarrow> (nat, nat \<Rightarrow> sse_event list) channel_ops" where
  "bounded_channel cap =
     \<lparr>try_send = (\<lambda>c e w. if length (w c) < cap c then (SendOk, w(c := w c @ [e])) else (SendFull, w)),
      is_closed = (\<lambda>c w. False)\<rparr>"

lemma bounded_channel_laws: "channel_laws (bounded_channel cap) (\<lambda>w. w)"
  by (auto simp: channel_laws_def bounded_channel_def)


lemma closed_kept:
  assumes "length q \<le> CLOSED_SESSIONS_KEPT" "q = pre @ sid # post" "Suc (length post) < CLOSED_SESSIONS_KEPT"
  shows "\<exists>pre'. remember_closed x q = pre' @ sid # post @ [x]"
proof (cases "length q = CLOSED_SESSIONS_KEPT")
  case True
  with assms have "pre \<noteq> []" by auto
  then obtain y ys where "pre = y # ys" by (cases pre) auto
  with True assms(2) show ?thesis by (simp add: remember_closed_def)
next
  case False
  with assms(2) show ?thesis by (simp add: remember_closed_def)
qed

fun removes :: "'c sess_op \<Rightarrow> bool" where
  "removes (SRemove sid) = True"
| "removes _ = False"

fun creates_session :: "string \<Rightarrow> 'c sess_op \<Rightarrow> bool" where
  "creates_session sid (SCreate now uuid) = (uuid = sid)"
| "creates_session sid _ = False"

definition closed_at :: "string \<Rightarrow> nat \<Rightarrow> 'c session_store \<Rightarrow> bool" where
  "closed_at sid k s \<longleftrightarrow> sess_inv s \<and> hget (sessions s) sid = None \<and>
     (\<exists>pre post. closed s = pre @ sid # post \<and> length post \<le> k)"

lemma loses_closed_at: "closed_at sid k s \<Longrightarrow> loses s t \<Longrightarrow> sess_inv t \<Longrightarrow> closed_at sid k t"
  by (auto simp: closed_at_def loses_def session_ids_def dom_def)

lemma insert_other_get: "sid \<noteq> x \<Longrightarrow> hget (sessions (insert_new now x s)) sid = hget (sessions s) sid"
  by (simp add: insert_new_def hm.get_ins)

lemma closed_at_step:
  assumes c: "closed_at sid k s" and op: "\<not> creates_session sid op"
    and k: "removes op \<longrightarrow> Suc k < CLOSED_SESSIONS_KEPT"
  shows "closed_at sid (if removes op then Suc k else k) (fst (sess_exec C is_uuid op (s, w)))"
proof -
  have inv: "sess_inv s" using c by (simp add: closed_at_def)
  note inv' = sess_exec_inv [OF inv, of C is_uuid op w]
  show ?thesis
  proof (cases "opens_or_removes op")
    case False
    moreover from False have "\<not> removes op" by (cases op) simp_all
    ultimately show ?thesis using loses_closed_at [OF c exec_loses inv'] by simp
  next
    case True
    then show ?thesis
    proof (cases op)
      case (SCreate now uuid)
      with op have ne: "sid \<noteq> uuid" by simp
      from create_shape_session [of s C w now uuid] obtain t where t: "loses s t"
        "snd (create_session C w now uuid s) = t \<or> snd (create_session C w now uuid s) = insert_new now uuid t" by blast
      with inv' SCreate c ne show ?thesis
        by (auto simp: closed_at_def loses_def session_ids_def dom_def insert_other_get) (auto simp: insert_new_def)
    next
      case (SReopen now x)
      from reopen_shape_session [of s C is_uuid w now x] obtain t where t: "loses s t"
        "snd (reopen_session C is_uuid w now x s) = t \<or>
         (x \<notin> set (closed s) \<and> snd (reopen_session C is_uuid w now x s) =
            put_session x ((new_session now) \<lparr>reopened := True\<rparr>) (insert_new now x t))" by blast
      have "sid \<in> set (closed s)" using c by (auto simp: closed_at_def)
      then have "x \<noteq> sid" if "x \<notin> set (closed s)" using that by auto
      with t inv' SReopen c show ?thesis
        by (auto simp: closed_at_def loses_def session_ids_def dom_def insert_other_get)
           (auto simp: insert_new_def put_session_def)
    next
      case (SRemove x)
      from c obtain pre post where p: "closed s = pre @ sid # post" "length post \<le> k"
        by (auto simp: closed_at_def)
      have len: "length (closed s) \<le> CLOSED_SESSIONS_KEPT" using inv by (simp add: sess_inv_def)
      show ?thesis
      proof (cases "hget (sessions s) x")
        case None
        with SRemove c p show ?thesis by (force simp: remove_session_def closed_at_def)
      next
        case (Some st)
        have "Suc (length post) < CLOSED_SESSIONS_KEPT" using k p(2) SRemove by simp
        from closed_kept [OF len p(1) this, of x] obtain pre' where "remember_closed x (closed s) = pre' @ sid # post @ [x]" ..
        with Some SRemove c p inv' show ?thesis
          by (force simp: remove_session_def closed_at_def hm.get_del)
      qed
    qed (use True in simp_all)
  qed
qed

lemma closed_at_run:
  assumes "closed_at sid k (fst sw)" "list_all (\<lambda>op. \<not> creates_session sid op) ops"
    and "k + length (filter removes ops) < CLOSED_SESSIONS_KEPT"
  shows "closed_at sid (k + length (filter removes ops)) (fst (fold (sess_exec C is_uuid) ops sw))"
  using assms
proof (induction ops arbitrary: k sw)
  case (Cons op ops)
  obtain s w where sw: "sw = (s, w)" by (cases sw)
  have "closed_at sid (if removes op then Suc k else k) (fst (sess_exec C is_uuid op (s, w)))"
    using Cons.prems by (intro closed_at_step) (auto simp: sw)
  from Cons.IH [OF this] Cons.prems show ?case by (cases "removes op") (simp_all add: sw)
qed simp

text \<open>
  A session that its client closed stays closed. From the moment a client closes a session, until five
  hundred and twelve more sessions have been closed, nothing that happens brings the session
  back and every attempt to reopen it is refused, provided no new session is given its id.
\<close>

theorem closed_session_not_reopened:
  assumes "fold (sess_exec C is_uuid) ops (session_store_new t n, w) = (s, w1)"
    and "hget (sessions s) sid = Some st"
    and "list_all (\<lambda>op. \<not> creates_session sid op) ops'" "length (filter removes ops') < 512"
    and "fold (sess_exec C is_uuid) (SRemove sid # ops') (s, w1) = (s', w')"
  shows "hget (sessions s') sid = None \<and> fst (reopen_session C is_uuid w' now sid s') = Inl SessionNotFound"
proof -
  have inv: "sess_inv s" by (rule sessions_reached [OF assms(1)])
  have "closed_at sid 0 (snd (remove_session sid s))"
    using assms(2) remove_session_inv [OF inv, of sid]
    by (auto simp: closed_at_def remove_session_def hm.get_del remember_closed_def)
  then have "closed_at sid (0 + length (filter removes ops')) (fst (fold (sess_exec C is_uuid) ops' (snd (remove_session sid s), w1)))"
    using assms(3,4) by (intro closed_at_run) (simp_all add: CLOSED_SESSIONS_KEPT_def)
  with assms(5) have c: "closed_at sid (length (filter removes ops')) s'" by simp
  have mem: "sid \<in> set (closed (snd (prune_expired_sessions now s')))" "hget (sessions (snd (prune_expired_sessions now s'))) sid = None"
    using loses_closed_at [OF c loses_prune [of s' now] prune_inv] c by (auto simp: closed_at_def)
  with c show ?thesis by (simp add: closed_at_def reopen_session_def Let_def)
qed

theorem closed_session_not_reopened_witness:
  "fst (reopen_session (bounded_channel (\<lambda>_. 2)) (\<lambda>_. True) (\<lambda>_. []) 5 ''a''
     (fst (fold (sess_exec (bounded_channel (\<lambda>_. 2)) (\<lambda>_. True)) [SRemove ''a'', SCreate 2 ''b'']
        (fold (sess_exec (bounded_channel (\<lambda>_. 2)) (\<lambda>_. True)) [SCreate 0 ''a''] (session_store_new 60 4, \<lambda>_. []))))) = Inl SessionNotFound"
proof -
  let ?sw = "fold (sess_exec (bounded_channel (\<lambda>_. 2)) (\<lambda>_. True)) [SCreate 0 ''a''] (session_store_new 60 4, \<lambda>_. [])"
  let ?sw' = "fold (sess_exec (bounded_channel (\<lambda>_. 2)) (\<lambda>_. True)) [SRemove ''a'', SCreate 2 ''b''] ?sw"
  have first: "?sw = (\<lparr>sessions = [(''a'', new_session 0)], max_sessions = 4, timeout = secs 60, expiry_notifier = False,
      closed = [], expiry_sent = []\<rparr>, \<lambda>_. [])"
    by (simp add: session_store_new_def create_session_def make_room_def prune_expired_sessions_def count_where_def
        insert_new_def hinsert_def Let_def)
  have w: "snd ?sw' = (\<lambda>_. [])" by (simp add: first)
  have "fst (reopen_session (bounded_channel (\<lambda>_. 2)) (\<lambda>_. True) (snd ?sw') 5 ''a'' (fst ?sw')) = Inl SessionNotFound"
    using closed_session_not_reopened [OF first, of "''a''" "new_session 0" "[SCreate 2 ''b'']" "fst ?sw'" "snd ?sw'" 5] first
    by simp
  then show ?thesis by (simp only: w)
qed

lemma exec_notifier: "expiry_notifier (fst (sess_exec C is_uuid op (s, w))) = expiry_notifier s"
proof (cases "opens_or_removes op")
  case False
  from exec_loses [OF this, of s C is_uuid w] show ?thesis by (simp add: loses_def)
next
  case True
  then show ?thesis
  proof (cases op)
    case (SCreate now x)
    from create_shape_session [of s C w now x] show ?thesis by (auto simp: SCreate loses_def insert_new_def)
  next
    case (SReopen now x)
    from reopen_shape_session [of s C is_uuid w now x] show ?thesis
      by (auto simp: SReopen loses_def insert_new_def put_session_def)
  qed (auto simp: remove_session_def split: option.splits)
qed

lemma sessions_reached_notifier:
  assumes "fold (sess_exec C is_uuid) ops (with_expiry_notifier (session_store_new t n), w) = (s, w')"
  shows "sess_inv s \<and> expiry_notifier s"
proof -
  let ?I = "\<lambda>sw. sess_inv (fst sw) \<and> expiry_notifier (fst sw)"
  have "?I (fold (sess_exec C is_uuid) ops (with_expiry_notifier (session_store_new t n), w))"
  proof (rule fold_inv [where I = ?I])
    show "?I (sess_exec C is_uuid op sw)" if "?I sw" for op sw
      using that by (cases sw) (simp add: sess_exec_inv exec_notifier)
  qed (simp add: sess_inv_def session_store_new_def with_expiry_notifier_def)
  with assms show ?thesis by simp
qed

lemma prune_keeps:
  assumes "hget (sessions s) sid = Some st" "\<not> session_expired now s st"
  shows "hget (sessions (snd (prune_expired_sessions now s))) sid = Some st"
proof -
  have "timeout t = timeout s \<and> hget (sessions t) sid = Some st"
    if "t = snd (prune_expired_sessions now s)" for t
    unfolding that prune_expired_sessions_def
  proof (rule count_where_inv [where I = "\<lambda>t. timeout t = timeout s \<and> hget (sessions t) sid = Some st"])
    fix x and t :: "'a session_store"
    assume "timeout t = timeout s \<and> hget (sessions t) sid = Some st"
    then show "timeout (snd (remove_if_expired now x t)) = timeout s \<and> hget (sessions (snd (remove_if_expired now x t))) sid = Some st"
      using assms(2) by (auto simp: remove_if_expired_def session_expired_def hm.get_del split: option.splits)
  qed (use assms(1) in simp)
  then show ?thesis by simp
qed

lemma quietest_in: "quietest es = Some e \<Longrightarrow> e \<in> set es"
  by (induction es arbitrary: e) (auto split: option.splits if_splits)

lemma make_room_keeps:
  assumes ok: "hmap_ok (sessions s)" and st: "hget (sessions s) sid = Some st" "\<not> session_expired now s st" "\<not> is_quiet C w now st"
  shows "hget (sessions (snd (make_room C w now s))) sid = Some st"
proof -
  let ?s = "snd (prune_expired_sessions now s)"
  have kept: "hget (sessions ?s) sid = Some st" by (rule prune_keeps [OF st(1,2)])
  have ok': "hmap_ok (sessions ?s)"
    unfolding prune_expired_sessions_def
    by (rule count_where_inv [where I = "\<lambda>t. hmap_ok (sessions t)"])
       (use ok in \<open>auto simp: remove_if_expired_def split: option.splits\<close>)
  have "x \<noteq> sid" if "quietest (filter (\<lambda>(sid, st). is_quiet C w now st) (sessions ?s)) = Some (x, y)" for x y
  proof -
    from quietest_in [OF that] have "(x, y) \<in> set (sessions ?s)" "is_quiet C w now y" by auto
    with kept st(3) show ?thesis by (auto simp: hmap_mem_iff [OF ok'])
  qed
  with kept show ?thesis by (auto simp: make_room_def Let_def hm.get_del split: option.splits)
qed

text \<open>
  Making room never costs a live client its session, and nobody vanishes silently. Opening a
  session keeps every session that has not timed out and either has an open stream or
  was used in the last minute. And along every operation other than the client's own
  close, each session that is gone afterwards has been reported to the expiry
  listener, so that what the daemon holds for it is released.
\<close>

theorem eviction_safe_and_reported:
  assumes "fold (sess_exec C is_uuid) ops (with_expiry_notifier (session_store_new t n), w0) = (s, w)"
    and "hget (sessions s) sid = Some st"
  shows "(\<not> session_expired now s st \<and> \<not> is_quiet C w now st \<and> uuid \<noteq> sid \<longrightarrow>
       hget (sessions (snd (create_session C w now uuid s))) sid = Some st \<and>
       hget (sessions (snd (reopen_session C is_uuid w now uuid s))) sid = Some st) \<and>
    (\<not> removes op \<and> hget (sessions (fst (sess_exec C is_uuid op (s, w)))) sid = None \<longrightarrow>
       (\<exists>new. expiry_sent (fst (sess_exec C is_uuid op (s, w))) = expiry_sent s @ new \<and> sid \<in> set new))"
proof (intro conjI impI)
  have inv: "sess_inv s" and note_on: "expiry_notifier s"
    using sessions_reached_notifier [OF assms(1)] by auto
  assume live: "\<not> session_expired now s st \<and> \<not> is_quiet C w now st \<and> uuid \<noteq> sid"
  obtain ok r where room: "make_room C w now s = (ok, r)" by fastforce
  have "hget (sessions r) sid = Some st"
    using make_room_keeps [OF sess_inv_ok [OF inv] assms(2), of now C w] live by (simp add: room)
  then show "hget (sessions (snd (create_session C w now uuid s))) sid = Some st"
    using live by (auto simp: create_session_def room insert_other_get split: bool.splits)
  let ?p = "snd (prune_expired_sessions now s)"
  have p: "hget (sessions ?p) sid = Some st" using prune_keeps [OF assms(2)] live by blast
  have "\<not> session_expired now ?p st" using live loses_prune [of s now] by (simp add: loses_def session_expired_def)
  then have kept: "hget (sessions (snd (make_room C w now ?p))) sid = Some st"
    by (rule make_room_keeps [OF sess_inv_ok [OF prune_inv [OF inv]] p]) (use live in simp)
  obtain ok' r' where room': "make_room C w now ?p = (ok', r')" by fastforce
  have r': "hget (sessions r') sid = Some st" using kept by (simp add: room')
  have "snd (reopen_session C is_uuid w now uuid s) \<in>
      {s, ?p, r', insert_new now uuid r', put_session uuid ((new_session now) \<lparr>reopened := True\<rparr>) (insert_new now uuid r')}"
    by (simp add: reopen_session_def Let_def room' insert_new_def hm.get_ins split: bool.splits)
  then show "hget (sessions (snd (reopen_session C is_uuid w now uuid s))) sid = Some st"
    using p r' assms(2) live by (auto simp: insert_other_get)
next
  have note_on: "expiry_notifier s" using sessions_reached_notifier [OF assms(1)] by auto
  let ?s' = "fst (sess_exec C is_uuid op (s, w))"
  assume gone: "\<not> removes op \<and> hget (sessions ?s') sid = None"
  obtain u where u: "loses s u" "expiry_sent u = expiry_sent ?s'" "session_ids u \<subseteq> session_ids ?s'"
  proof (cases "opens_or_removes op")
    case False
    then show ?thesis using that [of ?s'] exec_loses [OF False, of s C is_uuid w] by simp
  next
    case True
    then show ?thesis
    proof (cases op)
      case (SCreate now' x)
      from create_shape_session [of s C w now' x] obtain u where "loses s u"
        "snd (create_session C w now' x s) = u \<or> snd (create_session C w now' x s) = insert_new now' x u" by blast
      then show ?thesis using that [of u] SCreate by (auto simp: insert_new_def session_ids_def hm.get_ins subset_insertI)
    next
      case (SReopen now' x)
      from reopen_shape_session [of s C is_uuid w now' x] obtain u where "loses s u"
        "snd (reopen_session C is_uuid w now' x s) = u \<or> snd (reopen_session C is_uuid w now' x s) =
            put_session x ((new_session now') \<lparr>reopened := True\<rparr>) (insert_new now' x u)" by blast
      then show ?thesis using that [of u] SReopen
        by (auto simp: insert_new_def put_session_def session_ids_def hm.get_ins subset_insertI)
    qed (use gone in simp_all)
  qed
  have "sid \<in> session_ids s - session_ids u" using assms(2) gone u(3) by (auto simp: session_ids_def)
  with u(1,2) note_on show "\<exists>new. expiry_sent ?s' = expiry_sent s @ new \<and> sid \<in> set new"
    by (auto simp: loses_def)
qed

theorem eviction_safe_and_reported_witness:
  "\<exists>s w st. fold (sess_exec (bounded_channel (\<lambda>_. 2)) (\<lambda>_. True)) [SCreate 0 ''a''] (with_expiry_notifier (session_store_new 60 1), \<lambda>_. []) = (s, w) \<and>
     hget (sessions s) ''a'' = Some st \<and>
     hget (sessions (snd (create_session (bounded_channel (\<lambda>_. 2)) w 7 ''b'' s))) ''a'' = Some st"
proof -
  let ?s = "\<lparr>sessions = [(''a'', new_session 0)], max_sessions = 1, timeout = secs 60, expiry_notifier = True,
      closed = [], expiry_sent = []\<rparr> :: nat session_store"
  have run: "fold (sess_exec (bounded_channel (\<lambda>_. 2)) (\<lambda>_. True)) [SCreate 0 ''a'']
      (with_expiry_notifier (session_store_new 60 1), \<lambda>_. []) = (?s, \<lambda>_. [])"
    by (simp add: session_store_new_def with_expiry_notifier_def create_session_def make_room_def prune_expired_sessions_def
        count_where_def insert_new_def hinsert_def Let_def)
  have st: "hget (sessions ?s) ''a'' = Some (new_session 0)" by simp
  have "\<not> session_expired 7 ?s (new_session 0)" "\<not> is_quiet (bounded_channel (\<lambda>_. 2)) (\<lambda>_. []) 7 (new_session 0 :: nat session_state)"
    by (simp_all add: session_expired_def is_quiet_def new_session_def elapsed_def secs_def QUIET_FOR_def)
  with eviction_safe_and_reported [OF run st, of 7 "''b''"] run st show ?thesis by blast
qed

end
