(* ===== verification/Session_Delivery.thy ===== *)
theory Session_Delivery
  imports Sessions
begin

section \<open>Delivery to sessions\<close>

text \<open>
  What clients of \<open>plug-core/src/session/stateful.rs\<close> receive, in terms of the channel's laws:
  the replay when a stream opens, the two-step targeted send with anything in between,
  and broadcasts.
\<close>

subsection \<open>What a client receives\<close>

lemma try_send_received:
  assumes "channel_laws C received" "try_send C c e w = (r, w')"
  shows "received w' = (if r = SendOk then (received w)(c := received w c @ [e]) else received w)"
proof -
  from assms(1) [unfolded channel_laws_def, rule_format, where c = c and e = e and w = w] assms(2)
  show ?thesis by (cases r) simp_all
qed

lemma replay_loop_received:
  assumes laws: "channel_laws C received"
  shows "\<exists>k \<le> length es. \<exists>st' w' sent'.
    replay_loop C now c from_pending es sent st w = (sent', st', w') \<and>
    received w' = (received w)(c := received w c @ take k es) \<and>
    sent' = (if k = 0 then sent else Some (event_id (es ! (k - 1)))) \<and>
    pending_notifications st' =
      (if k = length es then pending_notifications st
       else if from_pending then drop k es @ pending_notifications st
       else push_bounded PENDING_LIMIT (es ! k) (pending_notifications st)) \<and>
    sse_sender st' = (if k = length es then sse_sender st else None) \<and> replay_events st' = replay_events st"
proof (induction es arbitrary: sent st w)
  case Nil
  then show ?case by simp
next
  case (Cons e es)
  obtain r w1 where t: "try_send C c e w = (r, w1)" by fastforce
  note received = try_send_received [OF laws t]
  show ?case
  proof (cases "r = SendOk")
    case True
    let ?st = "st \<lparr>last_activity := now\<rparr>"
    from Cons.IH [of "Some (event_id e)" ?st w1] obtain k st' w' sent' where
      k: "k \<le> length es" "replay_loop C now c from_pending es (Some (event_id e)) ?st w1 = (sent', st', w')"
        "received w' = (received w1)(c := received w1 c @ take k es)"
        "sent' = (if k = 0 then Some (event_id e) else Some (event_id (es ! (k - 1))))"
        "pending_notifications st' =
          (if k = length es then pending_notifications ?st
           else if from_pending then drop k es @ pending_notifications ?st
           else push_bounded PENDING_LIMIT (es ! k) (pending_notifications ?st))"
        "sse_sender st' = (if k = length es then sse_sender ?st else None)" "replay_events st' = replay_events ?st"
      by blast
    show ?thesis
      by (rule exI [of _ "Suc k"]) (use k t True received in \<open>auto simp: nth_Cons split: nat.splits\<close>)
  next
    case False
    with t have "replay_loop C now c from_pending (e # es) sent st w =
        (sent, (if from_pending then requeue_front (e # es) st else enqueue_pending e st) \<lparr>sse_sender := None\<rparr>, w1)"
      by (cases r) simp_all
    with False received show ?thesis
      by (intro exI [of _ 0]) (auto simp: requeue_front_def enqueue_pending_def)
  qed
qed

text \<open>
  Opening a stream loses nothing. When a client opens a stream without a \<open>Last-Event-Id\<close>,
  the events queued for it are received on the new channel in order, up to the first one the channel
  refuses; what was received followed by what is still queued is exactly what was
  queued before, provided the queue was in the order of its ids. The sender is
  dropped if and only if something was refused.
\<close>

theorem open_stream_keeps_order:
  assumes "channel_laws C received" "hget (sessions s) sid = Some st"
    and "honoured_event_id last_id st = None" "sorted_wrt (<) (map event_id (pending_notifications st))"
  shows "\<exists>st' w' sent. set_sse_sender C now sid c last_id s w = (Inr (), put_session sid st' s, w') \<and>
    received w' = (received w)(c := received w c @ sent) \<and>
    sent @ pending_notifications st' = pending_notifications st \<and>
    sse_sender st' = (if pending_notifications st' = [] then Some c else None)"
proof -
  let ?p = "pending_notifications st"
  let ?st1 = "st \<lparr>last_activity := now, sse_sender := Some c, reopened := False, pending_notifications := []\<rparr>"
  from replay_loop_received [OF assms(1), where es = ?p and st = ?st1 and from_pending = True and sent = None, of now c w]
  obtain k st2 w' sent' where k: "k \<le> length ?p" "replay_loop C now c True ?p None ?st1 w = (sent', st2, w')"
    "received w' = (received w)(c := received w c @ take k ?p)"
    "sent' = (if k = 0 then None else Some (event_id (?p ! (k - 1))))"
    "pending_notifications st2 = (if k = length ?p then [] else drop k ?p)"
    "sse_sender st2 = (if k = length ?p then Some c else None)"
    by auto
  have pend: "pending_notifications st2 = drop k ?p" using k(1,5) by auto
  have sorted: "event_id (?p ! i) < event_id (?p ! j)" if "i < j" "j < length ?p" for i j
    using sorted_wrt_nth_less [OF assms(4)] that by simp
  have keep: "filter (\<lambda>e. event_id (?p ! (k - 1)) < event_id e) (drop k ?p) = drop k ?p" if "k \<noteq> 0"
    using that k(1) sorted [of "k - 1"] by (auto simp: filter_id_conv in_set_conv_nth)
  let ?st' = "case sent' of None \<Rightarrow> st2
    | Some i \<Rightarrow> st2 \<lparr>pending_notifications := filter (\<lambda>e. i < event_id e) (pending_notifications st2)\<rparr>"
  have st': "pending_notifications ?st' = drop k ?p" "sse_sender ?st' = sse_sender st2"
    using keep by (simp_all add: k(4) pend)
  have "set_sse_sender C now sid c last_id s w = (Inr (), put_session sid ?st' s, w')"
    using k(2) by (simp add: set_sse_sender_def assms(2,3) send_replay_events_def Let_def)
  moreover have "sse_sender ?st' = (if pending_notifications ?st' = [] then Some c else None)"
    using st' k(1,6) by auto
  ultimately show ?thesis using k(3) st'(1)
    by (intro exI [of _ ?st'] exI [of _ w'] exI [of _ "take k ?p"]) simp
qed

definition demo_event :: "u64 \<Rightarrow> sse_event" where
  "demo_event i = \<lparr>event_id = i, message = \<lparr>serialized = ''m'', replay_key = None\<rparr>\<rparr>"

definition demo_session :: "nat session_state" where
  "demo_session = (new_session 0) \<lparr>pending_notifications := [demo_event 1, demo_event 2, demo_event 3],
      replay_events := [demo_event 1, demo_event 2, demo_event 3], next_event_id := 4\<rparr>"

definition demo_store :: "nat session_store" where
  "demo_store = (session_store_new 60 4) \<lparr>sessions := [(''a'', demo_session)]\<rparr>"

theorem open_stream_keeps_order_witness:
  "\<exists>st' w' sent. set_sse_sender (bounded_channel (\<lambda>_. 2)) 5 ''a'' 0 None demo_store (\<lambda>_. []) = (Inr (), put_session ''a'' st' demo_store, w') \<and>
     w' 0 = sent \<and> sent @ pending_notifications st' = [demo_event 1, demo_event 2, demo_event 3]"
proof -
  have "hget (sessions demo_store) ''a'' = Some demo_session" by (simp add: demo_store_def)
  moreover have "honoured_event_id None demo_session = None" by (simp add: honoured_event_id_def)
  moreover have "sorted_wrt (<) (map event_id (pending_notifications demo_session))"
    by (simp add: demo_session_def demo_event_def)
  ultimately obtain st' w' sent where
    "set_sse_sender (bounded_channel (\<lambda>_. 2)) 5 ''a'' 0 None demo_store (\<lambda>_. []) = (Inr (), put_session ''a'' st' demo_store, w')"
    "w' = (\<lambda>_. [])(0 := [] @ sent)" "sent @ pending_notifications st' = pending_notifications demo_session"
    using open_stream_keeps_order [OF bounded_channel_laws, of demo_store "''a''" demo_session None "\<lambda>_. 2" 5 0 "\<lambda>_. []"]
    by blast
  then show ?thesis by (intro exI [of _ st'] exI [of _ w'] exI [of _ sent]) (simp add: demo_session_def)
qed


subsection \<open>Sending to one session\<close>

lemma deliver_or_queue_spec:
  assumes "channel_laws C received" "deliver_or_queue C now e st w = (ok, st', w')"
  shows "(\<exists>c. ok \<and> sse_sender st = Some c \<and> received w' = (received w)(c := received w c @ [e]) \<and>
            pending_notifications st' = pending_notifications st) \<or>
         (\<not> ok \<and> received w' = received w \<and>
            pending_notifications st' = push_bounded PENDING_LIMIT e (pending_notifications st))"
proof (cases "sse_sender st")
  case None
  with assms(2) show ?thesis by (auto simp: deliver_or_queue_def enqueue_pending_def)
next
  case (Some c)
  obtain r w1 where t: "try_send C c e w = (r, w1)" by fastforce
  from try_send_received [OF assms(1) t] assms(2) Some t show ?thesis
    by (cases r) (auto simp: deliver_or_queue_def enqueue_pending_def)
qed



subsection \<open>Broadcasts\<close>

definition unshared :: "'c session_store \<Rightarrow> string \<Rightarrow> 'c \<Rightarrow> bool" where
  "unshared s sid c \<longleftrightarrow> (\<forall>x st. x \<noteq> sid \<longrightarrow> hget (sessions s) x = Some st \<longrightarrow> sse_sender st \<noteq> Some c)"

lemma next_event_sender: "next_event m st = (e, st') \<Longrightarrow> sse_sender st' = sse_sender st"
  by (auto simp: next_event_def Let_def enqueue_replay_def)

text \<open>What a broadcast does for another session leaves this one and its channel alone.\<close>

lemma broadcast_one_other:
  assumes laws: "channel_laws C received" and ne: "x \<noteq> sid"
    and step: "broadcast_one C ask now m kind allowed x ((ex, en), s, w) = ((ex', en'), s', w')"
  shows "hget (sessions s') sid = hget (sessions s) sid \<and> timeout s' = timeout s \<and>
    (sid \<in> set ex' \<longleftrightarrow> sid \<in> set ex) \<and> (sid \<in> set en' \<longleftrightarrow> sid \<in> set en) \<and>
    (unshared s sid c \<longrightarrow> unshared s' sid c \<and> received w' c = received w c)"
proof (cases "hget (sessions s) x")
  case None
  with step show ?thesis by (simp add: broadcast_one_def)
next
  case (Some st)
  obtain e st1 where n: "next_event m st = (e, st1)" by fastforce
  note sender = next_event_sender [OF n]
  have put: "unshared s sid c \<longrightarrow> unshared (put_session x v s) sid c" if "sse_sender v = sse_sender st \<or> sse_sender v = None" for v
    using that Some ne by (auto simp: unshared_def)
  show ?thesis
  proof (cases "sse_sender st")
    case None
    with step n sender ne put [of "enqueue_pending e st1"] Some show ?thesis
      by (auto simp: broadcast_one_def enqueue_pending_def put_session_def hm.get_ins split: if_splits)
  next
    case (Some d)
    obtain r w1 where t: "try_send C d e w = (r, w1)" by fastforce
    have recv: "unshared s sid c \<longrightarrow> received w1 c = received w c"
      using try_send_received [OF laws t] Some \<open>hget (sessions s) x = Some st\<close> ne by (auto simp: unshared_def)
    show ?thesis
      using step n sender ne t recv Some \<open>hget (sessions s) x = Some st\<close>
        put [of "st1 \<lparr>last_activity := now\<rparr>"] put [of "enqueue_pending e (st1 \<lparr>sse_sender := None\<rparr>)"]
      by (cases r) (auto simp: broadcast_one_def enqueue_pending_def put_session_def hm.get_ins split: if_splits)
  qed
qed

lemma broadcast_fold_other:
  assumes laws: "channel_laws C received"
    and "sid \<notin> set ids"
    and "fold (broadcast_one C ask now m kind allowed) ids ((ex, en), s, w) = ((ex', en'), s', w')"
  shows "hget (sessions s') sid = hget (sessions s) sid \<and> timeout s' = timeout s \<and>
    (sid \<in> set ex' \<longleftrightarrow> sid \<in> set ex) \<and> (sid \<in> set en' \<longleftrightarrow> sid \<in> set en) \<and>
    (unshared s sid c \<longrightarrow> unshared s' sid c \<and> received w' c = received w c)"
  using assms(2,3)
proof (induction ids arbitrary: ex en s w)
  case (Cons x ids)
  obtain ex1 en1 s1 w1 where one: "broadcast_one C ask now m kind allowed x ((ex, en), s, w) = ((ex1, en1), s1, w1)"
    by (metis surj_pair)
  from broadcast_one_other [OF laws _ one, of sid c] Cons.prems Cons.IH [of ex1 en1 s1 w1] show ?case
    by (auto simp: one)
qed simp

lemma fold_remove_other:
  "sid \<notin> set ids \<Longrightarrow> hget (sessions (fold (\<lambda>x s. snd (remove_if_expired now x s)) ids s)) sid = hget (sessions s) sid"
  by (induction ids arbitrary: s) (auto simp: remove_if_expired_def hm.get_del split: option.splits)

lemma fold_end_other:
  "sid \<notin> set ids \<Longrightarrow> hget (sessions (fold (\<lambda>x s. snd (end_session x s)) ids s)) sid = hget (sessions s) sid"
  by (induction ids arbitrary: s) (auto simp: end_session_def hm.get_del split: option.splits)

text \<open>
  Broadcasts reach exactly the sessions entitled to them. For a live session whose stream is its
  own: if its audience does not admit the kind of broadcast, or the delivery rule refuses its
  client, nothing about the session changes and nothing is received on its stream; in
  particular a new session, whose audience is the default, sees no broadcast.
  Otherwise the message gets the session's next event id, and is received
  on its stream once, or, if there is no stream or it refuses the event, becomes the newest pending event.
\<close>

theorem broadcast_audience_respected:
  assumes laws: "channel_laws C received" and ok: "hmap_ok (sessions s)"
    and st: "hget (sessions s) sid = Some st" "\<not> session_expired now s st" "\<not> access_ended ask st"
    and own: "sse_sender st = Some c \<or> sse_sender st = None" "unshared s sid c"
    and run: "broadcast_where C ask now m kind allowed s w = (s', w')"
    and e: "e = \<lparr>event_id = next_event_id st, message = m\<rparr>"
  shows "if \<not> admits (audience st) kind \<or> \<not> allowed (grant st)
    then hget (sessions s') sid = Some st \<and> received w' c = received w c
    else (\<exists>st'. hget (sessions s') sid = Some st' \<and> last (replay_events st') = e \<and>
       ((sse_sender st = Some c \<and> received w' c = received w c @ [e] \<and> pending_notifications st' = pending_notifications st) \<or>
        (received w' c = received w c \<and> sse_sender st' = None \<and>
           pending_notifications st' = push_bounded 32 e (pending_notifications st))))"
proof -
  have "sid \<in> set (map fst (sessions s))" using st(1) by (metis domI dom_map_of_conv_image_fst set_map)
  then obtain pre post where ids: "map fst (sessions s) = pre @ sid # post" by (meson split_list)
  then have notin: "sid \<notin> set pre" "sid \<notin> set post" using ok by (auto simp: hmap_ok_def)
  let ?f = "broadcast_one C ask now m kind allowed"
  obtain ex1 en1 s1 w1 where p1: "fold ?f pre (([], []), s, w) = ((ex1, en1), s1, w1)" by (metis surj_pair)
  obtain ex2 en2 s2 w2 where p2: "?f sid ((ex1, en1), s1, w1) = ((ex2, en2), s2, w2)" by (metis surj_pair)
  obtain ex3 en3 s3 w3 where p3: "fold ?f post ((ex2, en2), s2, w2) = ((ex3, en3), s3, w3)" by (metis surj_pair)
  note one = broadcast_fold_other [OF laws notin(1) p1, of c] and three = broadcast_fold_other [OF laws notin(2) p3, of c]
  have st1: "hget (sessions s1) sid = Some st" "\<not> session_expired now s1 st"
    using one st by (auto simp: session_expired_def)
  then have flags: "ex2 = ex1" "en2 = en1"
    using p2 st(3) by (auto simp: broadcast_one_def split: prod.splits option.splits try_send_result.splits if_splits)
  then have not_listed: "sid \<notin> set ex3" "sid \<notin> set en3" using one three by auto
  have final: "s' = fold (\<lambda>x s. snd (end_session x s)) en3 (fold (\<lambda>x s. snd (remove_if_expired now x s)) ex3 s3)" "w' = w3"
    using run by (simp_all add: broadcast_where_def ids p1 p2 p3)
  have get: "hget (sessions s') sid = hget (sessions s2) sid"
    using three by (simp add: final fold_end_other [OF not_listed(2)] fold_remove_other [OF not_listed(1)])
  have before: "received w1 c = received w c" "unshared s1 sid c" using one own(2) by auto
  obtain x st2 where n: "next_event m st = (x, st2)" by fastforce
  then have x: "x = e" "last (replay_events st2) = e" "pending_notifications st2 = pending_notifications st" "sse_sender st2 = sse_sender st"
    by (auto simp: next_event_def Let_def e enqueue_replay_def push_bounded_def)
  have after: "unshared s2 sid c \<Longrightarrow> received w' c = received w2 c" using three final by simp
  show ?thesis
  proof (cases "\<not> admits (audience st) kind \<or> \<not> allowed (grant st)")
    case True
    then have "s2 = s1" "w2 = w1" using p2 st1 st(3) by (auto simp: broadcast_one_def)
    with True get after before st1 show ?thesis by simp
  next
    case False
    have unshared_put: "unshared (put_session sid v s1) sid c" for v using before(2) by (auto simp: unshared_def)
    show ?thesis
    proof (cases "sse_sender st")
      case None
      then have "s2 = put_session sid (enqueue_pending e st2) s1" "w2 = w1"
        using p2 st1 st(3) False n x by (auto simp: broadcast_one_def)
      with False None get after before unshared_put x show ?thesis by (auto simp: enqueue_pending_def PENDING_LIMIT_def)
    next
      case (Some d)
      then have d: "d = c" using own(1) by simp
      obtain r w'' where t: "try_send C c e w1 = (r, w'')" by fastforce
      note recv = try_send_received [OF laws t]
      show ?thesis
      proof (cases "r = SendOk")
        case True
        then have "s2 = put_session sid (st2 \<lparr>last_activity := now\<rparr>) s1" "w2 = w''"
          using p2 st1 st(3) False n x Some d t by (auto simp: broadcast_one_def)
        with False True Some d get after before unshared_put x recv show ?thesis by auto
      next
        case bad: False
        then have "s2 = put_session sid (enqueue_pending e (st2 \<lparr>sse_sender := None\<rparr>)) s1" "w2 = w''"
          using p2 st1 st(3) False n x Some d t by (cases r; auto simp: broadcast_one_def)+
        with False bad get after before unshared_put x recv show ?thesis
          by (auto simp: enqueue_pending_def PENDING_LIMIT_def)
      qed
    qed
  qed
qed

theorem broadcast_audience_respected_witness:
  "\<exists>s' w'. broadcast_where (bounded_channel (\<lambda>_. 2)) (\<lambda>_. True) 1 \<lparr>serialized = ''m'', replay_key = None\<rparr> ToolList (\<lambda>_. True) demo_store (\<lambda>_. []) = (s', w') \<and>
     hget (sessions s') ''a'' = Some demo_session"
proof -
  let ?C = "bounded_channel (\<lambda>_. 2)" and ?m = "\<lparr>serialized = ''m'', replay_key = None\<rparr>"
  obtain s' w' where run: "broadcast_where ?C (\<lambda>_. True) 1 ?m ToolList (\<lambda>_. True) demo_store (\<lambda>_. []) = (s', w')"
    by (metis surj_pair)
  have st: "hget (sessions demo_store) ''a'' = Some demo_session" "\<not> session_expired 1 demo_store demo_session"
    "\<not> access_ended (\<lambda>_. True) demo_session"
    by (simp_all add: demo_store_def demo_session_def session_expired_def elapsed_def new_session_def access_ended_def
        session_store_new_def secs_def)
  have "hmap_ok (sessions demo_store)" "unshared demo_store ''a'' 0" "\<not> admits (audience demo_session) ToolList"
    "sse_sender demo_session = None"
    by (simp_all add: demo_store_def hmap_ok_def unshared_def demo_session_def new_session_def audience_default_def)
  with broadcast_audience_respected [OF bounded_channel_laws _ st _ _ run refl, of 0] run show ?thesis by auto
qed

end
