(* ===== verification/Continuations.thy ===== *)
theory Continuations
  imports Quotas Json
begin

section \<open>Continuations of multi-round requests (\<open>proxy/continuations.rs\<close>)\<close>

text \<open>
  The registry that parks a tool call between two rounds and hands out a one-time token for it.
  \<^item> Its operations are the critical sections of the code, each one step: reserving capacity,
    publishing a parked value, consuming a token, purging, revoking an owner, and
    publishing a new route snapshot. A reservation that a request holds across its upstream
    round is an argument of the operations that move it.
  \<^item> The signing codec of the SDK, SHA-256 and the JSON serializer are parameters, in
    \<open>continuation_env\<close>; \<open>codec_laws\<close> states what the codec promises.
  \<^item> The quota pool is shared with the rest of the program: a run interleaves acquisitions
    and drops of other holders' leases with those of the registry.
  A result \<open>None\<close> is a panic. Dropping a value is the explicit operation \<open>drop_reservation\<close>,
  at the place where the code's scope ends.
\<close>

type_synonym bytes = string

definition MRTR_MAX_REQUEST_STATE_BYTES :: nat where
  "MRTR_MAX_REQUEST_STATE_BYTES = 4 * 1024"

definition ASSOCIATED_DATA_DOMAIN :: bytes where
  "ASSOCIATED_DATA_DOMAIN = ''plug/mrtr/continuation-binding/v1'' @ [CHR 0x00]"

subsection \<open>Bindings and their parameters\<close>

datatype continuation_kind = ElicitationKind | SamplingKind | NativeToolRound

record continuation_binding =
  bind_principal :: string
  request_digest :: bytes
  route_digest :: bytes
  route_generation :: u64
  bind_kind :: continuation_kind

record continuation_env =
  sha256 :: "bytes \<Rightarrow> bytes"
  hex :: "bytes \<Rightarrow> string"
  json_to_vec :: "json \<Rightarrow> bytes"
  principal_to_vec :: "principal_id \<Rightarrow> bytes"
  binding_to_vec :: "continuation_binding \<Rightarrow> bytes"
  seal_json_with :: "instant \<Rightarrow> uuid \<Rightarrow> bytes \<Rightarrow> duration \<Rightarrow> string option"
  open_json_with :: "instant \<Rightarrow> string \<Rightarrow> bytes \<Rightarrow> uuid option"

definition owner_key :: "continuation_env \<Rightarrow> principal_id \<Rightarrow> string" where
  "owner_key env p = ''principal:'' @ hex env (sha256 env (principal_to_vec env p))"

definition canonical_tool_request_digest :: "continuation_env \<Rightarrow> string \<Rightarrow> json bmap option \<Rightarrow> bytes" where
  "canonical_tool_request_digest env name arguments =
     sha256 env (json_to_vec env (JObject
       (binsert ''method'' (JString ''tools/call'')
         (binsert ''name'' (JString name)
           (binsert ''arguments'' (case arguments of None \<Rightarrow> JNull | Some a \<Rightarrow> JObject a) [])))))"

definition binding_new ::
  "continuation_env \<Rightarrow> principal_id \<Rightarrow> bytes \<Rightarrow> string \<Rightarrow> u64 \<Rightarrow> continuation_kind \<Rightarrow> continuation_binding" where
  "binding_new env p digest route gen kind =
     \<lparr>bind_principal = owner_key env p, request_digest = digest, route_digest = sha256 env route,
      route_generation = gen, bind_kind = kind\<rparr>"

definition associated_data :: "continuation_env \<Rightarrow> continuation_binding \<Rightarrow> bytes" where
  "associated_data env b = sha256 env (ASSOCIATED_DATA_DOMAIN @ binding_to_vec env b)"

text \<open>
  What the codec promises: a sealed token opens to the payload it was sealed with, under the
  same associated data and before its time to live has passed, and not otherwise.
\<close>

definition codec_laws :: "continuation_env \<Rightarrow> bool" where
  "codec_laws env \<longleftrightarrow>
     (\<forall>now n ad ttl t. seal_json_with env now n ad ttl = Some t \<longrightarrow>
        (\<forall>now' ad' n'. open_json_with env now' t ad' = Some n' \<longleftrightarrow> n' = n \<and> ad' = ad \<and> now' < now + ttl))"

subsection \<open>Answers to the questions of a round\<close>

datatype continuation_error = Invalid | QuotaExceededError

fun error_outcome :: "continuation_error \<Rightarrow> protocol_outcome" where
  "error_outcome Invalid = ExpiredContinuation"
| "error_outcome QuotaExceededError = QuotaExceeded"

datatype input_request = ElicitationRequest json | CreateMessageRequest json | ListRootsRequest json | OtherRequest json

datatype result_type = ElicitResult | CreateMessageResult | ListRootsResult

definition validate_input_response_keys ::
  "input_request bmap \<Rightarrow> json bmap \<Rightarrow> continuation_error + unit" where
  "validate_input_response_keys requests responses =
     (if length requests = length responses \<and>
         list_all (\<lambda>(a, b). a = b) (zip (map fst requests) (map fst responses))
      then Inr () else Inl Invalid)"

text \<open>\<open>from_value\<close> stands for deserializing a value at one of the SDK's result types.\<close>

fun valid_response :: "(result_type \<Rightarrow> json \<Rightarrow> bool) \<Rightarrow> input_request \<Rightarrow> json \<Rightarrow> bool" where
  "valid_response from_value (ElicitationRequest r) v = from_value ElicitResult v"
| "valid_response from_value (CreateMessageRequest r) v = from_value CreateMessageResult v"
| "valid_response from_value (ListRootsRequest r) v = from_value ListRootsResult v"
| "valid_response from_value (OtherRequest r) v = False"

fun check_responses ::
  "(result_type \<Rightarrow> json \<Rightarrow> bool) \<Rightarrow> input_request bmap \<Rightarrow> json bmap \<Rightarrow> continuation_error + unit" where
  "check_responses from_value [] responses = Inr ()"
| "check_responses from_value ((key, request) # rest) responses =
     (case hget responses key of
        None \<Rightarrow> Inl Invalid
      | Some v \<Rightarrow> if valid_response from_value request v then check_responses from_value rest responses
                  else Inl Invalid)"

definition validate_input_responses ::
  "(result_type \<Rightarrow> json \<Rightarrow> bool) \<Rightarrow> input_request bmap \<Rightarrow> json bmap \<Rightarrow> continuation_error + unit" where
  "validate_input_responses from_value requests responses =
     (case validate_input_response_keys requests responses of
        Inl e \<Rightarrow> Inl e
      | Inr _ \<Rightarrow> check_responses from_value requests responses)"

subsection \<open>The registry\<close>

record reservation =
  count_lease :: quota_lease
  bytes_lease :: quota_lease
  res_owner :: string
  res_global_generation :: u64
  res_owner_generation :: u64

record owner_state =
  generation :: u64
  reservations :: u64

record 'v entry =
  entry_value :: 'v
  entry_binding :: continuation_binding
  expires_at :: instant
  entry_reservation :: reservation

record 'v registry =
  entries :: "(uuid, 'v entry) hmap"
  global_generation :: u64
  owners :: "(string, owner_state) hmap"
  quotas :: quota_counts
  quota_config :: admission_quota_config
  ttl :: duration

definition registry_new :: "admission_quota_config \<Rightarrow> quota_counts \<Rightarrow> duration \<Rightarrow> 'v registry" where
  "registry_new c q d = \<lparr>entries = [], global_generation = 0, owners = [], quotas = q, quota_config = c, ttl = d\<rparr>"

definition release_owner :: "string \<Rightarrow> (string, owner_state) hmap \<Rightarrow> (string, owner_state) hmap" where
  "release_owner owner m =
     (case hget m owner of
        None \<Rightarrow> m
      | Some st \<Rightarrow>
          (let n = reservations st - 1
           in if n = 0 then hremove owner m else hinsert owner (st \<lparr>reservations := n\<rparr>) m))"

definition drop_reservation :: "reservation \<Rightarrow> 'v registry \<Rightarrow> 'v registry" where
  "drop_reservation r reg =
     reg \<lparr>owners := release_owner (res_owner r) (owners reg),
          quotas := quota_lease_drop (bytes_lease r) (quota_lease_drop (count_lease r) (quotas reg))\<rparr>"

definition drop_entries :: "(uuid, 'v entry) hmap \<Rightarrow> 'v registry \<Rightarrow> 'v registry" where
  "drop_entries es reg = fold (\<lambda>e. drop_reservation (entry_reservation (snd e))) es reg"

definition purge_expired :: "instant \<Rightarrow> 'v registry \<Rightarrow> 'v registry" where
  "purge_expired now reg =
     drop_entries (hretain (\<lambda>_ e. \<not> now < expires_at e) (entries reg))
       (reg \<lparr>entries := hretain (\<lambda>_ e. now < expires_at e) (entries reg)\<rparr>)"

definition capture_with_global_generation :: "('w \<Rightarrow> 'r) \<Rightarrow> 'v registry \<Rightarrow> 'w \<Rightarrow> 'r \<times> u64" where
  "capture_with_global_generation capture reg w = (capture w, global_generation reg)"

definition checked_add :: "u64 \<Rightarrow> u64 \<Rightarrow> u64 option" where
  "checked_add a b = (if unat a + unat b < 2 ^ 64 then Some (a + b) else None)"

definition owner_or_default :: "string \<Rightarrow> (string, owner_state) hmap \<Rightarrow> owner_state" where
  "owner_or_default owner m =
     (case hget m owner of Some st \<Rightarrow> st | None \<Rightarrow> \<lparr>generation = 0, reservations = 0\<rparr>)"

text \<open>The last critical section of \<open>reserve_at\<close>: the leases are held, the state and owner locks are taken.\<close>

definition register_reservation ::
  "string \<Rightarrow> quota_lease \<Rightarrow> quota_lease \<Rightarrow> u64 \<Rightarrow> 'v registry \<Rightarrow>
   (continuation_error + reservation) option \<times> 'v registry" where
  "register_reservation owner l1 l2 expected reg =
     (if global_generation reg \<noteq> expected
      then (Some (Inl Invalid), reg \<lparr>quotas := quota_lease_drop l1 (quota_lease_drop l2 (quotas reg))\<rparr>)
      else let st = owner_or_default owner (owners reg)
           in case checked_add (reservations st) 1 of
                None \<Rightarrow> (None, reg)
              | Some n \<Rightarrow>
                  (Some (Inr \<lparr>count_lease = l1, bytes_lease = l2, res_owner = owner,
                              res_global_generation = expected, res_owner_generation = generation st\<rparr>),
                   reg \<lparr>owners := hinsert owner (st \<lparr>reservations := n\<rparr>) (owners reg)\<rparr>))"

definition reserve_at ::
  "continuation_env \<Rightarrow> instant \<Rightarrow> principal_id \<Rightarrow> u64 \<Rightarrow> u64 \<Rightarrow> 'v registry \<Rightarrow>
   (continuation_error + reservation) option \<times> 'v registry" where
  "reserve_at env now p payload_bytes expected reg =
     (let reg1 = purge_expired now reg
      in case quota_try_acquire (quota_config reg1) p Continuations 1 (quotas reg1) of
           Inl _ \<Rightarrow> (Some (Inl QuotaExceededError), reg1)
         | Inr (l1, q1) \<Rightarrow>
             (case quota_try_acquire (quota_config reg1) p ContinuationBytes payload_bytes q1 of
                Inl _ \<Rightarrow> (Some (Inl QuotaExceededError), reg1 \<lparr>quotas := quota_lease_drop l1 q1\<rparr>)
              | Inr (l2, q2) \<Rightarrow> register_reservation (owner_key env p) l1 l2 expected (reg1 \<lparr>quotas := q2\<rparr>)))"

definition reserve ::
  "continuation_env \<Rightarrow> instant \<Rightarrow> principal_id \<Rightarrow> u64 \<Rightarrow> 'v registry \<Rightarrow>
   (continuation_error + reservation) option \<times> 'v registry" where
  "reserve env now p payload_bytes reg = reserve_at env now p payload_bytes (global_generation reg) reg"

definition insert_reserved ::
  "continuation_env \<Rightarrow> uuid \<Rightarrow> instant \<Rightarrow> continuation_binding \<Rightarrow> 'v \<Rightarrow> reservation \<Rightarrow> 'v registry \<Rightarrow>
   (continuation_error + string) \<times> 'v registry" where
  "insert_reserved env nonce now b v r reg =
     (case seal_json_with env now nonce (associated_data env b) (ttl reg) of
        None \<Rightarrow> (Inl Invalid, drop_reservation r reg)
      | Some token \<Rightarrow>
          if MRTR_MAX_REQUEST_STATE_BYTES < length token then (Inl Invalid, drop_reservation r reg)
          else case hget (owners reg) (res_owner r) of
            None \<Rightarrow> (Inl Invalid, drop_reservation r reg)
          | Some st \<Rightarrow>
              if bind_principal b \<noteq> res_owner r \<or> global_generation reg \<noteq> res_global_generation r \<or>
                 generation st \<noteq> res_owner_generation r
              then (Inl Invalid, drop_reservation r reg)
              else if hget (entries reg) nonce \<noteq> None then (Inl Invalid, drop_reservation r reg)
              else (Inr token,
                    reg \<lparr>entries := hinsert nonce
                      \<lparr>entry_value = v, entry_binding = b, expires_at = now + ttl reg, entry_reservation = r\<rparr>
                      (entries reg)\<rparr>))"

definition consume ::
  "continuation_env \<Rightarrow> instant \<Rightarrow> string \<Rightarrow> continuation_binding \<Rightarrow> 'v registry \<Rightarrow>
   (continuation_error + ('v \<times> reservation)) \<times> 'v registry" where
  "consume env now token b reg =
     (if MRTR_MAX_REQUEST_STATE_BYTES < length token then (Inl Invalid, reg)
      else case open_json_with env now token (associated_data env b) of
        None \<Rightarrow> (Inl Invalid, reg)
      | Some nonce \<Rightarrow>
          (case hget (entries reg) nonce of
             None \<Rightarrow> (Inl Invalid, reg)
           | Some e \<Rightarrow>
               (let reg1 = reg \<lparr>entries := hremove nonce (entries reg)\<rparr>
                in if expires_at e \<le> now \<or> entry_binding e \<noteq> b
                   then (Inl Invalid, drop_reservation (entry_reservation e) reg1)
                   else (Inr (entry_value e, entry_reservation e), reg1))))"

definition revoke_owner_key :: "string \<Rightarrow> 'v registry \<Rightarrow> 'v registry" where
  "revoke_owner_key owner reg =
     (case hget (owners reg) owner of
        None \<Rightarrow> reg
      | Some st \<Rightarrow>
          drop_entries (hretain (\<lambda>_ e. bind_principal (entry_binding e) = owner) (entries reg))
            (reg \<lparr>owners := hinsert owner (st \<lparr>generation := generation st + 1\<rparr>) (owners reg),
                  entries := hretain (\<lambda>_ e. bind_principal (entry_binding e) \<noteq> owner) (entries reg)\<rparr>))"

definition revoke_principal :: "continuation_env \<Rightarrow> principal_id \<Rightarrow> 'v registry \<Rightarrow> 'v registry" where
  "revoke_principal env p reg = revoke_owner_key (owner_key env p) reg"

definition publish_with_invalidation :: "bool \<Rightarrow> ('w \<Rightarrow> 'w) \<Rightarrow> 'v registry \<Rightarrow> 'w \<Rightarrow> 'v registry \<times> 'w" where
  "publish_with_invalidation invalidate publish reg w =
     (if invalidate
      then drop_entries (entries reg) (reg \<lparr>global_generation := global_generation reg + 1, entries := []\<rparr>)
      else reg,
      publish w)"

definition invalidate_all_with :: "('w \<Rightarrow> 'w) \<Rightarrow> 'v registry \<Rightarrow> 'w \<Rightarrow> 'v registry \<times> 'w" where
  "invalidate_all_with publish reg w = publish_with_invalidation True publish reg w"

definition clear_registry :: "'v registry \<Rightarrow> 'v registry" where
  "clear_registry reg = fst (invalidate_all_with (\<lambda>_. ()) reg ())"

subsection \<open>Runs\<close>

text \<open>
  A run interleaves requests (each holding its reservation under a handle of its own between two
  operations), sweeps, revocations, route publications and the other users of the
  quota pool.
\<close>

datatype 'v cont_op =
    CReserve nat instant principal_id u64 u64
  | CInsert nat uuid instant continuation_binding 'v
  | CConsume nat instant string continuation_binding
  | CDrop nat
  | CPurge instant
  | CRevoke string
  | CPublish bool
  | CForeignAcquire principal_id quota_resource u64
  | CForeignDrop nat

record 'v cont_world =
  creg :: "'v registry"
  held :: "(nat, reservation) hmap"
  foreign :: "quota_lease list"

fun cont_exec :: "continuation_env \<Rightarrow> 'v cont_op \<Rightarrow> 'v cont_world \<Rightarrow> 'v cont_world" where
  "cont_exec env (CReserve h now p n g) w =
     (if hget (held w) h \<noteq> None then w
      else case reserve_at env now p n g (creg w) of
        (Some (Inr r), reg) \<Rightarrow> w \<lparr>creg := reg, held := hinsert h r (held w)\<rparr>
      | (_, reg) \<Rightarrow> w \<lparr>creg := reg\<rparr>)"
| "cont_exec env (CInsert h nonce now b v) w =
     (case hget (held w) h of
        None \<Rightarrow> w
      | Some r \<Rightarrow> w \<lparr>creg := snd (insert_reserved env nonce now b v r (creg w)), held := hremove h (held w)\<rparr>)"
| "cont_exec env (CConsume h now token b) w =
     (if hget (held w) h \<noteq> None then w
      else case consume env now token b (creg w) of
        (Inr (v, r), reg) \<Rightarrow> w \<lparr>creg := reg, held := hinsert h r (held w)\<rparr>
      | (Inl _, reg) \<Rightarrow> w \<lparr>creg := reg\<rparr>)"
| "cont_exec env (CDrop h) w =
     (case hget (held w) h of
        None \<Rightarrow> w
      | Some r \<Rightarrow> w \<lparr>creg := drop_reservation r (creg w), held := hremove h (held w)\<rparr>)"
| "cont_exec env (CPurge now) w = w \<lparr>creg := purge_expired now (creg w)\<rparr>"
| "cont_exec env (CRevoke owner) w = w \<lparr>creg := revoke_owner_key owner (creg w)\<rparr>"
| "cont_exec env (CPublish invalidate) w =
     w \<lparr>creg := fst (publish_with_invalidation invalidate (\<lambda>u. u) (creg w) ())\<rparr>"
| "cont_exec env (CForeignAcquire p r u) w =
     (case quota_try_acquire (quota_config (creg w)) p r u (quotas (creg w)) of
        Inl _ \<Rightarrow> w
      | Inr (l, q) \<Rightarrow> w \<lparr>creg := (creg w) \<lparr>quotas := q\<rparr>, foreign := l # foreign w\<rparr>)"
| "cont_exec env (CForeignDrop i) w =
     (if i < length (foreign w)
      then w \<lparr>creg := (creg w) \<lparr>quotas := quota_lease_drop (foreign w ! i) (quotas (creg w))\<rparr>,
             foreign := take i (foreign w) @ drop (Suc i) (foreign w)\<rparr>
      else w)"

definition world_new :: "admission_quota_config \<Rightarrow> duration \<Rightarrow> 'v cont_world" where
  "world_new c d = \<lparr>creg = registry_new c quota_counts_default d, held = [], foreign = []\<rparr>"

subsection \<open>The invariant: every live reservation is accounted for\<close>

definition owned_by :: "string \<Rightarrow> reservation multiset \<Rightarrow> nat" where
  "owned_by o' R = size (filter_mset (\<lambda>r. res_owner r = o') R)"

definition leases_of :: "reservation multiset \<Rightarrow> quota_lease multiset" where
  "leases_of R = image_mset count_lease R + image_mset bytes_lease R"

definition counts_one :: "reservation \<Rightarrow> bool" where
  "counts_one r \<longleftrightarrow> lease_resource (count_lease r) = Continuations \<and> lease_units (count_lease r) = 1 \<and>
     lease_resource (bytes_lease r) = ContinuationBytes"

text \<open>\<open>live_ok reg R F\<close>: the registry's owner table and the quota pool account for the live reservations
  \<open>R\<close> and the foreign leases \<open>F\<close>.\<close>

definition live_ok :: "'v registry \<Rightarrow> reservation multiset \<Rightarrow> quota_lease multiset \<Rightarrow> bool" where
  "live_ok reg R F \<longleftrightarrow>
     limits_ok (quota_config reg) \<and>
     (\<forall>o'. owned_by o' R = (case hget (owners reg) o' of None \<Rightarrow> 0 | Some st \<Rightarrow> unat (reservations st))) \<and>
     (\<forall>o' st. hget (owners reg) o' = Some st \<longrightarrow> reservations st \<noteq> 0) \<and>
     quota_represents (quota_config reg) (quotas reg) (leases_of R + F) \<and>
     (\<forall>r. r \<in># R \<longrightarrow> counts_one r)"

definition parked :: "(uuid, 'v entry) hmap \<Rightarrow> reservation multiset" where
  "parked es = mset (map (\<lambda>e. entry_reservation (snd e)) es)"

definition entry_current :: "'v registry \<Rightarrow> 'v entry \<Rightarrow> bool" where
  "entry_current reg e \<longleftrightarrow>
     bind_principal (entry_binding e) = res_owner (entry_reservation e) \<and>
     res_global_generation (entry_reservation e) = global_generation reg \<and>
     (\<forall>st. hget (owners reg) (res_owner (entry_reservation e)) = Some st \<longrightarrow>
        generation st = res_owner_generation (entry_reservation e))"

definition in_hands :: "'v cont_world \<Rightarrow> reservation multiset" where
  "in_hands w = mset (map snd (held w))"

definition live :: "'v cont_world \<Rightarrow> reservation multiset" where
  "live w = parked (entries (creg w)) + in_hands w"

definition cont_inv :: "'v cont_world \<Rightarrow> bool" where
  "cont_inv w \<longleftrightarrow>
     hmap_ok (entries (creg w)) \<and> hmap_ok (held w) \<and>
     live_ok (creg w) (live w) (mset (foreign w)) \<and>
     (\<forall>n e. hget (entries (creg w)) n = Some e \<longrightarrow> entry_current (creg w) e)"

lemma owned_by_simps [simp]:
  "owned_by o' {#} = 0"
  "owned_by o' (add_mset r R) = (if res_owner r = o' then 1 else 0) + owned_by o' R"
  "owned_by o' (R + R') = owned_by o' R + owned_by o' R'"
  by (simp_all add: owned_by_def)

lemma leases_of_simps [simp]:
  "leases_of {#} = {#}"
  "leases_of (add_mset r R) = add_mset (count_lease r) (add_mset (bytes_lease r) (leases_of R))"
  by (simp_all add: leases_of_def)

lemma drop_reservation_frame [simp]:
  "entries (drop_reservation r reg) = entries reg"
  "global_generation (drop_reservation r reg) = global_generation reg"
  "quota_config (drop_reservation r reg) = quota_config reg"
  "ttl (drop_reservation r reg) = ttl reg"
  by (simp_all add: drop_reservation_def)

lemma drop_entries_frame [simp]:
  "entries (drop_entries es reg) = entries reg"
  "global_generation (drop_entries es reg) = global_generation reg"
  "quota_config (drop_entries es reg) = quota_config reg"
  "ttl (drop_entries es reg) = ttl reg"
  unfolding drop_entries_def by (induction es arbitrary: reg) simp_all

lemma live_ok_entries [simp]: "live_ok (reg \<lparr>entries := es\<rparr>) = live_ok reg"
  by (simp add: live_ok_def fun_eq_iff)

lemma live_ok_global [simp]: "live_ok (reg \<lparr>global_generation := g\<rparr>) = live_ok reg"
  by (simp add: live_ok_def fun_eq_iff)

lemma release_owner_get:
  "hget (release_owner o' m) k =
     (case hget m k of
        None \<Rightarrow> None
      | Some st \<Rightarrow> if k \<noteq> o' then Some st
          else if reservations st = 1 then None else Some (st \<lparr>reservations := reservations st - 1\<rparr>))"
  by (auto simp: release_owner_def Let_def hmap_get split: option.splits)

lemma live_owner:
  assumes "live_ok reg R F" "r \<in># R"
  obtains st where "hget (owners reg) (res_owner r) = Some st" "reservations st \<noteq> 0"
    "unat (reservations st) = owned_by (res_owner r) R"
proof -
  from assms(2) have "0 < owned_by (res_owner r) R" by (auto dest: multi_member_split)
  with assms(1) that show thesis unfolding live_ok_def by (metis (no_types, lifting) less_numeral_extra(3) option.case_eq_if option.collapse)
qed

lemma unat_pred: "(n :: u64) \<noteq> 0 \<Longrightarrow> unat (n - 1) = unat n - 1"
  by (metis unat_minus_one)

lemma drop_reservation_ok:
  assumes "live_ok reg (add_mset r R) F"
  shows "live_ok (drop_reservation r reg) R F"
proof -
  from live_owner [OF assms, of r] obtain st where st: "hget (owners reg) (res_owner r) = Some st" "reservations st \<noteq> 0"
    "unat (reservations st) = Suc (owned_by (res_owner r) R)" by auto
  have one: "reservations st = 1 \<longleftrightarrow> owned_by (res_owner r) R = 0"
    using st(3) by (simp add: word_eq_iff_unsigned [where ?'a = nat])
  have old: "owned_by k (add_mset r R) = (case hget (owners reg) k of None \<Rightarrow> 0 | Some st \<Rightarrow> unat (reservations st))"
    "hget (owners reg) k = Some s \<Longrightarrow> reservations s \<noteq> 0" for k s
    using assms unfolding live_ok_def by blast+
  have "owned_by k R = (case hget (owners (drop_reservation r reg)) k of None \<Rightarrow> 0 | Some st \<Rightarrow> unat (reservations st))" for k
    using old(1) [of k] st one
    by (cases "k = res_owner r") (auto simp: drop_reservation_def release_owner_get unat_pred split: option.splits)
  moreover have "reservations s \<noteq> 0" if "hget (owners (drop_reservation r reg)) k = Some s" for k s
    using that old(2) [of k] by (auto simp: drop_reservation_def release_owner_get split: option.splits if_splits)
  moreover have "quota_represents (quota_config reg) (quotas (drop_reservation r reg)) (leases_of R + F)"
    using assms unfolding live_ok_def drop_reservation_def
    by (simp add: lease_drop_represents add_mset_commute)
  ultimately show ?thesis using assms unfolding live_ok_def by simp
qed

lemma drop_entries_ok: "live_ok reg (parked es + R) F \<Longrightarrow> live_ok (drop_entries es reg) R F"
proof (induction es arbitrary: reg)
  case (Cons e es)
  from Cons.prems have "live_ok (drop_reservation (entry_reservation (snd e)) reg) (parked es + R) F"
    by (intro drop_reservation_ok) (simp add: parked_def)
  from Cons.IH [OF this] show ?case by (simp add: drop_entries_def)
qed (simp add: drop_entries_def parked_def)

text \<open>Dropping reservations never changes the generation of an owner that stays.\<close>

lemma drop_reservation_generation:
  "hget (owners (drop_reservation r reg)) o' = Some st \<Longrightarrow>
     \<exists>st0. hget (owners reg) o' = Some st0 \<and> generation st = generation st0"
  by (auto simp: drop_reservation_def release_owner_get split: option.splits if_splits)

lemma drop_entries_generation:
  "hget (owners (drop_entries es reg)) o' = Some st \<Longrightarrow>
     \<exists>st0. hget (owners reg) o' = Some st0 \<and> generation st = generation st0"
proof (induction es arbitrary: reg)
  case (Cons e es)
  then show ?case unfolding drop_entries_def using drop_reservation_generation by fastforce
qed (simp add: drop_entries_def)

subsection \<open>Every operation keeps the invariant\<close>

lemma parked_hretain_split:
  "parked es = parked (hretain P es) + parked (hretain (\<lambda>k v. \<not> P k v) es)"
  unfolding hretain_def parked_def by (induction es) auto

lemma parked_hremove:
  assumes "hmap_ok es" "hget es n = Some e"
  shows "parked es = add_mset (entry_reservation e) (parked (hremove n es))"
  using assms
proof (induction es)
  case (Cons x es)
  show ?case
  proof (cases "fst x = n")
    case True
    with Cons.prems(1) have "hget es n = None" by (auto simp: hmap_ok_def map_of_eq_None_iff)
    then have "hremove n es = es" by (rule hremove_absent)
    then show ?thesis using True Cons.prems(2) by (cases x) (simp add: parked_def hremove_def)
  next
    case False
    with Cons.prems have "parked es = add_mset (entry_reservation e) (parked (hremove n es))"
      by (intro Cons.IH) (auto simp: hmap_ok_def split: if_splits)
    with False show ?thesis by (simp add: parked_def hremove_def)
  qed
qed simp

lemma held_hremove:
  assumes "hmap_ok m" "hget m h = Some (r :: reservation)"
  shows "mset (map snd m) = add_mset r (mset (map snd (hremove h m)))"
  using assms
proof (induction m)
  case (Cons x m)
  show ?case
  proof (cases "fst x = h")
    case True
    with Cons.prems(1) have "hget m h = None" by (auto simp: hmap_ok_def map_of_eq_None_iff)
    then have "hremove h m = m" by (rule hremove_absent)
    then show ?thesis using True Cons.prems(2) by (cases x) (simp add: hremove_def)
  next
    case False
    with Cons.prems have "mset (map snd m) = add_mset r (mset (map snd (hremove h m)))"
      by (intro Cons.IH) (auto simp: hmap_ok_def split: if_splits)
    with False show ?thesis by (simp add: hremove_def)
  qed
qed simp

lemma hinsert_new: "hget m k = None \<Longrightarrow> hinsert k v m = m @ [(k, v)]"
  unfolding hinsert_def by (induction m) (auto split: if_splits)

lemma hget_parked: "hmap_ok es \<Longrightarrow> hget es n = Some e \<Longrightarrow> entry_reservation e \<in># parked es"
  by (simp add: parked_hremove)

text \<open>What happens to the registry when some entries are taken out and dropped.\<close>

lemma drop_some_ok:
  assumes inv: "cont_inv w" and same: "quota_config reg = quota_config (creg w)" "quotas reg = quotas (creg w)"
    and count: "\<And>o'. map_option reservations (hget (owners reg) o') = map_option reservations (hget (owners (creg w)) o')"
    and es: "entries reg = hretain P (entries (creg w))"
    and current: "\<And>n e. hget (entries reg) n = Some e \<Longrightarrow> entry_current reg e"
  shows "cont_inv (w \<lparr>creg := drop_entries (hretain (\<lambda>k v. \<not> P k v) (entries (creg w))) reg\<rparr>)"
proof -
  let ?gone = "hretain (\<lambda>k v. \<not> P k v) (entries (creg w))"
  have ok: "live_ok (creg w) (live w) (mset (foreign w))" "hmap_ok (entries (creg w))" "hmap_ok (held w)"
    using inv by (auto simp: cont_inv_def)
  have live: "live w = parked ?gone + (parked (entries reg) + in_hands w)"
    using parked_hretain_split [of "entries (creg w)" P] by (simp add: live_def es)
  have "(case hget (owners reg) o' of None \<Rightarrow> 0 | Some st \<Rightarrow> unat (reservations st)) =
      (case hget (owners (creg w)) o' of None \<Rightarrow> 0 | Some st \<Rightarrow> unat (reservations st))" for o'
    using count [of o'] by (auto split: option.splits)
  moreover have "reservations st \<noteq> 0" if "hget (owners reg) o' = Some st" for o' st
  proof -
    from that count [of o'] obtain st0 where "hget (owners (creg w)) o' = Some st0" "reservations st0 = reservations st"
      by (cases "hget (owners (creg w)) o'") auto
    with ok(1) show ?thesis unfolding live_ok_def by metis
  qed
  ultimately have "live_ok reg (live w) (mset (foreign w))"
    using ok(1) by (simp add: live_ok_def same)
  then have "live_ok (drop_entries ?gone reg) (parked (entries reg) + in_hands w) (mset (foreign w))"
    unfolding live by (rule drop_entries_ok)
  moreover have "entry_current (drop_entries ?gone reg) e" if "hget (entries reg) n = Some e" for n e
    using current [OF that] drop_entries_generation [of ?gone reg] by (fastforce simp: entry_current_def)
  moreover have "hmap_ok (entries reg)" using ok(2) by (simp add: es hm.ok_retain)
  ultimately show ?thesis using ok(3) by (simp add: cont_inv_def live_def in_hands_def)
qed

lemma hretain_not_not: "hretain (\<lambda>k v. \<not> \<not> P k v) m = hretain P m"
  by simp

lemma purge_inv: "cont_inv w \<Longrightarrow> cont_inv (w \<lparr>creg := purge_expired now (creg w)\<rparr>)"
  unfolding purge_expired_def
  by (rule drop_some_ok) (auto simp: hm.get_retain_Some cont_inv_def entry_current_def)

lemma revoke_inv:
  assumes "cont_inv w"
  shows "cont_inv (w \<lparr>creg := revoke_owner_key owner (creg w)\<rparr>)"
proof (cases "hget (owners (creg w)) owner")
  case (Some st)
  have ok: "hmap_ok (entries (creg w))" using assms by (simp add: cont_inv_def)
  let ?reg = "(creg w) \<lparr>owners := hinsert owner (st \<lparr>generation := generation st + 1\<rparr>) (owners (creg w)),
      entries := hretain (\<lambda>_ e. bind_principal (entry_binding e) \<noteq> owner) (entries (creg w))\<rparr>"
  have "entry_current ?reg e" if "hget (entries ?reg) n = Some e" for n e
  proof -
    from that have e: "hget (entries (creg w)) n = Some e" "bind_principal (entry_binding e) \<noteq> owner"
      using hm.get_retain_Some [OF ok] by simp_all
    then have "entry_current (creg w) e" using assms by (simp add: cont_inv_def)
    with e(2) show ?thesis by (simp add: entry_current_def hm.get_ins)
  qed
  then have "cont_inv (w \<lparr>creg := drop_entries (hretain (\<lambda>k e. \<not> bind_principal (entry_binding e) \<noteq> owner) (entries (creg w))) ?reg\<rparr>)"
    by (intro drop_some_ok [OF assms]) (simp_all add: hm.get_ins Some)
  then show ?thesis by (simp add: revoke_owner_key_def Some)
qed (simp add: revoke_owner_key_def assms)

lemma publish_inv:
  assumes "cont_inv w"
  shows "cont_inv (w \<lparr>creg := fst (publish_with_invalidation invalidate f (creg w) u)\<rparr>)"
proof (cases invalidate)
  case True
  have "hretain (\<lambda>_ _. False) (entries (creg w)) = []" "hretain (\<lambda>_ _. True) (entries (creg w)) = entries (creg w)"
    by (simp_all add: hretain_def)
  then show ?thesis
    using drop_some_ok [OF assms, where P = "\<lambda>_ _. False" and
        reg = "(creg w) \<lparr>global_generation := global_generation (creg w) + 1, entries := []\<rparr>"] True
    by (simp add: publish_with_invalidation_def)
qed (simp add: publish_with_invalidation_def assms)

lemma drop_held_inv:
  assumes inv: "cont_inv w" and h: "hget (held w) h = Some r"
  shows "cont_inv (w \<lparr>creg := drop_reservation r (creg w), held := hremove h (held w)\<rparr>)"
proof -
  have ok: "live_ok (creg w) (live w) (mset (foreign w))" "hmap_ok (held w)" using inv by (auto simp: cont_inv_def)
  have "live w = add_mset r (parked (entries (creg w)) + mset (map snd (hremove h (held w))))"
    using held_hremove [OF ok(2) h] by (simp add: live_def in_hands_def)
  with ok(1) have "live_ok (drop_reservation r (creg w)) (parked (entries (creg w)) + mset (map snd (hremove h (held w)))) (mset (foreign w))"
    by (simp add: drop_reservation_ok)
  moreover have "entry_current (drop_reservation r (creg w)) e" if "hget (entries (creg w)) n = Some e" for n e
    using that inv drop_reservation_generation [of r "creg w"] by (fastforce simp: cont_inv_def entry_current_def)
  ultimately show ?thesis using inv by (auto simp: cont_inv_def live_def in_hands_def hm.ok_del)
qed

lemma insert_inv:
  assumes inv: "cont_inv w" and h: "hget (held w) h = Some r"
  shows "cont_inv (w \<lparr>creg := snd (insert_reserved env nonce now b v r (creg w)), held := hremove h (held w)\<rparr>)"
proof (cases "fst (insert_reserved env nonce now b v r (creg w))")
  case (Inl e)
  then have "snd (insert_reserved env nonce now b v r (creg w)) = drop_reservation r (creg w)"
    by (auto simp: insert_reserved_def split: option.splits if_splits)
  then show ?thesis using drop_held_inv [OF inv h] by simp
next
  case (Inr t)
  have ok: "live_ok (creg w) (live w) (mset (foreign w))" "hmap_ok (held w)" "hmap_ok (entries (creg w))"
    using inv by (auto simp: cont_inv_def)
  obtain e st where e: "snd (insert_reserved env nonce now b v r (creg w)) = (creg w) \<lparr>entries := hinsert nonce e (entries (creg w))\<rparr>"
    "hget (entries (creg w)) nonce = None" "entry_reservation e = r" "entry_current (creg w) e"
    using Inr by (auto simp: insert_reserved_def entry_current_def split: option.splits if_splits)
  have "live w = parked (entries (creg w)) + add_mset r (mset (map snd (hremove h (held w))))"
    using held_hremove [OF ok(2) h] by (simp add: live_def in_hands_def)
  moreover have "parked (hinsert nonce e (entries (creg w))) = add_mset r (parked (entries (creg w)))"
    using e(2,3) by (simp add: hinsert_new parked_def)
  ultimately have "live (w \<lparr>creg := (creg w) \<lparr>entries := hinsert nonce e (entries (creg w))\<rparr>, held := hremove h (held w)\<rparr>) = live w"
    by (simp add: live_def in_hands_def)
  then show ?thesis
    using inv e(1,4) ok by (auto simp: cont_inv_def hm.ok_ins hm.ok_del hm.get_ins entry_current_def split: if_splits)
qed

lemma taken_entry_inv:
  assumes inv: "cont_inv w" and e: "hget (entries (creg w)) n = Some e"
  shows "live_ok (creg w) (add_mset (entry_reservation e) (parked (hremove n (entries (creg w))) + in_hands w)) (mset (foreign w))"
    and "hmap_ok (hremove n (entries (creg w)))"
    and "hget (hremove n (entries (creg w))) k = Some x \<Longrightarrow> entry_current (creg w) x"
  using inv parked_hremove [OF _ e] by (auto simp: cont_inv_def live_def hm.get_del hm.ok_del split: if_splits)

lemma consume_cases:
  obtains (none) "consume env now token b reg = (Inl Invalid, reg)"
    | (bad) n e where "open_json_with env now token (associated_data env b) = Some n" "hget (entries reg) n = Some e"
        "consume env now token b reg =
           (Inl Invalid, drop_reservation (entry_reservation e) (reg \<lparr>entries := hremove n (entries reg)\<rparr>))"
    | (good) n e where "open_json_with env now token (associated_data env b) = Some n" "hget (entries reg) n = Some e"
        "now < expires_at e" "entry_binding e = b"
        "consume env now token b reg =
           (Inr (entry_value e, entry_reservation e), reg \<lparr>entries := hremove n (entries reg)\<rparr>)"
proof (cases "open_json_with env now token (associated_data env b)")
  case None
  then show thesis using none by (simp add: consume_def)
next
  case (Some n)
  show thesis
  proof (cases "hget (entries reg) n")
    case None
    then show thesis using none Some by (simp add: consume_def)
  next
    case (Some e)
    then show thesis
      using \<open>open_json_with env now token (associated_data env b) = Some n\<close> none bad [of n e] good [of n e]
      by (cases "MRTR_MAX_REQUEST_STATE_BYTES < length token"; cases "expires_at e \<le> now \<or> entry_binding e \<noteq> b")
        (simp_all add: consume_def Let_def not_le)
  qed
qed

lemma consume_inv:
  assumes inv: "cont_inv w" and h: "hget (held w) h = None"
  shows "cont_inv (cont_exec env (CConsume h now token b) w)"
proof -
  show ?thesis
  proof (cases rule: consume_cases [of env now token b "creg w"])
    case none
    then show ?thesis using h inv by simp
  next
    case (bad n e)
    note t = taken_entry_inv [OF inv bad(2)]
    let ?reg = "(creg w) \<lparr>entries := hremove n (entries (creg w))\<rparr>"
    have "live_ok (drop_reservation (entry_reservation e) ?reg) (parked (hremove n (entries (creg w))) + in_hands w) (mset (foreign w))"
      using t(1) by (intro drop_reservation_ok) simp
    moreover have "entry_current (drop_reservation (entry_reservation e) ?reg) x"
      if "hget (hremove n (entries (creg w))) k = Some x" for k x
      using t(3) [OF that] drop_reservation_generation [of "entry_reservation e" ?reg]
      by (fastforce simp: entry_current_def)
    ultimately show ?thesis
      using inv t(2) h bad(3) by (auto simp: cont_inv_def live_def in_hands_def)
  next
    case (good n e)
    note t = taken_entry_inv [OF inv good(2)]
    have "live_ok ((creg w) \<lparr>entries := hremove n (entries (creg w))\<rparr>)
        (parked (hremove n (entries (creg w))) + mset (map snd (hinsert h (entry_reservation e) (held w)))) (mset (foreign w))"
      using t(1) h by (simp add: hinsert_new in_hands_def)
    then show ?thesis
      using inv t(2,3) h good(5)
      by (auto simp: cont_inv_def live_def in_hands_def hm.ok_ins entry_current_def)
  qed
qed

subsubsection \<open>Reserving\<close>

lemma quota_try_acquire_lease:
  "quota_try_acquire c p r u q = Inr (l, q') \<Longrightarrow> l = \<lparr>lease_principal = p, lease_resource = r, lease_units = u\<rparr>"
  by (auto simp: quota_try_acquire_def Let_def split: if_splits)

lemma counted_le:
  assumes "\<And>r. r \<in># R \<Longrightarrow> counts_one r"
  shows "(\<Sum>l\<in>#leases_of R. lease_on l Continuations) = size R"
  using assms by (induction R) (auto simp: counts_one_def lease_on_def)

lemma owned_by_le: "owned_by o' R \<le> size R"
  by (simp add: owned_by_def size_filter_mset_lesseq)

text \<open>The overflow of the reservation counter is out of reach: every reservation holds a unit of a quota.\<close>

lemma reservations_bounded:
  assumes "live_ok reg R F" "\<And>r. r \<in># R \<Longrightarrow> counts_one r"
    and "quota_represents c q (add_mset l (leases_of R + F'))" "limits_ok c"
    and "lease_resource l = Continuations" "lease_units l = 1"
  shows "Suc (owned_by o' R) < 2 ^ 64"
proof -
  from represents_sums(1) [OF assms(3), of Continuations] represents_limits(1) [OF assms(3), of Continuations]
  have "Suc (size R) \<le> unat (limit c Continuations)"
    using counted_le [OF assms(2)] assms(5,6) by (simp add: lease_on_def)
  also have "\<dots> < 2 ^ 64" using unsigned_less [of "limit c Continuations", where ?'a = nat] by simp
  finally show ?thesis using owned_by_le [of o' R] by linarith
qed

lemma register_ok:
  assumes ok: "live_ok reg R F" and q: "quota_represents (quota_config reg) q (add_mset l1 (add_mset l2 (leases_of R + F)))"
    and l: "lease_resource l1 = Continuations" "lease_units l1 = 1" "lease_resource l2 = ContinuationBytes"
    and gen: "global_generation reg = expected"
  shows "\<exists>r reg'. register_reservation owner l1 l2 expected (reg \<lparr>quotas := q\<rparr>) = (Some (Inr r), reg') \<and>
    live_ok reg' (add_mset r R) F \<and> entries reg' = entries reg \<and> global_generation reg' = expected \<and>
    res_owner r = owner \<and> res_global_generation r = expected \<and>
    res_owner_generation r = generation (owner_or_default owner (owners reg)) \<and>
    (\<forall>o'. map_option generation (hget (owners reg') o') =
       (if o' = owner then Some (generation (owner_or_default owner (owners reg)))
        else map_option generation (hget (owners reg) o')))"
proof -
  let ?st = "owner_or_default owner (owners reg)"
  have lim: "limits_ok (quota_config reg)" and ones: "\<And>r. r \<in># R \<Longrightarrow> counts_one r"
    using ok by (auto simp: live_ok_def)
  have n: "unat (reservations ?st) = owned_by owner R"
    using ok by (auto simp: live_ok_def owner_or_default_def split: option.splits)
  have lt: "Suc (owned_by owner R) < 2 ^ 64"
    by (rule reservations_bounded [OF ok ones _ lim l(1,2), where F' = "add_mset l2 F"]) (use q in auto)
  then have add: "checked_add (reservations ?st) 1 = Some (reservations ?st + 1)"
    "unat (reservations ?st + 1) = Suc (owned_by owner R)"
    by (simp_all add: checked_add_def n unat_word_ariths)
  let ?r = "\<lparr>count_lease = l1, bytes_lease = l2, res_owner = owner, res_global_generation = expected,
      res_owner_generation = generation ?st\<rparr>"
  let ?reg = "reg \<lparr>quotas := q, owners := hinsert owner (?st \<lparr>reservations := reservations ?st + 1\<rparr>) (owners reg)\<rparr>"
  have nz: "reservations ?st + 1 \<noteq> 0" using add(2) by (metis nat.distinct(1) unat_0)
  have eq: "register_reservation owner l1 l2 expected (reg \<lparr>quotas := q\<rparr>) = (Some (Inr ?r), ?reg)"
    using gen add(1) by (simp add: register_reservation_def Let_def)
  have "live_ok ?reg (add_mset ?r R) F"
    using ok q l add(2) nz
    by (auto simp: live_ok_def hm.get_ins counts_one_def)
  with eq gen show ?thesis by (intro exI [of _ ?r] exI [of _ ?reg]) (auto simp: hm.get_ins)
qed

text \<open>What \<open>reserve_at\<close> can do: fail, with the leases given back, or register a reservation.\<close>

lemma reserve_at_cases [consumes 2]:
  assumes reg1: "reg1 = purge_expired now reg" and ok1: "live_ok reg1 (parked (entries reg1) + H) F"
  obtains (failed) e q where "reserve_at env now p n g reg = (Some (Inl e), reg1 \<lparr>quotas := q\<rparr>)"
      "live_ok (reg1 \<lparr>quotas := q\<rparr>) (parked (entries reg1) + H) F"
    | (reserved) r reg' where "reserve_at env now p n g reg = (Some (Inr r), reg')"
      "live_ok reg' (add_mset r (parked (entries reg1) + H)) F" "entries reg' = entries reg1"
      "global_generation reg' = g" "global_generation reg1 = g" "res_owner r = owner_key env p" "res_global_generation r = g"
      "res_owner_generation r = generation (owner_or_default (owner_key env p) (owners reg1))"
      "\<And>o'. map_option generation (hget (owners reg') o') =
         (if o' = owner_key env p then Some (generation (owner_or_default (owner_key env p) (owners reg1)))
          else map_option generation (hget (owners reg1) o'))"
proof -
  let ?c = "quota_config reg1" and ?R = "parked (entries reg1) + H"
  have lim: "limits_ok ?c" and rep: "quota_represents ?c (quotas reg1) (leases_of ?R + F)"
    using ok1 by (auto simp: live_ok_def)
  have upd: "live_ok (reg1 \<lparr>quotas := q\<rparr>) ?R F" if "quota_represents ?c q (leases_of ?R + F)" for q
    using ok1 that by (simp add: live_ok_def)
  show thesis
  proof (cases "quota_try_acquire ?c p Continuations 1 (quotas reg1)")
    case (Inl x)
    then have "reserve_at env now p n g reg = (Some (Inl QuotaExceededError), reg1 \<lparr>quotas := quotas reg1\<rparr>)"
      by (simp add: reserve_at_def Let_def reg1 [symmetric])
    then show thesis using upd [OF rep] by (rule failed)
  next
    case (Inr x)
    obtain l1 q1 where "x = (l1, q1)" by (cases x)
    with Inr have a1: "quota_try_acquire ?c p Continuations 1 (quotas reg1) = Inr (l1, q1)" by simp
    note r1 = try_acquire_represents [OF lim rep a1] and l1 = quota_try_acquire_lease [OF a1]
    show thesis
    proof (cases "quota_try_acquire ?c p ContinuationBytes n q1")
      case (Inl y)
      then have "reserve_at env now p n g reg = (Some (Inl QuotaExceededError), reg1 \<lparr>quotas := quota_lease_drop l1 q1\<rparr>)"
        by (simp add: reserve_at_def Let_def reg1 [symmetric] a1)
      then show thesis using upd [OF lease_drop_represents [OF r1]] by (rule failed)
    next
      case (Inr y)
      obtain l2 q2 where "y = (l2, q2)" by (cases y)
      with Inr have a2: "quota_try_acquire ?c p ContinuationBytes n q1 = Inr (l2, q2)" by simp
      note r2 = try_acquire_represents [OF lim r1 a2] and l2 = quota_try_acquire_lease [OF a2]
      have eq: "reserve_at env now p n g reg = register_reservation (owner_key env p) l1 l2 g (reg1 \<lparr>quotas := q2\<rparr>)"
        by (simp add: reserve_at_def Let_def reg1 [symmetric] a1 a2)
      show thesis
      proof (cases "global_generation reg1 = g")
        case False
        then have "reserve_at env now p n g reg = (Some (Inl Invalid), reg1 \<lparr>quotas := quota_lease_drop l1 (quota_lease_drop l2 q2)\<rparr>)"
          by (simp add: eq register_reservation_def)
        then show thesis using upd [OF lease_drop_represents [OF lease_drop_represents [OF r2]]] by (rule failed)
      next
        case True
        from r2 have rep2: "quota_represents ?c q2 (add_mset l1 (add_mset l2 (leases_of ?R + F)))"
          by (simp add: add_mset_commute)
        have "lease_resource l1 = Continuations" "lease_units l1 = 1" "lease_resource l2 = ContinuationBytes"
          by (simp_all add: l1 l2)
        from register_ok [OF ok1 rep2 this True, of "owner_key env p"] obtain r reg' where
          "register_reservation (owner_key env p) l1 l2 g (reg1 \<lparr>quotas := q2\<rparr>) = (Some (Inr r), reg')"
          and facts: "live_ok reg' (add_mset r ?R) F" "entries reg' = entries reg1"
          "global_generation reg' = g" "res_owner r = owner_key env p" "res_global_generation r = g"
          "res_owner_generation r = generation (owner_or_default (owner_key env p) (owners reg1))"
          and gens: "\<forall>o'. map_option generation (hget (owners reg') o') =
             (if o' = owner_key env p then Some (generation (owner_or_default (owner_key env p) (owners reg1)))
              else map_option generation (hget (owners reg1) o'))" by blast
        then have "reserve_at env now p n g reg = (Some (Inr r), reg')" by (simp add: eq)
        then show thesis using facts(1,2,3) True facts(4-6) gens [rule_format] by (rule reserved)
      qed
    qed
  qed
qed

lemma purged_live:
  assumes "cont_inv w"
  shows "live_ok (purge_expired now (creg w)) (parked (entries (purge_expired now (creg w))) + in_hands w) (mset (foreign w))"
    and "hmap_ok (entries (purge_expired now (creg w)))"
    and "hget (entries (purge_expired now (creg w))) n = Some e \<Longrightarrow> entry_current (purge_expired now (creg w)) e"
  using purge_inv [OF assms, of now] by (auto simp: cont_inv_def live_def in_hands_def)

lemma reserve_inv:
  assumes inv: "cont_inv w" and h: "hget (held w) h = None"
  shows "cont_inv (cont_exec env (CReserve h now p n g) w)"
proof -
  note pl = purged_live [OF inv, of now]
  let ?reg1 = "purge_expired now (creg w)"
  have ok: "live_ok (creg w) (live w) (mset (foreign w))" "hmap_ok (held w)" using inv by (auto simp: cont_inv_def)
  from refl pl(1) show ?thesis
  proof (cases rule: reserve_at_cases [where env = env and p = p and n = n and g = g])
    case (failed e q)
    then show ?thesis
      using pl(2,3) h ok(2) by (auto simp: cont_inv_def live_def in_hands_def entry_current_def)
  next
    case (reserved r reg')
    have "entry_current reg' e" if e: "hget (entries reg') k = Some e" for k e
    proof -
      have cur: "entry_current ?reg1 e" using pl(3) e reserved(3) by simp
      let ?o = "res_owner (entry_reservation e)"
      from e reserved(3) have "entry_reservation e \<in># parked (entries ?reg1) + in_hands w"
        using hget_parked [OF pl(2)] by simp
      from live_owner [OF pl(1) this] obtain st where "hget (owners ?reg1) ?o = Some st" by blast
      then have "generation (owner_or_default ?o (owners ?reg1)) = res_owner_generation (entry_reservation e)"
        "map_option generation (hget (owners ?reg1) ?o) = Some (res_owner_generation (entry_reservation e))"
        using cur by (simp_all add: owner_or_default_def entry_current_def)
      then have "map_option generation (hget (owners reg') ?o) = Some (res_owner_generation (entry_reservation e))"
        using reserved(9) [of ?o] by auto
      then show ?thesis using cur reserved(4,5) by (auto simp: entry_current_def)
    qed
    moreover have "mset (map snd (hinsert h r (held w))) = add_mset r (in_hands w)"
      using h by (simp add: hinsert_new in_hands_def)
    ultimately show ?thesis
      using reserved(1-3) h ok(2) pl(2) by (auto simp: cont_inv_def live_def in_hands_def hm.ok_ins)
  qed
qed

lemma foreign_acquire_inv:
  assumes "cont_inv w" and "quota_try_acquire (quota_config (creg w)) p r u (quotas (creg w)) = Inr (l, q)"
  shows "cont_inv (w \<lparr>creg := (creg w) \<lparr>quotas := q\<rparr>, foreign := l # foreign w\<rparr>)"
  using assms try_acquire_represents [OF _ _ assms(2)]
  by (simp add: cont_inv_def live_ok_def live_def in_hands_def entry_current_def)

lemma foreign_drop_inv:
  assumes inv: "cont_inv w" and i: "i < length (foreign w)"
  shows "cont_inv (w \<lparr>creg := (creg w) \<lparr>quotas := quota_lease_drop (foreign w ! i) (quotas (creg w))\<rparr>,
    foreign := take i (foreign w) @ drop (Suc i) (foreign w)\<rparr>)"
proof -
  have "quota_represents (quota_config (creg w)) (quotas (creg w))
      (add_mset (foreign w ! i) (leases_of (live w) + mset (take i (foreign w) @ drop (Suc i) (foreign w))))"
    using inv mset_remove_nth [OF i, symmetric] by (simp add: cont_inv_def live_ok_def)
  from lease_drop_represents [OF this] inv show ?thesis
    by (simp add: cont_inv_def live_ok_def live_def in_hands_def entry_current_def)
qed

lemma cont_exec_inv: "cont_inv w \<Longrightarrow> cont_inv (cont_exec env op w)"
proof (cases op)
  case (CReserve h now p n g)
  moreover assume "cont_inv w"
  ultimately show ?thesis using reserve_inv [of w h env now p n g] by (cases "hget (held w) h") auto
next
  case (CConsume h now token b)
  moreover assume "cont_inv w"
  ultimately show ?thesis using consume_inv [of w h env now token b] by (cases "hget (held w) h") auto
qed (auto intro: insert_inv drop_held_inv purge_inv revoke_inv publish_inv foreign_acquire_inv foreign_drop_inv
    split: option.splits sum.splits)

interpretation cont_runs: run_system "cont_exec env" cont_inv for env
  by unfold_locales (rule cont_exec_inv)

lemma world_new_inv: "limits_ok c \<Longrightarrow> cont_inv (world_new c d)"
  by (simp add: cont_inv_def world_new_def registry_new_def live_def in_hands_def parked_def live_ok_def
      quota_represents_empty)

lemma cont_reached_inv: "limits_ok c \<Longrightarrow> cont_inv (fold (cont_exec env) ops (world_new c d))"
  by (intro cont_runs.run_inv world_new_inv)

subsection \<open>Properties\<close>

definition live_of :: "string \<Rightarrow> 'v cont_world \<Rightarrow> nat" where
  "live_of owner w =
     length (filter (\<lambda>e. res_owner (entry_reservation (snd e)) = owner) (entries (creg w))) +
     length (filter (\<lambda>e. res_owner (snd e) = owner) (held w))"

lemma live_of_owned: "live_of owner w = owned_by owner (live w)"
  by (simp add: live_of_def owned_by_def live_def parked_def in_hands_def filter_mset_image_mset flip: size_mset mset_filter)

text \<open>
  C23. Capacity is accounted for exactly. However requests, sweeps, revocations, route changes and other users of the quota
  pool interleave, an owner has an entry in the owner table exactly while it has a live
  reservation (parked or held by a running request), and its counter is their number; the
  continuation quota in use is one unit per live reservation plus what others hold, within the
  limit; and no attempt to reserve ever panics on the counter's overflow.
\<close>

theorem continuation_accounting:
  assumes "limits_ok c" and w: "w = fold (cont_exec env) ops (world_new c d)"
  shows "(case hget (owners (creg w)) owner of None \<Rightarrow> live_of owner w = 0
      | Some st \<Rightarrow> unat (reservations st) = live_of owner w \<and> 0 < live_of owner w) \<and>
    global_usage (quotas (creg w)) Continuations =
      length (entries (creg w)) + length (held w) + (\<Sum>l\<leftarrow>foreign w. lease_on l Continuations) \<and>
    global_usage (quotas (creg w)) Continuations \<le> unat (limit (quota_config (creg w)) Continuations) \<and>
    fst (reserve_at env now p n g (creg w)) \<noteq> None"
proof (intro conjI)
  have inv: "cont_inv w" unfolding w by (rule cont_reached_inv [OF assms(1)])
  then have ok: "live_ok (creg w) (live w) (mset (foreign w))" by (simp add: cont_inv_def)
  have "owned_by owner (live w) = (case hget (owners (creg w)) owner of None \<Rightarrow> 0 | Some st \<Rightarrow> unat (reservations st))"
    "\<And>st. hget (owners (creg w)) owner = Some st \<Longrightarrow> reservations st \<noteq> 0"
    using ok unfolding live_ok_def by blast+
  then show "case hget (owners (creg w)) owner of None \<Rightarrow> live_of owner w = 0
      | Some st \<Rightarrow> unat (reservations st) = live_of owner w \<and> 0 < live_of owner w"
    by (auto simp: live_of_owned unat_gt_0 split: option.splits)
  have rep: "quota_represents (quota_config (creg w)) (quotas (creg w)) (leases_of (live w) + mset (foreign w))"
    using ok by (simp add: live_ok_def)
  show "global_usage (quotas (creg w)) Continuations =
      length (entries (creg w)) + length (held w) + (\<Sum>l\<leftarrow>foreign w. lease_on l Continuations)"
  proof -
    have "(\<Sum>l\<in>#leases_of (live w). lease_on l Continuations) = size (live w)"
      using ok by (intro counted_le) (simp add: live_ok_def)
    then show ?thesis
      using represents_sums(1) [OF rep, of Continuations]
      by (simp add: live_def parked_def in_hands_def sum_mset_sum_list flip: mset_map)
  qed
  show "global_usage (quotas (creg w)) Continuations \<le> unat (limit (quota_config (creg w)) Continuations)"
    by (rule represents_limits(1) [OF rep])
  show "fst (reserve_at env now p n g (creg w)) \<noteq> None"
    using refl purged_live(1) [OF inv, of now]
    by (cases rule: reserve_at_cases [where env = env and p = p and n = n and g = g]) simp_all
qed

subsubsection \<open>Revocation\<close>

text \<open>Operations that use up the reservation held under a handle, and that publish under a nonce.\<close>

fun takes_handle :: "nat \<Rightarrow> 'v cont_op \<Rightarrow> bool" where
  "takes_handle h (CInsert h' n now b v) = (h' = h)"
| "takes_handle h (CDrop h') = (h' = h)"
| "takes_handle h _ = False"

fun publishes :: "uuid \<Rightarrow> 'v cont_op \<Rightarrow> bool" where
  "publishes n (CInsert h n' now b v) = (n' = n)"
| "publishes n _ = False"

definition gen_of :: "string \<Rightarrow> 'v registry \<Rightarrow> u64 option" where
  "gen_of o' reg = map_option generation (hget (owners reg) o')"

lemma gen_of_drop:
  "gen_of o' (drop_reservation r reg) = Some g \<Longrightarrow> gen_of o' reg = Some g"
  "gen_of o' (drop_entries es reg) = Some g \<Longrightarrow> gen_of o' reg = Some g"
  using drop_reservation_generation [of r reg o'] drop_entries_generation [of es reg o'] by (auto simp: gen_of_def)

lemma gen_of_entries [simp]: "gen_of o' (reg \<lparr>entries := es\<rparr>) = gen_of o' reg"
  "gen_of o' (reg \<lparr>quotas := q\<rparr>) = gen_of o' reg" "gen_of o' (reg \<lparr>global_generation := gg\<rparr>) = gen_of o' reg"
  by (simp_all add: gen_of_def)

lemma gen_of_purge: "gen_of o' (purge_expired now reg) = Some g \<Longrightarrow> gen_of o' reg = Some g"
  unfolding purge_expired_def by (drule gen_of_drop(2)) simp

lemma gen_of_revoke:
  "gen_of o' (revoke_owner_key owner reg) = Some g \<Longrightarrow>
     \<exists>g0. gen_of o' reg = Some g0 \<and> g = (if o' = owner then g0 + 1 else g0)"
  by (auto simp: revoke_owner_key_def gen_of_def hm.get_ins split: option.splits if_splits
      dest!: drop_entries_generation)

lemma gen_of_insert: "gen_of o' (snd (insert_reserved env nonce now b v r reg)) = Some g \<Longrightarrow> gen_of o' reg = Some g"
  by (auto simp: insert_reserved_def split: option.splits if_splits dest: gen_of_drop)

lemma gen_of_consume: "gen_of o' (snd (consume env now token b reg)) = Some g \<Longrightarrow> gen_of o' reg = Some g"
  by (cases rule: consume_cases [of env now token b reg]) (auto dest: gen_of_drop)

lemma global_frame [simp]:
  "global_generation (purge_expired now reg) = global_generation reg"
  "global_generation (revoke_owner_key owner reg) = global_generation reg"
  "global_generation (snd (insert_reserved env nonce now b v r reg)) = global_generation reg"
  "global_generation (snd (consume env now token b reg)) = global_generation reg"
  by (auto simp: purge_expired_def revoke_owner_key_def insert_reserved_def consume_def Let_def split: option.splits)

lemma held_in_hands: "hget (held w) h = Some r \<Longrightarrow> r \<in># in_hands w"
  by (metis image_eqI in_hands_def list.set_map map_of_SomeD set_mset_mset snd_conv)

text \<open>One step of a generation: an owner's generation moves by at most one, and only an owner that is
  new, or whose reservations have all expired, starts again at zero.\<close>

lemma exec_gen_of:
  assumes inv: "cont_inv w" and g: "gen_of o' (creg (cont_exec env op w)) = Some g"
  shows "(\<exists>g0. gen_of o' (creg w) = Some g0 \<and> g = (if op = CRevoke o' then g0 + 1 else g0)) \<or>
    (g = 0 \<and> (\<forall>h r. hget (held w) h = Some r \<longrightarrow> res_owner r \<noteq> o'))"
proof (cases op)
  case (CReserve h now p n g')
  note pl = purged_live [OF inv, of now]
  show ?thesis
  proof (cases "hget (held w) h")
    case None
    have free: "res_owner r \<noteq> k" if "hget (owners (purge_expired now (creg w))) k = None" "hget (held w) h = Some r" for k h r
    proof -
      from that(2) have "r \<in># parked (entries (purge_expired now (creg w))) + in_hands w"
        by (simp add: held_in_hands [OF that(2)])
      from live_owner [OF pl(1) this] obtain st where "hget (owners (purge_expired now (creg w))) (res_owner r) = Some st"
        by blast
      with that(1) show ?thesis by auto
    qed
    from refl pl(1) show ?thesis
    proof (cases rule: reserve_at_cases [where env = env and p = p and n = n and g = g'])
      case (failed e q)
      then show ?thesis using g CReserve None by (auto dest: gen_of_purge)
    next
      case (reserved r reg')
      from g CReserve None reserved(1) have "gen_of o' reg' = Some g" by simp
      with reserved(9) [of o'] have "gen_of o' (purge_expired now (creg w)) = Some g \<or>
          g = 0 \<and> hget (owners (purge_expired now (creg w))) o' = None"
        by (auto simp: gen_of_def owner_or_default_def split: option.splits if_splits)
      then show ?thesis using CReserve free by (auto dest: gen_of_purge)
    qed
  qed (use g CReserve in auto)
next
  case (CConsume h now token b)
  have "gen_of o' (creg w) = Some g"
    using g CConsume gen_of_consume [of o' env now token b "creg w" g]
    by (auto split: option.splits sum.splits prod.splits if_splits)
  then show ?thesis using CConsume by simp
next
  case (CPublish i)
  then show ?thesis using g by (auto simp: publish_with_invalidation_def split: if_splits dest: gen_of_drop)
qed (use g in \<open>auto split: option.splits sum.splits if_splits
      dest: gen_of_insert gen_of_drop gen_of_purge gen_of_revoke\<close>)

lemma exec_global:
  assumes "cont_inv w"
  shows "global_generation (creg (cont_exec env op w)) =
     (if op = CPublish True then global_generation (creg w) + 1 else global_generation (creg w))"
proof (cases op)
  case (CReserve h now p n g)
  from refl purged_live(1) [OF assms, of now] show ?thesis
    by (cases rule: reserve_at_cases [where env = env and p = p and n = n and g = g]) (use CReserve in auto)
next
  case (CConsume h now token b)
  then show ?thesis using global_frame(4) [of env now token b "creg w"]
    by (auto split: option.splits sum.splits prod.splits simp del: global_frame)
next
  case (CPublish i)
  then show ?thesis by (auto simp: publish_with_invalidation_def)
qed (auto split: option.splits sum.splits)

lemma exec_held:
  assumes "hget (held w) h = Some r" "\<not> takes_handle h op"
  shows "hget (held (cont_exec env op w)) h = Some r"
  using assms by (cases op) (auto simp: hmap_get split: option.splits sum.splits prod.splits)

text \<open>Generations as they really advance, and the held reservations relative to them.\<close>

definition gens_inv :: "nat \<Rightarrow> 'v cont_world \<Rightarrow> bool" where
  "gens_inv n w \<longleftrightarrow> cont_inv w \<and> unat (global_generation (creg w)) \<le> n \<and>
     (\<forall>o' g. gen_of o' (creg w) = Some g \<longrightarrow> unat g \<le> n)"

definition recorded :: "reservation \<Rightarrow> 'v cont_world \<Rightarrow> bool" where
  "recorded r w \<longleftrightarrow> unat (res_global_generation r) \<le> unat (global_generation (creg w)) \<and>
     (\<forall>g. gen_of (res_owner r) (creg w) = Some g \<longrightarrow> unat (res_owner_generation r) \<le> unat g)"

definition overtaken :: "reservation \<Rightarrow> 'v cont_world \<Rightarrow> bool" where
  "overtaken r w \<longleftrightarrow> unat (res_global_generation r) < unat (global_generation (creg w)) \<or>
     (\<forall>g. gen_of (res_owner r) (creg w) = Some g \<longrightarrow> unat (res_owner_generation r) < unat g)"

lemma unat_next: "unat (g :: u64) \<le> n \<Longrightarrow> Suc n < 2 ^ 64 \<Longrightarrow> unat (g + 1) = Suc (unat g)"
  by (simp add: unat_word_ariths)

lemma gens_inv_step:
  assumes "gens_inv n w" "Suc n < 2 ^ 64"
  shows "gens_inv (Suc n) (cont_exec env op w)"
proof -
  have inv: "cont_inv w" using assms(1) by (simp add: gens_inv_def)
  have "unat g \<le> Suc n" if "gen_of o' (creg (cont_exec env op w)) = Some g" for o' g
    using exec_gen_of [OF inv that] assms unat_next [OF _ assms(2)]
    by (auto simp: gens_inv_def split: if_splits intro: le_SucI)
  moreover have "unat (global_generation (creg (cont_exec env op w))) \<le> Suc n"
    using assms unat_next [OF _ assms(2)] by (auto simp: gens_inv_def exec_global [OF inv])
  ultimately show ?thesis using cont_exec_inv [OF inv] by (simp add: gens_inv_def)
qed

lemma gens_inv_run:
  "gens_inv n w \<Longrightarrow> n + length ops < 2 ^ 64 \<Longrightarrow> gens_inv (n + length ops) (fold (cont_exec env) ops w)"
proof (induction ops arbitrary: n w)
  case (Cons op ops)
  from Cons.prems have "gens_inv (Suc n) (cont_exec env op w)" by (intro gens_inv_step) auto
  from Cons.IH [OF this] Cons.prems(2) show ?case by simp
qed simp

lemma gens_inv_new: "limits_ok c \<Longrightarrow> gens_inv 0 (world_new c d)"
  using world_new_inv [of c d] by (simp add: gens_inv_def gen_of_def world_new_def registry_new_def)

text \<open>While a reservation is held, its owner's generation and the global one only grow.\<close>

lemma held_generations:
  assumes "gens_inv n w" "Suc n < 2 ^ 64" "hget (held w) h = Some r"
  shows "unat (global_generation (creg w)) + (if op = CPublish True then 1 else 0) =
      unat (global_generation (creg (cont_exec env op w)))"
    and "gen_of (res_owner r) (creg (cont_exec env op w)) = Some g \<Longrightarrow>
      \<exists>g0. gen_of (res_owner r) (creg w) = Some g0 \<and> unat g = unat g0 + (if op = CRevoke (res_owner r) then 1 else 0)"
proof -
  have inv: "cont_inv w" using assms(1) by (simp add: gens_inv_def)
  show "unat (global_generation (creg w)) + (if op = CPublish True then 1 else 0) =
      unat (global_generation (creg (cont_exec env op w)))"
    using assms unat_next [OF _ assms(2)] by (simp add: gens_inv_def exec_global [OF inv])
  assume g: "gen_of (res_owner r) (creg (cont_exec env op w)) = Some g"
  show "\<exists>g0. gen_of (res_owner r) (creg w) = Some g0 \<and> unat g = unat g0 + (if op = CRevoke (res_owner r) then 1 else 0)"
    using exec_gen_of [OF inv g] assms unat_next [OF _ assms(2)] by (auto simp: gens_inv_def split: if_splits)
qed

lemma recorded_step:
  assumes "gens_inv n w" "Suc n < 2 ^ 64" "hget (held w) h = Some r"
  shows "recorded r w \<Longrightarrow> recorded r (cont_exec env op w)"
    and "overtaken r w \<Longrightarrow> overtaken r (cont_exec env op w)"
proof -
  let ?w = "cont_exec env op w"
  have glob: "unat (global_generation (creg w)) \<le> unat (global_generation (creg ?w))"
    using held_generations(1) [OF assms, of op env] by linarith
  have gen: "\<exists>g0. gen_of (res_owner r) (creg w) = Some g0 \<and> unat g0 \<le> unat g"
    if "gen_of (res_owner r) (creg ?w) = Some g" for g
    using held_generations(2) [OF assms that] by (metis le_add1)
  show "recorded r w \<Longrightarrow> recorded r ?w" using glob gen by (auto simp: recorded_def intro: le_trans)
  show "overtaken r w \<Longrightarrow> overtaken r ?w" using glob gen unfolding overtaken_def by (meson less_le_trans)
qed

lemma held_new_recorded:
  assumes inv: "cont_inv w" and r: "hget (held (cont_exec env op w)) h = Some r" "hget (held w) h \<noteq> Some r"
  shows "recorded r (cont_exec env op w)"
proof (cases op)
  case (CReserve h' now p n g)
  from refl purged_live(1) [OF inv, of now] show ?thesis
  proof (cases rule: reserve_at_cases [where env = env and p = p and n = n and g = g])
    case (reserved r' reg')
    with r CReserve have "r = r'" by (auto simp: hm.get_ins split: if_splits option.splits)
    with reserved(1,4,6-8) reserved(9) [of "owner_key env p"] r CReserve show ?thesis
      by (auto simp: recorded_def gen_of_def split: if_splits option.splits)
  qed (use r CReserve in \<open>auto split: if_splits\<close>)
next
  case (CConsume h' now token b)
  show ?thesis
  proof (cases rule: consume_cases [of env now token b "creg w"])
    case (good n e)
    with r CConsume have "r = entry_reservation e" "hget (held w) h' = None" by (auto simp: hm.get_ins split: if_splits option.splits)
    moreover have "entry_current (creg w) e" using inv good(2) by (simp add: cont_inv_def)
    ultimately show ?thesis using good(5) CConsume by (auto simp: recorded_def gen_of_def entry_current_def)
  qed (use r CConsume in \<open>auto split: if_splits\<close>)
qed (use r in \<open>auto simp: hmap_get split: option.splits sum.splits if_splits\<close>)

lemma held_recorded_run:
  "gens_inv n w \<Longrightarrow> n + length ops < 2 ^ 64 \<Longrightarrow> \<forall>h r. hget (held w) h = Some r \<longrightarrow> recorded r w \<Longrightarrow>
   hget (held (fold (cont_exec env) ops w)) h = Some r \<Longrightarrow> recorded r (fold (cont_exec env) ops w)"
proof (induction ops arbitrary: n w)
  case (Cons op ops)
  have inv: "cont_inv w" using Cons.prems(1) by (simp add: gens_inv_def)
  have "recorded x (cont_exec env op w)" if "hget (held (cont_exec env op w)) k = Some x" for k x
  proof (cases "hget (held w) k = Some x")
    case True
    then show ?thesis using Cons.prems(1-3) by (intro recorded_step(1) [of n w k]) auto
  qed (rule held_new_recorded [OF inv that])
  then show ?case
    using Cons.IH [of "Suc n" "cont_exec env op w"] gens_inv_step [OF Cons.prems(1), of env op] Cons.prems(2,4) by simp
qed simp

lemma overtaken_run:
  "gens_inv n w \<Longrightarrow> n + length ops < 2 ^ 64 \<Longrightarrow> hget (held w) h = Some r \<Longrightarrow> overtaken r w \<Longrightarrow>
   list_all (\<lambda>op. \<not> takes_handle h op) ops \<Longrightarrow>
   hget (held (fold (cont_exec env) ops w)) h = Some r \<and> overtaken r (fold (cont_exec env) ops w)"
proof (induction ops arbitrary: n w)
  case (Cons op ops)
  then show ?case
    using Cons.IH [of "Suc n" "cont_exec env op w"] gens_inv_step [OF Cons.prems(1), of env op]
      exec_held [OF Cons.prems(3), of op env] recorded_step(2) [OF Cons.prems(1) _ Cons.prems(3), of env op] by simp
qed simp

lemma overtaken_refused:
  assumes "overtaken r w"
  shows "fst (insert_reserved env nonce now b v r (creg w)) = Inl Invalid"
proof -
  have "global_generation (creg w) \<noteq> res_global_generation r \<or>
      (\<forall>st. hget (owners (creg w)) (res_owner r) = Some st \<longrightarrow> generation st \<noteq> res_owner_generation r)"
    using assms by (auto simp: overtaken_def gen_of_def)
  then show ?thesis by (auto simp: insert_reserved_def split: option.splits)
qed

lemma revoked_entries:
  assumes "hmap_ok (entries reg)" "hget (owners reg) owner \<noteq> None"
    and "hget (entries (revoke_owner_key owner reg)) n = Some e"
  shows "bind_principal (entry_binding e) \<noteq> owner"
  using assms by (auto simp: revoke_owner_key_def hm.get_retain_Some)

lemma revoke_overtakes:
  assumes "gens_inv n w" "Suc n < 2 ^ 64" "hget (held w) h = Some r" "recorded r w"
    and "op = CRevoke (res_owner r) \<or> op = CPublish True"
  shows "overtaken r (cont_exec env op w)"
  using assms(5)
proof
  assume op: "op = CRevoke (res_owner r)"
  have "unat (res_owner_generation r) < unat g" if "gen_of (res_owner r) (creg (cont_exec env op w)) = Some g" for g
    using held_generations(2) [OF assms(1-3) that] op assms(4) by (auto simp: recorded_def)
  then show ?thesis by (simp add: overtaken_def)
next
  assume op: "op = CPublish True"
  then show ?thesis
    using held_generations(1) [OF assms(1-3), of op env] assms(4) by (simp add: overtaken_def recorded_def)
qed

lemma global_mono:
  "gens_inv n w \<Longrightarrow> n + length ops < 2 ^ 64 \<Longrightarrow>
   unat (global_generation (creg w)) \<le> unat (global_generation (creg (fold (cont_exec env) ops w)))"
proof (induction ops arbitrary: n w)
  case (Cons op ops)
  have inv: "cont_inv w" using Cons.prems(1) by (simp add: gens_inv_def)
  have "unat (global_generation (creg w)) \<le> unat (global_generation (creg (cont_exec env op w)))"
    using Cons.prems by (simp add: exec_global [OF inv] gens_inv_def unat_next [where n = n])
  also have "\<dots> \<le> unat (global_generation (creg (fold (cont_exec env) ops (cont_exec env op w))))"
    using Cons.prems by (intro Cons.IH [of "Suc n"] gens_inv_step) auto
  finally show ?case by simp
qed simp

lemma reserve_at_stale:
  assumes "cont_inv w" "global_generation (creg w) \<noteq> g"
  shows "fst (reserve_at env now p n g (creg w)) \<noteq> Some (Inr r)"
  using refl purged_live(1) [OF assms(1), of now]
  by (cases rule: reserve_at_cases [where env = env and p = p and n = n and g = g]) (use assms(2) in auto)


subsubsection \<open>Tokens\<close>

lemma exec_entry:
  assumes inv: "cont_inv w" and new: "\<not> publishes n op" and e: "hget (entries (creg (cont_exec env op w))) n = Some e"
  shows "hget (entries (creg w)) n = Some e"
proof -
  have ok: "hmap_ok (entries (creg w))" using inv by (simp add: cont_inv_def)
  have purge: "hget (entries (purge_expired now (creg w))) n = Some e \<Longrightarrow> hget (entries (creg w)) n = Some e" for now
    by (simp add: purge_expired_def hm.get_retain_Some [OF ok])
  show ?thesis
  proof (cases op)
    case (CReserve h now p m g)
    from refl purged_live(1) [OF inv, of now] show ?thesis
      by (cases rule: reserve_at_cases [where env = env and p = p and n = m and g = g])
        (use CReserve e purge [of now] in \<open>auto split: if_splits\<close>)
  next
    case (CConsume h now token b)
    show ?thesis
      by (cases rule: consume_cases [of env now token b "creg w"])
        (use CConsume e in \<open>auto simp: hm.get_del split: if_splits\<close>)
  next
    case (CInsert h n' now b v)
    then show ?thesis
      using e new by (auto simp: insert_reserved_def hm.get_ins split: option.splits if_splits)
  qed (use e purge in \<open>auto simp: revoke_owner_key_def publish_with_invalidation_def hm.get_retain_Some [OF ok]
      split: option.splits sum.splits if_splits\<close>)
qed

lemma run_entry:
  "cont_inv w \<Longrightarrow> list_all (\<lambda>op. \<not> publishes n op) ops \<Longrightarrow>
   hget (entries (creg (fold (cont_exec env) ops w))) n = Some e \<Longrightarrow> hget (entries (creg w)) n = Some e"
proof (induction ops arbitrary: w)
  case (Cons op ops)
  then show ?case using cont_exec_inv [of w env op] exec_entry [of w n op env e] by auto
qed simp

lemma consume_Inr:
  assumes "fst (consume env now token b reg) = Inr x"
  shows "\<exists>n e. open_json_with env now token (associated_data env b) = Some n \<and> hget (entries reg) n = Some e \<and>
    entry_binding e = b \<and>
    consume env now token b reg = (Inr (entry_value e, entry_reservation e), reg \<lparr>entries := hremove n (entries reg)\<rparr>)"
  by (cases rule: consume_cases [of env now token b reg]) (use assms in simp_all)

lemma insert_reserved_Inr:
  assumes "insert_reserved env nonce now b v r reg = (Inr token, reg')"
  shows "seal_json_with env now nonce (associated_data env b) (ttl reg) = Some token"
    "length token \<le> MRTR_MAX_REQUEST_STATE_BYTES"
    "hget (entries reg') nonce = Some \<lparr>entry_value = v, entry_binding = b, expires_at = now + ttl reg, entry_reservation = r\<rparr>"
  using assms by (auto simp: insert_reserved_def hm.get_ins split: option.splits if_splits)

text \<open>
  C7. A token is good for one use by the request it was issued for. After a value is parked, whatever happens before
  (short of another value parked under the same random nonce), presenting the token succeeds only
  with the very binding it was issued for, before its time to live has passed, and
  gives the parked value and its reservation; while the entry is there it does succeed; and
  once it has succeeded, the token is refused ever after, with any binding.
\<close>

theorem token_single_use:
  assumes laws: "codec_laws env" and "limits_ok c" and w: "w = fold (cont_exec env) ops (world_new c d)"
    and h: "hget (held w) h = Some r"
    and ins: "insert_reserved env nonce now b v r (creg w) = (Inr token, reg1)"
    and fresh: "list_all (\<lambda>op. \<not> publishes nonce op) (ops1 @ ops2)"
    and w1: "w1 = fold (cont_exec env) (CInsert h nonce now b v # ops1) w"
    and h': "hget (held w1) h' = None"
    and w2: "w2 = fold (cont_exec env) (CConsume h' now' token b' # ops2) w1"
  shows "(\<forall>x. fst (consume env now' token b' (creg w1)) = Inr x \<longrightarrow>
       x = (v, r) \<and> b' = b \<and> now' < now + ttl (creg w) \<and>
       fst (consume env now'' token b'' (creg w2)) = Inl Invalid) \<and>
    (hget (entries (creg w1)) nonce \<noteq> None \<and> b' = b \<and> now' < now + ttl (creg w) \<longrightarrow>
       fst (consume env now' token b' (creg w1)) = Inr (v, r))"
proof -
  have inv: "cont_inv w" unfolding w by (rule cont_reached_inv [OF assms(2)])
  let ?e = "\<lparr>entry_value = v, entry_binding = b, expires_at = now + ttl (creg w), entry_reservation = r\<rparr>"
  let ?w0 = "cont_exec env (CInsert h nonce now b v) w"
  have inv0: "cont_inv ?w0" and inv1: "cont_inv w1"
    unfolding w1 fold_Cons o_apply by (intro cont_runs.run_inv cont_exec_inv inv)+
  note t = insert_reserved_Inr [OF ins]
  have w0: "hget (entries (creg ?w0)) nonce = Some ?e" using h ins t(3) by simp
  have opens: "open_json_with env k token ad = Some n \<longleftrightarrow>
      n = nonce \<and> ad = associated_data env b \<and> k < now + ttl (creg w)" for k ad n
    using laws t(1) unfolding codec_laws_def by blast
  have e1: "e = ?e" if "hget (entries (creg w1)) nonce = Some e" for e
    using run_entry [OF inv0, of nonce ops1 env e] that fresh w0 by (simp add: w1)
  show ?thesis
  proof (intro conjI allI impI)
    fix x assume x: "fst (consume env now' token b' (creg w1)) = Inr x"
    from consume_Inr [OF this] obtain n e where g: "open_json_with env now' token (associated_data env b') = Some n"
      "hget (entries (creg w1)) n = Some e" "entry_binding e = b'"
      "consume env now' token b' (creg w1) = (Inr (entry_value e, entry_reservation e), (creg w1) \<lparr>entries := hremove n (entries (creg w1))\<rparr>)"
      by blast
    have n: "n = nonce" "now' < now + ttl (creg w)" using g(1) opens by simp_all
    then have "e = ?e" using g(2) e1 by simp
    with n show "x = (v, r)" "b' = b" "now' < now + ttl (creg w)" using g(3,4) x by auto
    let ?w = "cont_exec env (CConsume h' now' token b') w1"
    have "hget (entries (creg ?w)) nonce = None" using g(4) h' n(1) by (simp add: hm.get_del)
    then have none: "hget (entries (creg w2)) nonce = None"
      using run_entry [OF cont_exec_inv [OF inv1], where n = nonce and ops = ops2 and env = env] fresh
      unfolding w2 fold_Cons o_apply by (metis list_all_append not_Some_eq)
    show "fst (consume env now'' token b'' (creg w2)) = Inl Invalid"
      by (cases rule: consume_cases [of env now'' token b'' "creg w2"]) (use none opens in auto)
  next
    assume a: "hget (entries (creg w1)) nonce \<noteq> None \<and> b' = b \<and> now' < now + ttl (creg w)"
    then have "hget (entries (creg w1)) nonce = Some ?e" using e1 by auto
    then show "fst (consume env now' token b' (creg w1)) = Inr (v, r)"
      using a t(2) opens [of now' "associated_data env b" nonce] by (simp add: consume_def)
  qed
qed

subsubsection \<open>Answers\<close>

lemma zip_all_equal: "length xs = length ys \<Longrightarrow> list_all (\<lambda>(a, b). a = b) (zip xs ys) \<longleftrightarrow> xs = ys"
  by (induction xs ys rule: list_induct2) auto

lemma bmap_keys_eq:
  assumes "bmap_ok m" "bmap_ok m'"
  shows "map fst m = map fst m' \<longleftrightarrow> dom (map_of m) = dom (map_of m')"
proof
  assume "dom (map_of m) = dom (map_of m')"
  then have "set (map fst m) = set (map fst m')" by (simp add: dom_map_of_conv_image_fst)
  then show "map fst m = map fst m'"
    using assms by (intro sorted_distinct_set_unique) (simp_all add: bmap_ok_def strict_sorted_iff)
qed (simp add: dom_map_of_conv_image_fst flip: set_map)

lemma check_responses_ok:
  "check_responses from_value reqs resps = Inr () \<longleftrightarrow>
     list_all (\<lambda>(k, q). \<exists>v. hget resps k = Some v \<and> valid_response from_value q v) reqs"
  by (induction reqs) (auto split: option.splits if_splits)

text \<open>
  An answer to a round is accepted exactly when it names precisely the questions asked, no fewer and no more, and each
  response deserializes as the result of the kind of question it answers; everything else is
  refused with the same error.
\<close>

theorem input_responses_exact:
  assumes "bmap_ok requests" "bmap_ok responses"
  shows "validate_input_responses from_value requests responses =
    (if dom (map_of requests) = dom (map_of responses) \<and>
        (\<forall>k q. hget requests k = Some q \<longrightarrow>
           (\<exists>v. hget responses k = Some v \<and> valid_response from_value q v))
     then Inr () else Inl Invalid)"
proof -
  have keys: "validate_input_response_keys requests responses =
      (if dom (map_of requests) = dom (map_of responses) then Inr () else Inl Invalid)"
  proof (cases "length requests = length responses")
    case True
    then show ?thesis
      using zip_all_equal [of "map fst requests" "map fst responses"] bmap_keys_eq [OF assms]
      by (simp add: validate_input_response_keys_def)
  next
    case False
    then have "map fst requests \<noteq> map fst responses" by (metis length_map)
    then show ?thesis using False bmap_keys_eq [OF assms] by (simp add: validate_input_response_keys_def)
  qed
  have each: "check_responses from_value requests responses = Inr () \<longleftrightarrow>
      (\<forall>k q. hget requests k = Some q \<longrightarrow> (\<exists>v. hget responses k = Some v \<and> valid_response from_value q v))"
    using hmap_mem_iff [OF bmap_ok_hmap_ok [OF assms(1)]] unfolding check_responses_ok list_all_iff by fastforce
  have "check_responses from_value requests responses \<in> {Inr (), Inl Invalid}"
    by (induction requests) (auto split: option.splits if_splits)
  then have "check_responses from_value requests responses =
      (if check_responses from_value requests responses = Inr () then Inr () else Inl Invalid)" by auto
  then show ?thesis unfolding each by (simp add: validate_input_responses_def keys)
qed

theorem input_responses_exact_witness:
  "validate_input_responses (\<lambda>_ v. v \<noteq> JNull) [(''a'', ElicitationRequest JNull), (''b'', ListRootsRequest JNull)]
     [(''a'', JBool True), (''b'', JObject [])] = Inr () \<and>
   validate_input_responses (\<lambda>_ v. v \<noteq> JNull) [(''a'', ElicitationRequest JNull)]
     [(''a'', JBool True), (''b'', JObject [])] = Inl Invalid"
  by (subst (1 2) input_responses_exact) (auto simp: bmap_ok_def)

text \<open>
  A concrete environment, to show that the laws can hold: the token carries its nonce, its expiry and
  the associated data in the clear.
\<close>

definition plain_token :: "uuid \<Rightarrow> nat \<Rightarrow> bytes \<Rightarrow> string" where
  "plain_token n e ad = show_nat (unat n) @ ''.'' @ show_nat e @ ''.'' @ ad"

definition plain_open :: "instant \<Rightarrow> string \<Rightarrow> bytes \<Rightarrow> uuid option" where
  "plain_open now t ad =
     (let n = digits_val (takeWhile is_digit t); e = digits_val (takeWhile is_digit (tl (dropWhile is_digit t)))
      in if t = plain_token (of_nat n) e ad \<and> now < e then Some (of_nat n) else None)"

definition plain_env :: continuation_env where
  "plain_env = \<lparr>sha256 = (\<lambda>b. b), hex = (\<lambda>b. b), json_to_vec = (\<lambda>_. ''json''),
     principal_to_vec = (\<lambda>_. ''p''), binding_to_vec = bind_principal,
     seal_json_with = (\<lambda>now n ad d. Some (plain_token n (now + d) ad)), open_json_with = plain_open\<rparr>"

lemma dot_not_digit: "\<not> is_digit (CHR ''.'')"
  by (simp add: is_digit_def)

lemma digits_prefix:
  "takeWhile is_digit (show_nat n @ CHR ''.'' # s) = show_nat n"
  "dropWhile is_digit (show_nat n @ CHR ''.'' # s) = CHR ''.'' # s"
  using show_nat_ok [of n] dot_not_digit by (simp_all add: list_all_iff)

lemma plain_codec_laws: "codec_laws plain_env"
  unfolding codec_laws_def
proof (intro allI impI)
  fix now n ad d t now' ad' n'
  assume "seal_json_with plain_env now n ad d = Some t"
  then have t: "t = plain_token n (now + d) ad" by (simp add: plain_env_def)
  then have "digits_val (takeWhile is_digit t) = unat n" "digits_val (takeWhile is_digit (tl (dropWhile is_digit t))) = now + d"
    using show_nat_ok by (simp_all add: plain_token_def digits_prefix)
  then show "(open_json_with plain_env now' t ad' = Some n') = (n' = n \<and> ad' = ad \<and> now' < now + d)"
    by (auto simp: plain_env_def plain_open_def Let_def) (auto simp: t plain_token_def)
qed

lemmas cont_eval =
  world_new_def registry_new_def reserve_at_def purge_expired_def drop_entries_def hretain_def quota_try_acquire_def
  register_reservation_def owner_or_default_def checked_add_def quota_counts_default_def admission_quota_config_default_def
  per_principal_limit_def count_of_def saturating_add_def hinsert_def Let_def

definition demo_reserved :: "string cont_world" where
  "demo_reserved = fold (cont_exec plain_env) [CReserve 0 0 (StdioProcess 1) 10 0]
     (world_new admission_quota_config_default 300)"

lemma demo_reserved_held:
  "\<exists>r. hget (held demo_reserved) 0 = Some r \<and> res_owner r = ''principal:p'' \<and> res_global_generation r = 0 \<and>
     res_owner_generation r = 0 \<and> hget (owners (creg demo_reserved)) ''principal:p'' = Some \<lparr>generation = 0, reservations = 1\<rparr> \<and>
     global_generation (creg demo_reserved) = 0 \<and> entries (creg demo_reserved) = [] \<and>
     ttl (creg demo_reserved) = 300 \<and> held demo_reserved = [(0, r)]"
  by (simp add: demo_reserved_def cont_eval owner_key_def plain_env_def)

definition demo_binding :: continuation_binding where
  "demo_binding = \<lparr>bind_principal = ''principal:p'', request_digest = ''d'', route_digest = ''r'',
     route_generation = 0, bind_kind = NativeToolRound\<rparr>"

theorem continuation_accounting_witness:
  "global_usage (quotas (creg demo_reserved)) Continuations = 1 \<and>
   (case hget (owners (creg demo_reserved)) ''principal:p'' of None \<Rightarrow> False | Some st \<Rightarrow> reservations st = 1) \<and>
   live_of ''principal:p'' demo_reserved = 1 \<and> foreign demo_reserved = []"
proof -
  obtain r where r: "hget (owners (creg demo_reserved)) ''principal:p'' = Some \<lparr>generation = 0, reservations = 1\<rparr>"
    "entries (creg demo_reserved) = []" "held demo_reserved = [(0, r)]"
    using demo_reserved_held by blast
  have f: "foreign demo_reserved = []" by (simp add: demo_reserved_def cont_eval)
  from continuation_accounting [OF limits_ok_default demo_reserved_def, of "''principal:p''"] r f show ?thesis
    by simp
qed


theorem token_single_use_witness:
  "\<exists>r token. hget (held demo_reserved) 0 = Some r \<and>
     fst (insert_reserved plain_env 7 5 demo_binding ''v'' r (creg demo_reserved)) = Inr token \<and>
     fst (consume plain_env 9 token demo_binding
       (creg (fold (cont_exec plain_env) [CInsert 0 7 5 demo_binding ''v''] demo_reserved))) = Inr (''v'', r) \<and>
     fst (consume plain_env 10 token demo_binding
       (creg (fold (cont_exec plain_env) [CInsert 0 7 5 demo_binding ''v'', CConsume 1 9 token demo_binding] demo_reserved))) = Inl Invalid"
proof -
  obtain r where r: "hget (held demo_reserved) 0 = Some r" "res_owner r = ''principal:p''" "res_global_generation r = 0"
    "res_owner_generation r = 0" "hget (owners (creg demo_reserved)) ''principal:p'' = Some \<lparr>generation = 0, reservations = 1\<rparr>"
    "global_generation (creg demo_reserved) = 0" "entries (creg demo_reserved) = []" "ttl (creg demo_reserved) = 300"
    "held demo_reserved = [(0, r)]"
    using demo_reserved_held by blast
  obtain token reg where i: "insert_reserved plain_env 7 5 demo_binding ''v'' r (creg demo_reserved) = (Inr token, reg)"
    using r by (simp add: insert_reserved_def plain_env_def demo_binding_def MRTR_MAX_REQUEST_STATE_BYTES_def
        associated_data_def ASSOCIATED_DATA_DOMAIN_def plain_token_def show_nat.simps)
  let ?w1 = "fold (cont_exec plain_env) [CInsert 0 7 5 demo_binding ''v''] demo_reserved"
  have w1: "creg ?w1 = reg" "held ?w1 = []" using i r(9) by (simp_all add: hremove_def)
  have e: "hget (entries (creg ?w1)) 7 \<noteq> None" unfolding w1 using insert_reserved_Inr(3) [OF i] by simp
  have h1: "hget (held ?w1) 1 = None" by (simp only: w1 map_of.simps)
  have fresh: "list_all (\<lambda>op. \<not> publishes 7 op) ([] @ [])" by simp
  note use = token_single_use [OF plain_codec_laws limits_ok_default demo_reserved_def r(1) i fresh refl h1 refl,
      of 9 demo_binding 10 demo_binding]
  have "fst (consume plain_env 9 token demo_binding (creg ?w1)) = Inr (''v'', r)"
    by (rule use [THEN conjunct2, THEN mp], intro conjI, rule e) (simp_all add: r(8))
  moreover have "fst (consume plain_env 10 token demo_binding
      (creg (fold (cont_exec plain_env) [CConsume 1 9 token demo_binding] ?w1))) = Inl Invalid"
    using use calculation by blast
  ultimately show ?thesis using i r(1)
    by (intro exI [of _ r] exI [of _ token]) simp
qed

end
