(* ===== verification/Rust_Strings.thy ===== *)
theory Rust_Strings
  imports Json "HOL-Library.Product_Lexorder"
begin

section \<open>The string functions of the Rust standard library\<close>

text \<open>
  What the naming and matching code uses of \<open>char\<close> and \<open>str\<close>, on ASCII text: letter case, splitting at a
  character, joining, substring search and replacement, trimming. A character beyond ASCII
  has no case here.
\<close>

abbreviation code :: "char \<Rightarrow> nat" where
  "code c \<equiv> of_char c"

definition is_upper :: "char \<Rightarrow> bool" where
  "is_upper c \<longleftrightarrow> 65 \<le> code c \<and> code c \<le> 90"

definition is_lower :: "char \<Rightarrow> bool" where
  "is_lower c \<longleftrightarrow> 97 \<le> code c \<and> code c \<le> 122"

definition is_alphanumeric :: "char \<Rightarrow> bool" where
  "is_alphanumeric c \<longleftrightarrow> is_upper c \<or> is_lower c \<or> is_digit c"

definition is_whitespace :: "char \<Rightarrow> bool" where
  "is_whitespace c \<longleftrightarrow> 9 \<le> code c \<and> code c \<le> 13 \<or> code c = 32"

definition to_lower :: "char \<Rightarrow> char" where
  "to_lower c = (if is_upper c then char_of (code c + 32) else c)"

definition to_upper :: "char \<Rightarrow> char" where
  "to_upper c = (if is_lower c then char_of (code c - 32) else c)"

fun split_by :: "(char \<Rightarrow> bool) \<Rightarrow> string \<Rightarrow> string list" where
  "split_by P [] = [[]]"
| "split_by P (c # cs) =
     (if P c then [] # split_by P cs
      else case split_by P cs of w # ws \<Rightarrow> (c # w) # ws | [] \<Rightarrow> [[c]])"

abbreviation split_at :: "char \<Rightarrow> string \<Rightarrow> string list" where
  "split_at d \<equiv> split_by (\<lambda>c. c = d)"

definition nonempty_words :: "string list \<Rightarrow> string list" where
  "nonempty_words ws = filter (\<lambda>w. w \<noteq> []) ws"

fun join :: "string \<Rightarrow> string list \<Rightarrow> string" where
  "join sep [] = []"
| "join sep [w] = w"
| "join sep (w # w' # ws) = w @ sep @ join sep (w' # ws)"

definition starts_with :: "string \<Rightarrow> string \<Rightarrow> bool" where
  "starts_with p s \<longleftrightarrow> take (length p) s = p"

definition ends_with :: "string \<Rightarrow> string \<Rightarrow> bool" where
  "ends_with p s \<longleftrightarrow> length p \<le> length s \<and> drop (length s - length p) s = p"

text \<open>The position of the first occurrence, as \<open>str::find\<close>.\<close>

fun find_str :: "string \<Rightarrow> string \<Rightarrow> nat option" where
  "find_str p s =
     (if starts_with p s then Some 0
      else case s of [] \<Rightarrow> None | _ # cs \<Rightarrow> map_option Suc (find_str p cs))"

declare find_str.simps [simp del]

definition str_contains :: "string \<Rightarrow> string \<Rightarrow> bool" where
  "str_contains p s \<longleftrightarrow> find_str p s \<noteq> None"

text \<open>\<open>str::split_once\<close> at a delimiter, and \<open>str::strip_suffix\<close>.\<close>

definition split_once :: "string \<Rightarrow> string \<Rightarrow> (string \<times> string) option" where
  "split_once d s = map_option (\<lambda>i. (take i s, drop (i + length d) s)) (find_str d s)"

definition strip_suffix :: "string \<Rightarrow> string \<Rightarrow> string option" where
  "strip_suffix p s = (if ends_with p s then Some (take (length s - length p) s) else None)"

definition trim_end_digits :: "string \<Rightarrow> string" where
  "trim_end_digits s = rev (dropWhile is_digit (rev s))"

text \<open>\<open>str::replace\<close> by the empty string: the leftmost non-overlapping occurrences are taken out.\<close>

function erase_str :: "string \<Rightarrow> string \<Rightarrow> string" where
  "erase_str p s =
     (if p = [] then s
      else case s of
        [] \<Rightarrow> []
      | c # cs \<Rightarrow> if starts_with p s then erase_str p (drop (length p) s) else c # erase_str p cs)"
  by auto
termination
  by (relation "measure (\<lambda>(p, s). length s)") auto

declare erase_str.simps [simp del]

definition split_whitespace :: "string \<Rightarrow> string list" where
  "split_whitespace s = nonempty_words (split_by is_whitespace s)"

subsection \<open>Laws\<close>

lemma starts_with_iff: "starts_with p s \<longleftrightarrow> (\<exists>t. s = p @ t)"
  by (metis append_eq_conv_conj append_take_drop_id starts_with_def)

lemma ends_with_iff: "ends_with p s \<longleftrightarrow> (\<exists>t. s = t @ p)"
proof
  assume "ends_with p s"
  then have "s = take (length s - length p) s @ p" unfolding ends_with_def by (metis append_take_drop_id)
  then show "\<exists>t. s = t @ p" by blast
qed (auto simp: ends_with_def)

lemma find_str_Some:
  "find_str p s = Some i \<Longrightarrow> \<exists>t. s = take i s @ p @ t \<and> i \<le> length s"
proof (induction s arbitrary: i)
  case Nil
  then show ?case by (auto simp: find_str.simps [of p] starts_with_iff split: if_splits)
next
  case (Cons c cs)
  then show ?case
    by (auto simp: find_str.simps [of p "c # cs"] starts_with_iff split: if_splits)
qed

text \<open>\<open>find_str\<close> finds the leftmost occurrence.\<close>

lemma find_str_least: "\<exists>j. find_str p (a @ p @ t) = Some j \<and> j \<le> length a"
proof (induction a)
  case Nil
  then show ?case by (simp add: find_str.simps [of p "p @ t"] starts_with_iff)
next
  case (Cons c a)
  then show ?case by (auto simp: find_str.simps [of p "c # a @ p @ t"])
qed

lemma find_str_None: "find_str p s = None \<longleftrightarrow> \<not> (\<exists>a t. s = a @ p @ t)"
  using find_str_least [of p] find_str_Some [of p s] by (metis option.distinct(1) option.exhaust)

lemma str_contains_iff: "str_contains p s \<longleftrightarrow> (\<exists>a t. s = a @ p @ t)"
  by (simp add: str_contains_def find_str_None)

lemma split_by_not_Nil [simp]: "split_by P s \<noteq> []"
  by (induction s) (auto split: list.splits)

lemma join_Cons: "ws \<noteq> [] \<Longrightarrow> join sep (w # ws) = w @ sep @ join sep ws"
  by (cases ws) auto

lemma join_split: "join [d] (split_at d s) = s"
proof (induction s)
  case (Cons c cs)
  then show ?case by (cases "split_at d cs"; cases "tl (split_at d cs)") (auto simp: join_Cons split: list.splits)
qed simp

lemma split_by_words: "w \<in> set (split_by P s) \<Longrightarrow> x \<in> set w \<Longrightarrow> \<not> P x"
proof (induction s arbitrary: w)
  case (Cons c cs)
  then show ?case by (cases "split_by P cs") (auto split: if_splits, blast)
qed simp

lemma split_by_append: "P d \<Longrightarrow> \<forall>x \<in> set w. \<not> P x \<Longrightarrow> split_by P (w @ d # s) = w # split_by P s"
  by (induction w) auto

lemma split_by_whole: "\<forall>x \<in> set w. \<not> P x \<Longrightarrow> split_by P w = [w]"
  by (induction w) auto

lemma split_join:
  "ws \<noteq> [] \<Longrightarrow> \<forall>w \<in> set ws. d \<notin> set w \<Longrightarrow> split_at d (join [d] ws) = ws"
proof (induction ws)
  case (Cons w ws)
  then have "\<forall>x \<in> set w. \<not> x = d" by auto
  with Cons show ?case
    by (cases "ws = []") (simp_all add: join_Cons split_by_whole split_by_append)
qed simp

lemma erase_empty [simp]: "erase_str [] s = s"
  by (simp add: erase_str.simps)

end
