(* ===== verification/Tool_Naming.thy ===== *)
theory Tool_Naming
  imports Rust_Strings
begin

section \<open>Tool names (\<open>tool_naming.rs\<close>)\<close>

text \<open>
  How the names of upstream tools become names on the wire: snake case, server prefixes, group rules and the
  prefixes that tell servers apart. The search for a free number is a recursion whose
  termination is proved from the finiteness of the names in use.
\<close>

subsection \<open>Sanitizing\<close>

text \<open>The loop over the characters; the first argument is the previous character.\<close>

fun snake :: "char option \<Rightarrow> string \<Rightarrow> string" where
  "snake prev [] = []"
| "snake prev (c # cs) =
     (if c = CHR ''-'' \<or> c = CHR ''.'' then CHR ''_'' # snake (Some c) cs
      else if is_upper c then
        (case prev of
           None \<Rightarrow> []
         | Some p \<Rightarrow>
             if is_lower p \<or> is_digit p then ''_''
             else if is_upper p \<and> (case cs of [] \<Rightarrow> False | n # _ \<Rightarrow> is_lower n) then ''_''
             else []) @ to_lower c # snake (Some c) cs
      else c # snake (Some c) cs)"

fun collapse :: "bool \<Rightarrow> string \<Rightarrow> string" where
  "collapse prev_underscore [] = []"
| "collapse prev_underscore (c # cs) =
     (if c = CHR ''_'' then (if prev_underscore then [] else ''_'') @ collapse True cs
      else c # collapse False cs)"

definition sanitize_tool_name :: "string \<Rightarrow> string" where
  "sanitize_tool_name name =
     (let collapsed = collapse True (snake None name)
      in if ends_with ''_'' collapsed then butlast collapsed else collapsed)"

subsection \<open>Prefixes, titles and wire names\<close>

text \<open>A word with its first letter in upper case.\<close>

fun capitalize :: "string \<Rightarrow> string" where
  "capitalize [] = []"
| "capitalize (c # cs) = to_upper c # cs"

definition format_server_prefix :: "string \<Rightarrow> string" where
  "format_server_prefix server =
     (if map to_lower server = ''github'' then ''GitHub''
      else if map to_lower server = ''imessage'' then ''IMessage''
      else capitalize server)"

definition generate_title :: "string \<Rightarrow> string \<Rightarrow> string" where
  "generate_title server_prefix tool =
     server_prefix @ '': '' @ join '' '' (map capitalize (split_at (CHR ''_'') tool))"

definition build_wire_name :: "string \<Rightarrow> string \<Rightarrow> string \<Rightarrow> string" where
  "build_wire_name server_prefix tool delimiter = server_prefix @ delimiter @ tool"

subsection \<open>Group rules\<close>

record tool_group_rule =
  rule_prefix :: string
  rule_contains :: "string list"
  rule_strip :: "string list"

record classify_result =
  result_prefix :: string
  result_name :: string
  result_strip :: "string list"

fun classify_with_rules :: "string \<Rightarrow> tool_group_rule list \<Rightarrow> classify_result option" where
  "classify_with_rules tool [] = None"
| "classify_with_rules tool (rule # rules) =
     (if list_ex (\<lambda>kw. str_contains kw tool) (rule_contains rule)
      then Some \<lparr>result_prefix = rule_prefix rule, result_name = tool, result_strip = rule_strip rule\<rparr>
      else classify_with_rules tool rules)"

text \<open>The loop over the start positions: the words before the first match, and those after it.\<close>

fun cut_run :: "string list \<Rightarrow> string list \<Rightarrow> (string list \<times> string list) option" where
  "cut_run kw ws =
     (if take (length kw) ws = kw then Some ([], drop (length kw) ws)
      else case ws of
        [] \<Rightarrow> None
      | w # ws' \<Rightarrow> map_option (\<lambda>(a, b). (w # a, b)) (cut_run kw ws'))"

declare cut_run.simps [simp del]

definition strip_keyword :: "string \<Rightarrow> string \<Rightarrow> string" where
  "strip_keyword tool keyword =
     (if tool = keyword then tool
      else case cut_run (nonempty_words (split_at (CHR ''_'') keyword)) (nonempty_words (split_at (CHR ''_'') tool)) of
        None \<Rightarrow> tool
      | Some (before, after) \<Rightarrow>
          (let result = join ''_'' (before @ after) in if result = [] then tool else result))"

fun strip_keywords :: "string \<Rightarrow> string list \<Rightarrow> string" where
  "strip_keywords tool [] = tool"
| "strip_keywords tool (kw # kws) =
     (let stripped = strip_keyword tool kw in if stripped \<noteq> tool then stripped else strip_keywords tool kws)"

definition strip_keyword_from_title :: "string \<Rightarrow> string \<Rightarrow> string" where
  "strip_keyword_from_title title keyword =
     (let kw_title = join '' '' (map capitalize (split_at (CHR ''_'') keyword));
          cleaned = join '' '' (split_whitespace (erase_str kw_title title))
      in if cleaned = [] then title else cleaned)"

definition group :: "string \<Rightarrow> string list \<Rightarrow> string list \<Rightarrow> tool_group_rule" where
  "group p cs ss = \<lparr>rule_prefix = p, rule_contains = cs, rule_strip = ss\<rparr>"

definition default_workspace_rules :: "tool_group_rule list" where
  "default_workspace_rules =
     [group ''Gmail'' [''gmail''] [''gmail''],
      group ''GoogleDrive'' [''drive''] [''drive''],
      group ''GoogleSheets'' [''spreadsheet'', ''sheet'', ''conditional_formatting''] [''spreadsheet'', ''sheet''],
      group ''GoogleSlides'' [''presentation'', ''page_thumbnail'', ''get_page''] [''presentation''],
      group ''GoogleDocs'' [''_doc'', ''doc_'', ''document'', ''paragraph'', ''table_with_data'', ''table_structure'',
          ''find_and_replace''] [''doc'', ''document''],
      group ''GoogleCalendar'' [''event'', ''calendar'', ''freebusy''] [''calendar''],
      group ''GoogleContacts'' [''contact''] [''contact'', ''contacts''],
      group ''GoogleTasks'' [''task''] [''task'', ''tasks''],
      group ''GoogleChat'' [''spaces'', ''reaction'', ''chat_'', ''send_message'', ''get_messages'', ''search_messages''] [''chat''],
      group ''GoogleForms'' [''form''] [''form''],
      group ''GoogleAppsScript'' [''script'', ''deployment'', ''version'', ''trigger_code'', ''publish_settings''] [''script''],
      group ''GoogleAuth'' [''google_auth''] [''google_auth''],
      group ''GoogleSearch'' [''search_engine'', ''search_custom''] []]"

definition GOOGLE_WORKSPACE_REPORTED_NAME :: string where
  "GOOGLE_WORKSPACE_REPORTED_NAME = ''google_workspace''"

definition builtin_group_rules :: "string \<Rightarrow> string option \<Rightarrow> tool_group_rule list option" where
  "builtin_group_rules server reported =
     (if server = ''workspace'' \<or> reported = Some GOOGLE_WORKSPACE_REPORTED_NAME
      then Some default_workspace_rules else None)"

definition classify_workspace_tool :: "string \<Rightarrow> string \<times> string" where
  "classify_workspace_tool tool =
     (let has = (\<lambda>kw. str_contains kw tool) in
      (if has ''gmail'' then ''Gmail''
       else if has ''drive'' then ''GoogleDrive''
       else if has ''sheet'' \<or> has ''spreadsheet'' \<or> has ''conditional_formatting'' then ''GoogleSheets''
       else if has ''presentation'' \<or> has ''page_thumbnail'' \<or> tool = ''get_page'' then ''GoogleSlides''
       else if has ''doc_'' \<or> has ''docs_'' \<or> ends_with ''_doc'' tool \<or> ends_with ''_docs'' tool \<or>
         has ''document'' \<or> has ''paragraph'' \<or> tool = ''import_to_google_doc'' \<or> has ''table_with_data'' \<or>
         has ''table_structure'' \<or> has ''find_and_replace'' \<or> tool = ''search_docs'' \<or>
         tool = ''batch_update_doc'' \<or> tool = ''create_doc'' then ''GoogleDocs''
       else if has ''event'' \<or> has ''calendar'' \<or> has ''freebusy'' then ''GoogleCalendar''
       else if has ''contact'' then ''GoogleContacts''
       else if has ''task'' then ''GoogleTasks''
       else if tool = ''send_message'' \<or> tool = ''get_messages'' \<or> tool = ''search_messages'' \<or>
         has ''spaces'' \<or> has ''reaction'' \<or> has ''chat_'' then ''GoogleChat''
       else if has ''form'' then ''GoogleForms''
       else if has ''script'' \<or> has ''deployment'' \<or> has ''version'' \<or> has ''trigger_code'' \<or>
         has ''publish_settings'' then ''GoogleAppsScript''
       else if has ''google_auth'' then ''GoogleAuth''
       else if has ''search_engine'' \<or> tool = ''search_custom'' then ''GoogleSearch''
       else ''GoogleWorkspace'', tool))"

subsection \<open>Telling servers apart\<close>

definition add_server :: "string \<times> string \<times> string \<Rightarrow> (string \<times> string, string list) hmap \<Rightarrow>
  (string \<times> string, string list) hmap" where
  "add_server claim m =
     (case claim of (server, p, name) \<Rightarrow>
        hinsert (p, name) (List.insert server (case hget m (p, name) of None \<Rightarrow> [] | Some ss \<Rightarrow> ss)) m)"

text \<open>Claims are triples of a server, the prefix and the name; the result lists a set.\<close>

definition shared_prefixes :: "(string \<times> string \<times> string) list \<Rightarrow> string list" where
  "shared_prefixes claims =
     remdups (map (\<lambda>((p, name), ss). p) (filter (\<lambda>(k, ss). 1 < length ss) (fold add_server claims [])))"

definition prefix_for_server :: "string \<Rightarrow> string \<Rightarrow> string" where
  "prefix_for_server p server =
     p @ concat (map format_server_prefix (nonempty_words (split_by (\<lambda>c. \<not> is_alphanumeric c) server)))"

lemma finite_numbered: "finite {m. base @ show_nat m \<in> set excluded}"
proof (rule finite_imageD)
  show "finite ((\<lambda>m. base @ show_nat m) ` {m. base @ show_nat m \<in> set excluded})"
    by (rule finite_subset [of _ "set excluded"]) auto
  show "inj_on (\<lambda>m. base @ show_nat m) {m. base @ show_nat m \<in> set excluded}"
    by (auto simp: inj_on_def show_nat_inj)
qed

function find_number :: "string list \<Rightarrow> string \<Rightarrow> nat \<Rightarrow> string" where
  "find_number excluded base n =
     (if base @ show_nat n \<in> set excluded then find_number excluded base (Suc n) else base @ show_nat n)"
  by auto

termination
proof (relation "measure (\<lambda>(excluded, base, n). card {m. n \<le> m \<and> base @ show_nat m \<in> set excluded})", goal_cases)
  case (2 excluded base n)
  have "finite {m. n \<le> m \<and> base @ show_nat m \<in> set excluded}"
    by (rule finite_subset [OF _ finite_numbered [of base excluded]]) auto
  moreover have "{m. Suc n \<le> m \<and> base @ show_nat m \<in> set excluded} \<subset> {m. n \<le> m \<and> base @ show_nat m \<in> set excluded}"
  proof
    show "{m. Suc n \<le> m \<and> base @ show_nat m \<in> set excluded} \<subseteq> {m. n \<le> m \<and> base @ show_nat m \<in> set excluded}" by auto
    have "n \<in> {m. n \<le> m \<and> base @ show_nat m \<in> set excluded}" using 2 by simp
    moreover have "n \<notin> {m. Suc n \<le> m \<and> base @ show_nat m \<in> set excluded}" by simp
    ultimately show "{m. Suc n \<le> m \<and> base @ show_nat m \<in> set excluded} \<noteq> {m. n \<le> m \<and> base @ show_nat m \<in> set excluded}"
      by metis
  qed
  ultimately show ?case by (simp add: psubset_card_mono)
qed simp

declare find_number.simps [simp del]

fun assign_prefixes ::
  "string list \<Rightarrow> string list \<Rightarrow> (string \<times> string) list \<Rightarrow> ((string \<times> string) \<times> string) list" where
  "assign_prefixes unnumbered taken [] = []"
| "assign_prefixes unnumbered taken ((p, server) # claims) =
     (let plain = prefix_for_server p server;
          qualified = (if plain \<in> set taken then find_number (taken @ unnumbered) plain 2 else plain)
      in ((p, server), qualified) # assign_prefixes unnumbered (qualified # taken) claims)"

text \<open>The claims are a \<open>BTreeSet\<close>: sorted, without repetition.\<close>

definition prefixes_for_servers ::
  "(string \<times> string) list \<Rightarrow> string list \<Rightarrow> ((string \<times> string), string) hmap" where
  "prefixes_for_servers claims in_use =
     (let cs = sorted_list_of_set (set claims);
          unnumbered = map (\<lambda>(p, server). prefix_for_server p server) cs
      in assign_prefixes unnumbered in_use cs)"

definition other_names :: "string \<Rightarrow> string \<Rightarrow> string \<Rightarrow> string list" where
  "other_names wire server delimiter =
     (case split_once delimiter wire of
        None \<Rightarrow> []
      | Some (p, rest) \<Rightarrow>
          (let suffix = prefix_for_server [] server
           in if suffix = [] then []
              else (p @ suffix @ delimiter @ rest) #
                (case strip_suffix suffix (trim_end_digits p) of
                   Some base \<Rightarrow> if base \<noteq> [] then [base @ delimiter @ rest] else []
                 | None \<Rightarrow> [])))"

subsection \<open>Snake case\<close>

text \<open>No two underscores in a row, the flag saying whether one comes before.\<close>

fun tidy :: "bool \<Rightarrow> string \<Rightarrow> bool" where
  "tidy prev [] = True"
| "tidy prev (c # cs) = (if c = CHR ''_'' then \<not> prev \<and> tidy True cs else tidy False cs)"

definition plain_char :: "char \<Rightarrow> bool" where
  "plain_char c \<longleftrightarrow> \<not> is_upper c \<and> c \<noteq> CHR ''-'' \<and> c \<noteq> CHR ''.''"

definition snake_case :: "string \<Rightarrow> bool" where
  "snake_case s \<longleftrightarrow> list_all plain_char s \<and> tidy True s \<and> \<not> ends_with ''_'' s"

lemma to_lower_plain: "is_upper c \<Longrightarrow> plain_char (to_lower c)"
proof -
  assume "is_upper c"
  then have "(of_char (to_lower c) :: nat) = of_char c + 32" "65 \<le> (of_char c :: nat)" "(of_char c :: nat) \<le> 90"
    by (simp_all add: to_lower_def is_upper_def of_char_of take_bit_nat_def)
  then show ?thesis by (auto simp: plain_char_def is_upper_def)
qed

lemma plain_underscore [simp]: "plain_char (CHR ''_'')"
  by (simp add: plain_char_def is_upper_def)

lemma plain_charI: "\<not> is_upper c \<Longrightarrow> c \<noteq> CHR ''-'' \<Longrightarrow> c \<noteq> CHR ''.'' \<Longrightarrow> plain_char c"
  by (simp add: plain_char_def)

lemma snake_plain: "list_all plain_char (snake prev s)"
  by (induction prev s rule: snake.induct) (auto simp: to_lower_plain plain_charI split: option.splits)

lemma snake_id: "list_all plain_char s \<Longrightarrow> snake prev s = s"
  by (induction prev s rule: snake.induct) (auto simp: plain_char_def)

lemma collapse_tidy: "tidy b (collapse b s)"
  by (induction b s rule: collapse.induct) auto

lemma collapse_id: "tidy b s \<Longrightarrow> collapse b s = s"
  by (induction b s rule: collapse.induct) auto

lemma collapse_plain: "list_all plain_char s \<Longrightarrow> list_all plain_char (collapse b s)"
  by (induction b s rule: collapse.induct) auto

lemma tidy_append: "tidy b (xs @ ys) \<Longrightarrow> tidy b xs"
  by (induction b xs rule: tidy.induct) (auto split: if_splits)

lemma tidy_suffix: "tidy b (xs @ ys) \<Longrightarrow> tidy False ys"
proof (induction b xs rule: tidy.induct)
  case (1 b)
  then show ?case by (cases ys) (auto split: if_splits)
qed (auto split: if_splits)

lemma tidy_no_double: "tidy b (xs @ CHR ''_'' # CHR ''_'' # ys) \<Longrightarrow> False"
  by (induction b xs rule: tidy.induct) (auto split: if_splits)

lemma sanitize_snake_case: "snake_case (sanitize_tool_name name)"
proof -
  let ?c = "collapse True (snake None name)"
  have t: "tidy True ?c" and p: "list_all plain_char ?c"
    by (auto intro: collapse_tidy collapse_plain snake_plain)
  show ?thesis
  proof (cases "ends_with ''_'' ?c")
    case False
    with t p show ?thesis by (simp add: snake_case_def sanitize_tool_name_def)
  next
    case True
    then obtain u where u: "?c = u @ ''_''" by (auto simp: ends_with_iff)
    have "\<not> ends_with ''_'' u"
    proof
      assume "ends_with ''_'' u"
      then obtain v where "u = v @ ''_''" by (auto simp: ends_with_iff)
      then show False using t u tidy_no_double [of True v "[]"] by simp
    qed
    moreover have "tidy True u" using t u tidy_append by metis
    ultimately show ?thesis using p u True by (simp add: snake_case_def sanitize_tool_name_def)
  qed
qed

lemma sanitize_id: "snake_case s \<Longrightarrow> sanitize_tool_name s = s"
  by (simp add: snake_case_def sanitize_tool_name_def snake_id collapse_id)


subsection \<open>Wire names can be taken apart\<close>

lemma wire_name_suffix:
  assumes "p @ ''__'' @ n = p' @ ''__'' @ n'" "tidy True n'" "length n \<le> length n'"
  shows "n = n'"
proof (rule ccontr)
  assume "n \<noteq> n'"
  have "suffix n n'"
  proof (rule suffix_length_suffix)
    show "suffix n (p @ ''__'' @ n)" "suffix n' (p @ ''__'' @ n)"
      unfolding suffix_def using assms(1) by (metis append.assoc)+
  qed (rule assms(3))
  then obtain u where n': "n' = u @ n" by (auto simp: suffix_def)
  with \<open>n \<noteq> n'\<close> have "u \<noteq> []" by auto
  from n' assms(1) have u: "n' = u @ n" "p @ ''__'' = (p' @ ''__'') @ u" by simp_all
  obtain c u' where c: "u = u' @ [c]" using \<open>u \<noteq> []\<close> by (cases u rule: rev_cases) auto
  with u(2) have c_us: "c = CHR ''_''" and p: "p @ ''_'' = (p' @ ''__'') @ u'" by auto
  show False
  proof (cases u' rule: rev_cases)
    case Nil
    then show False using assms(2) u(1) c c_us by simp
  next
    case (snoc u'' c')
    with p have "c' = CHR ''_''" by auto
    then show False using assms(2) u(1) c c_us snoc tidy_no_double [of True u'' n] by simp
  qed
qed

lemma build_wire_name_inj:
  assumes "tidy True n" "tidy True n'"
  shows "build_wire_name p n ''__'' = build_wire_name p' n' ''__'' \<longleftrightarrow> p = p' \<and> n = n'"
proof
  assume "build_wire_name p n ''__'' = build_wire_name p' n' ''__''"
  then have eq: "p @ ''__'' @ n = p' @ ''__'' @ n'" by (simp add: build_wire_name_def)
  then have "n = n'"
  proof (cases "length n \<le> length n'")
    case True
    show ?thesis by (rule wire_name_suffix [OF eq assms(2) True])
  next
    case False
    show ?thesis using wire_name_suffix [OF eq [symmetric] assms(1)] False by simp
  qed
  with eq show "p = p' \<and> n = n'" by simp
qed simp

lemma wire_name_not_tidy: "\<not> tidy b (build_wire_name p n ''__'')"
  using tidy_no_double [of b p n] by (auto simp: build_wire_name_def)

text \<open>Keyword stripping keeps names tidy: it only takes whole words out.\<close>

lemma tidy_plain_word: "CHR ''_'' \<notin> set w \<Longrightarrow> w \<noteq> [] \<Longrightarrow> tidy b (w @ s) = tidy False s"
proof (induction w arbitrary: b)
  case (Cons c w)
  then show ?case by (cases "w = []") auto
qed simp

lemma tidy_join:
  "\<forall>w \<in> set ws. w \<noteq> [] \<and> CHR ''_'' \<notin> set w \<Longrightarrow> tidy b (join ''_'' ws)"
proof (induction ws arbitrary: b)
  case (Cons w ws)
  then have w: "w \<noteq> []" "CHR ''_'' \<notin> set w" by auto
  show ?case
  proof (cases "ws = []")
    case True
    then show ?thesis using tidy_plain_word [OF w(2,1), of b "[]"] by simp
  next
    case False
    with Cons.prems obtain c ws' where "join ''_'' ws = c # ws'" "c \<noteq> CHR ''_''"
      by (cases ws; cases "hd ws"; cases "tl ws") (auto simp: join_Cons)
    moreover have "tidy True (join ''_'' ws)" using Cons by simp
    ultimately show ?thesis using False tidy_plain_word [OF w(2,1)] by (simp add: join_Cons)
  qed
qed simp

lemma cut_run_sets: "cut_run kw ws = Some (a, b) \<Longrightarrow> set a \<subseteq> set ws \<and> set b \<subseteq> set ws"
proof (induction ws arbitrary: a b)
  case Nil
  then show ?case by (auto simp: cut_run.simps [of kw] split: if_splits)
next
  case (Cons w ws)
  then show ?case
    by (fastforce simp: cut_run.simps [of kw "w # ws"] split: if_splits dest: in_set_dropD)
qed

lemma strip_keyword_tidy:
  assumes "tidy True tool"
  shows "tidy True (strip_keyword tool kw)"
proof -
  let ?ws = "nonempty_words (split_at (CHR ''_'') tool)"
  have words: "\<forall>w \<in> set ?ws. w \<noteq> [] \<and> CHR ''_'' \<notin> set w"
    using split_by_words [of _ "\<lambda>c. c = CHR ''_''" tool] by (auto simp: nonempty_words_def)
  have "tidy True (join ''_'' (a @ b))" if "cut_run kws ?ws = Some (a, b)" for kws a b
    using cut_run_sets [OF that] words by (intro tidy_join) auto
  with assms show ?thesis by (auto simp: strip_keyword_def Let_def split: option.splits)
qed

lemma strip_keywords_tidy: "tidy True tool \<Longrightarrow> tidy True (strip_keywords tool kws)"
  by (induction kws) (auto simp: Let_def strip_keyword_tidy)

subsection \<open>Prefixes tell servers apart\<close>

lemma find_number_spec:
  "find_number excluded base n \<notin> set excluded \<and> (\<exists>k \<ge> n. find_number excluded base n = base @ show_nat k)"
proof (induction excluded base n rule: find_number.induct)
  case (1 excluded base n)
  show ?case
  proof (cases "base @ show_nat n \<in> set excluded")
    case True
    with 1 show ?thesis by (metis Suc_leD find_number.simps)
  next
    case False
    then show ?thesis by (auto simp: find_number.simps [of excluded base n])
  qed
qed

definition numbering :: "string \<Rightarrow> string \<Rightarrow> bool" where
  "numbering base q \<longleftrightarrow> q = base \<or> (\<exists>k \<ge> 2. q = base @ show_nat k)"

lemma assign_prefixes_spec:
  "map fst (assign_prefixes unnumbered taken cs) = cs \<and>
   distinct (map snd (assign_prefixes unnumbered taken cs)) \<and>
   set (map snd (assign_prefixes unnumbered taken cs)) \<inter> set taken = {} \<and>
   list_all (\<lambda>((p, server), q). numbering (prefix_for_server p server) q) (assign_prefixes unnumbered taken cs)"
proof (induction unnumbered taken cs rule: assign_prefixes.induct)
  case (2 unnumbered taken p server claims)
  let ?plain = "prefix_for_server p server"
  define q where "q = (if ?plain \<in> set taken then find_number (taken @ unnumbered) ?plain 2 else ?plain)"
  have "q \<notin> set taken" "numbering ?plain q"
    using find_number_spec [of "taken @ unnumbered" ?plain 2] by (auto simp: q_def numbering_def)
  moreover note "2.IH" [OF refl q_def]
  ultimately show ?case by (auto simp: Let_def q_def [symmetric])
qed simp

lemma prefixes_for_servers_spec:
  "map fst (prefixes_for_servers claims in_use) = sorted_list_of_set (set claims)"
  "distinct (map snd (prefixes_for_servers claims in_use))"
  "set (map snd (prefixes_for_servers claims in_use)) \<inter> set in_use = {}"
  using assign_prefixes_spec [of "map (\<lambda>(p, s). prefix_for_server p s) (sorted_list_of_set (set claims))"
      in_use "sorted_list_of_set (set claims)"]
  by (simp_all add: prefixes_for_servers_def Let_def)

lemma prefixes_for_servers_keys: "fst ` set (prefixes_for_servers claims in_use) = set claims"
  using arg_cong [OF prefixes_for_servers_spec(1), of set claims in_use] by simp

text \<open>The first server that reads a certain way keeps the unnumbered prefix.\<close>

lemma first_unnumbered:
  "r \<in> set unnumbered \<Longrightarrow> r \<notin> set taken \<Longrightarrow> prefix_for_server p server = r \<Longrightarrow>
   \<forall>(p', s') \<in> set pre. prefix_for_server p' s' \<noteq> r \<Longrightarrow>
   ((p, server), r) \<in> set (assign_prefixes unnumbered taken (pre @ (p, server) # post))"
proof (induction pre arbitrary: taken)
  case Nil
  then show ?case by (simp add: Let_def)
next
  case (Cons c pre)
  obtain p' s' where c: "c = (p', s')" by (cases c)
  define q where "q = (if prefix_for_server p' s' \<in> set taken
    then find_number (taken @ unnumbered) (prefix_for_server p' s') 2 else prefix_for_server p' s')"
  have "q \<noteq> r"
    using find_number_spec [of "taken @ unnumbered" "prefix_for_server p' s'" 2] Cons.prems by (auto simp: q_def c)
  then have "((p, server), r) \<in> set (assign_prefixes unnumbered (q # taken) (pre @ (p, server) # post))"
    using Cons.prems by (intro Cons.IH) auto
  then show ?case by (simp add: c Let_def q_def [symmetric])
qed

lemma add_server_get:
  "set (case hget (fold add_server claims m) (p, n) of None \<Rightarrow> [] | Some ss \<Rightarrow> ss) =
     {s. (s, p, n) \<in> set claims} \<union> set (case hget m (p, n) of None \<Rightarrow> [] | Some ss \<Rightarrow> ss)"
proof (induction claims arbitrary: m)
  case (Cons c claims)
  obtain s' p' n' where c: "c = (s', p', n')" by (cases c)
  have "set (case hget (add_server c m) (p, n) of None \<Rightarrow> [] | Some ss \<Rightarrow> ss) =
      (if (p', n') = (p, n) then {s'} else {}) \<union> set (case hget m (p, n) of None \<Rightarrow> [] | Some ss \<Rightarrow> ss)"
    by (auto simp: c add_server_def hm.get_ins split: option.splits)
  with Cons.IH [of "add_server c m"] show ?case by (auto simp: c)
qed simp

definition servers_distinct :: "(string \<times> string, string list) hmap \<Rightarrow> bool" where
  "servers_distinct m \<longleftrightarrow> hmap_ok m \<and> (\<forall>k ss. hget m k = Some ss \<longrightarrow> distinct ss)"

lemma add_server_ok: "servers_distinct m \<Longrightarrow> servers_distinct (fold add_server claims m)"
proof (induction claims arbitrary: m)
  case (Cons c claims)
  then have "servers_distinct (add_server c m)"
    by (auto simp: servers_distinct_def add_server_def hm.get_ins hm.ok_ins distinct_insert split: prod.splits option.splits if_splits)
  with Cons show ?case by simp
qed simp

lemma two_elements: "distinct xs \<Longrightarrow> 1 < length xs \<longleftrightarrow> (\<exists>a \<in> set xs. \<exists>b \<in> set xs. a \<noteq> b)"
  by (cases xs; cases "tl xs") auto

lemma shared_prefixes_iff:
  "p \<in> set (shared_prefixes claims) \<longleftrightarrow>
     (\<exists>name s1 s2. s1 \<noteq> s2 \<and> (s1, p, name) \<in> set claims \<and> (s2, p, name) \<in> set claims)"
proof -
  let ?m = "fold add_server claims []"
  have ok: "servers_distinct ?m" by (rule add_server_ok) (simp add: servers_distinct_def)
  have get: "set ss = {s. (s, p, name) \<in> set claims}" "distinct ss" if "hget ?m (p, name) = Some ss" for name ss
    using add_server_get [of claims "[]" p name] that ok by (auto simp: servers_distinct_def)
  have "p \<in> set (shared_prefixes claims) \<longleftrightarrow> (\<exists>name ss. hget ?m (p, name) = Some ss \<and> 1 < length ss)"
  proof -
    have mem: "hget ?m k = Some ss \<longleftrightarrow> (k, ss) \<in> set ?m" for k ss
      using ok by (simp add: servers_distinct_def hmap_mem_iff)
    show ?thesis unfolding mem shared_prefixes_def by (force simp: image_iff)
  qed
  also have "\<dots> \<longleftrightarrow> (\<exists>name s1 s2. s1 \<noteq> s2 \<and> (s1, p, name) \<in> set claims \<and> (s2, p, name) \<in> set claims)"
  proof
    assume "\<exists>name ss. hget ?m (p, name) = Some ss \<and> 1 < length ss"
    then obtain name ss where ss: "hget ?m (p, name) = Some ss" "1 < length ss" by blast
    with two_elements [OF get(2) [OF ss(1)]] get(1) [OF ss(1)]
    show "\<exists>name s1 s2. s1 \<noteq> s2 \<and> (s1, p, name) \<in> set claims \<and> (s2, p, name) \<in> set claims" by auto
  next
    assume "\<exists>name s1 s2. s1 \<noteq> s2 \<and> (s1, p, name) \<in> set claims \<and> (s2, p, name) \<in> set claims"
    then obtain name s1 s2 where s: "s1 \<noteq> s2" "(s1, p, name) \<in> set claims" "(s2, p, name) \<in> set claims" by blast
    then obtain ss where ss: "hget ?m (p, name) = Some ss"
      using add_server_get [of claims "[]" p name] by (cases "hget ?m (p, name)") auto
    with s get [OF ss] show "\<exists>name ss. hget ?m (p, name) = Some ss \<and> 1 < length ss"
      using two_elements [of ss] by auto
  qed
  finally show ?thesis .
qed

text \<open>
  C30. Every server that shares a prefix gets one of its own. The assignment covers exactly the claims, gives two
  different claims two different prefixes, none of them in use elsewhere; each is the prefix with the
  server's name added, or that with a number from two on, and the first server in name order
  keeps the unnumbered form unless it is in use. The search for a number always ends.
\<close>

theorem prefixes_unambiguous:
  assumes R: "R = prefixes_for_servers claims in_use"
  shows "fst ` set R = set claims \<and> distinct (map fst R) \<and> distinct (map snd R) \<and> snd ` set R \<inter> set in_use = {} \<and>
    (\<forall>p server q. hget R (p, server) = Some q \<longrightarrow> numbering (prefix_for_server p server) q) \<and>
    (\<forall>p server. (p, server) \<in> set claims \<and> prefix_for_server p server \<notin> set in_use \<and>
       (\<forall>p' s'. (p', s') \<in> set claims \<and> (p', s') < (p, server) \<longrightarrow> prefix_for_server p' s' \<noteq> prefix_for_server p server) \<longrightarrow>
       hget R (p, server) = Some (prefix_for_server p server))"
proof -
  let ?cs = "sorted_list_of_set (set claims)" and ?u = "map (\<lambda>(p, s). prefix_for_server p s) (sorted_list_of_set (set claims))"
  note spec = assign_prefixes_spec [of ?u in_use ?cs]
  have R': "R = assign_prefixes ?u in_use ?cs" by (simp add: R prefixes_for_servers_def Let_def)
  have fst: "map fst R = ?cs" and dist: "distinct (map fst R)" using spec by (simp_all add: R')
  have get: "(k, q) \<in> set R \<longleftrightarrow> hget R k = Some q" for k q using dist by simp
  have first: "hget R (p, server) = Some (prefix_for_server p server)"
    if a: "(p, server) \<in> set claims" "prefix_for_server p server \<notin> set in_use"
      "\<forall>p' s'. (p', s') \<in> set claims \<and> (p', s') < (p, server) \<longrightarrow> prefix_for_server p' s' \<noteq> prefix_for_server p server"
    for p server
  proof -
    obtain pre post where cs: "?cs = pre @ (p, server) # post" using a(1) by (metis List.finite_set set_sorted_list_of_set split_list)
    have "sorted_wrt (<) ?cs" by simp
    then have less: "c < (p, server) \<and> c \<in> set claims" if "c \<in> set pre" for c
      using that cs by (metis List.finite_set Un_iff list.set_intros(1) set_append set_sorted_list_of_set sorted_wrt_append)
    have "((p, server), prefix_for_server p server) \<in> set R"
      unfolding R' cs
    proof (rule first_unnumbered [OF _ a(2) refl])
      show "prefix_for_server p server \<in> set (map (\<lambda>(p, s). prefix_for_server p s) (pre @ (p, server) # post))" by simp
      show "\<forall>(p', s') \<in> set pre. prefix_for_server p' s' \<noteq> prefix_for_server p server" using less a(3) by fastforce
    qed
    then show ?thesis by (simp only: get)
  qed
  have "numbering (prefix_for_server p server) q" if "hget R (p, server) = Some q" for p server q
    using spec that by (auto simp: R' list_all_iff dest!: map_of_SomeD)
  moreover have "fst ` set R = set claims" using fst by (metis List.finite_set list.set_map set_sorted_list_of_set)
  ultimately show ?thesis using spec first dist by (simp add: R')
qed

theorem prefixes_unambiguous_witness:
  "prefixes_for_servers [(''Gmail'', ''work''), (''Gmail'', ''work_''), (''Gmail'', ''work2'')] [''GmailWork3''] =
     [((''Gmail'', ''work''), ''GmailWork''), ((''Gmail'', ''work2''), ''GmailWork2''), ((''Gmail'', ''work_''), ''GmailWork4'')] \<and>
   distinct (map snd (prefixes_for_servers [(''Gmail'', ''work''), (''Gmail'', ''work_''), (''Gmail'', ''work2'')] [''GmailWork3'']))"
proof
  show "prefixes_for_servers [(''Gmail'', ''work''), (''Gmail'', ''work_''), (''Gmail'', ''work2'')] [''GmailWork3''] =
     [((''Gmail'', ''work''), ''GmailWork''), ((''Gmail'', ''work2''), ''GmailWork2''), ((''Gmail'', ''work_''), ''GmailWork4'')]"
    by code_simp
qed (use prefixes_unambiguous [OF refl] in blast)

subsection \<open>The other name of a tool\<close>

lemma map_to_upper_alnum: "is_alphanumeric c \<Longrightarrow> is_alphanumeric (to_upper c)"
proof (cases "is_lower c")
  case True
  then have "(of_char (to_upper c) :: nat) = of_char c - 32" "97 \<le> (of_char c :: nat)" "(of_char c :: nat) \<le> 122"
    by (auto simp: to_upper_def is_lower_def of_char_of take_bit_nat_def)
  then show ?thesis by (auto simp: is_alphanumeric_def is_upper_def)
qed (simp add: to_upper_def)

lemma format_server_prefix_alnum:
  assumes "list_all is_alphanumeric w"
  shows "list_all is_alphanumeric (format_server_prefix w)"
proof -
  have "list_all is_alphanumeric ''GitHub''" "list_all is_alphanumeric ''IMessage''"
    by (simp_all add: is_alphanumeric_def is_upper_def is_lower_def)
  moreover have "list_all is_alphanumeric (capitalize w)"
    using assms by (cases w) (auto simp: map_to_upper_alnum)
  ultimately show ?thesis by (simp add: format_server_prefix_def)
qed

lemma prefix_for_server_alnum: "list_all is_alphanumeric (prefix_for_server [] server)"
proof -
  have "list_all is_alphanumeric (format_server_prefix w)" if "w \<in> set (split_by (\<lambda>c. \<not> is_alphanumeric c) server)" for w
    using split_by_words [OF that] by (intro format_server_prefix_alnum) (auto simp: list_all_iff)
  then show ?thesis by (auto simp: prefix_for_server_def nonempty_words_def list_all_iff)
qed

lemma underscore_not_alnum: "\<not> is_alphanumeric (CHR ''_'')"
  by (simp add: is_alphanumeric_def is_upper_def is_lower_def is_digit_def)

lemma digit_alnum: "is_digit c \<Longrightarrow> is_alphanumeric c"
  by (simp add: is_alphanumeric_def)

lemma split_once_first:
  assumes "CHR ''_'' \<notin> set p"
  shows "split_once ''__'' (p @ ''__'' @ rest) = Some (p, rest)"
proof -
  have "find_str ''__'' (p @ ''__'' @ rest) = Some (length p)"
    using assms
  proof (induction p)
    case Nil
    then show ?case by (simp add: find_str.simps [of _ "CHR ''_'' # CHR ''_'' # rest"] starts_with_def)
  next
    case (Cons c p)
    then show ?case by (auto simp: find_str.simps [of _ "c # p @ CHR ''_'' # CHR ''_'' # rest"] starts_with_def)
  qed
  then show ?thesis by (simp add: split_once_def)
qed

lemma trim_end_digits_append:
  assumes "list_all is_digit k" "s \<noteq> []" "\<not> is_digit (last s)"
  shows "trim_end_digits (s @ k) = s"
  using assms by (cases s rule: rev_cases) (auto simp: trim_end_digits_def list_all_iff dropWhile_append)

text \<open>
  For a prefix without underscores and a server whose added name does not end in a digit, the other names of a tool
  under the plain prefix include the one with the server added, and the other names of a tool under the
  server's prefix, numbered or not, include the plain one.
\<close>

lemma other_names_roundtrip:
  assumes p: "p \<noteq> []" "CHR ''_'' \<notin> set p"
    and sfx: "sfx = prefix_for_server [] server" "sfx \<noteq> []" "\<not> is_digit (last sfx)"
    and k: "list_all is_digit k"
  shows "build_wire_name (p @ sfx) rest ''__'' \<in> set (other_names (build_wire_name p rest ''__'') server ''__'') \<and>
    build_wire_name p rest ''__'' \<in> set (other_names (build_wire_name (p @ sfx @ k) rest ''__'') server ''__'')"
proof
  show "build_wire_name (p @ sfx) rest ''__'' \<in> set (other_names (build_wire_name p rest ''__'') server ''__'')"
    using split_once_first [OF p(2), of rest] sfx by (simp add: other_names_def build_wire_name_def Let_def)
  have "CHR ''_'' \<notin> set sfx" "CHR ''_'' \<notin> set k"
    using prefix_for_server_alnum [of server] k underscore_not_alnum digit_alnum by (auto simp: sfx list_all_iff)
  then have split: "split_once ''__'' ((p @ sfx @ k) @ ''__'' @ rest) = Some (p @ sfx @ k, rest)"
    using p(2) by (intro split_once_first) auto
  have trim: "trim_end_digits ((p @ sfx) @ k) = p @ sfx"
    using sfx k by (intro trim_end_digits_append) auto
  have "strip_suffix sfx (trim_end_digits (p @ sfx @ k)) = Some p"
    using trim by (simp add: strip_suffix_def ends_with_def)
  then show "build_wire_name p rest ''__'' \<in> set (other_names (build_wire_name (p @ sfx @ k) rest ''__'') server ''__'')"
    using split sfx p(1) by (simp add: other_names_def build_wire_name_def Let_def)
qed

end
