(* ===== verification/Tool_Catalog.thy ===== *)
theory Tool_Catalog
  imports Tool_Naming
begin

section \<open>The tool catalog and who may use it (\<open>proxy/mod.rs\<close>, \<open>proxy/catalog.rs\<close>)\<close>

text \<open>
  The passes of a catalog refresh that decide under which name each upstream tool is listed and where a
  call by that name goes, the resolution of a called name, the patterns that switch tools
  off and the rules that keep a client from servers and tools. Descriptions, icons,
  annotations and the other display metadata of a tool are not modelled, and neither is the order of
  the listing.
\<close>

subsection \<open>Patterns\<close>

fun match_parts :: "string \<Rightarrow> nat \<Rightarrow> nat \<Rightarrow> bool \<Rightarrow> string list \<Rightarrow> string \<Rightarrow> bool" where
  "match_parts pattern n index first [] remainder = True"
| "match_parts pattern n index first (part # parts) remainder =
     (if part = [] then match_parts pattern n (Suc index) first parts remainder
      else if first \<and> \<not> starts_with ''*'' pattern then
        (if \<not> starts_with part remainder then False
         else match_parts pattern n (Suc index) False parts (drop (length part) remainder))
      else if index = n - 1 \<and> \<not> ends_with ''*'' pattern then ends_with part remainder
      else case find_str part remainder of
        Some found \<Rightarrow> match_parts pattern n (Suc index) False parts (drop (found + length part) remainder)
      | None \<Rightarrow> False)"

definition wildcard_match :: "string \<Rightarrow> string \<Rightarrow> bool" where
  "wildcard_match pattern txt =
     (if pattern = ''*'' then True
      else let parts = split_at (CHR ''*'') pattern
           in if length parts = 1 then pattern = txt
              else match_parts pattern (length parts) 0 True parts txt)"

definition is_disabled_tool :: "string list \<Rightarrow> string \<Rightarrow> bool" where
  "is_disabled_tool patterns tool =
     (if patterns = [] then False
      else let tool = map to_lower tool
           in list_ex (\<lambda>pattern.
                if list_all (\<lambda>b. \<not> is_upper b) pattern then wildcard_match pattern tool
                else wildcard_match (map to_lower pattern) tool) patterns)"

subsection \<open>Refreshing the routes\<close>

record upstream_config =
  tool_groups :: "tool_group_rule list"
  tool_renames :: "(string, string) hmap"

text \<open>What the server manager knows: the configuration of a server that is up, and the name it reports.\<close>

record server_manager =
  get_upstream :: "string \<Rightarrow> upstream_config option"
  reported_name :: "string \<Rightarrow> string option"

record router_config =
  enable_prefix :: bool
  prefix_delimiter :: string
  disabled_tools :: "string list"
  tool_search_threshold :: nat

record classified =
  cl_server :: string
  cl_tool :: string
  cl_prefix :: string
  cl_stripped :: string
  cl_full :: string

definition tool_group_rules :: "server_manager \<Rightarrow> string \<Rightarrow> tool_group_rule list option" where
  "tool_group_rules sm server =
     (case get_upstream sm server of
        None \<Rightarrow> None
      | Some u \<Rightarrow> if tool_groups u \<noteq> [] then Some (tool_groups u)
                  else builtin_group_rules server (reported_name sm server))"

definition exposed_name :: "server_manager \<Rightarrow> string \<Rightarrow> string \<Rightarrow> string" where
  "exposed_name sm server tool =
     (case get_upstream sm server of
        None \<Rightarrow> tool
      | Some u \<Rightarrow> (case hget (tool_renames u) tool of Some new \<Rightarrow> new | None \<Rightarrow> tool))"

text \<open>Without rules, a redundant server name is taken off either end of the tool's name.\<close>

definition strip_server_front :: "string \<Rightarrow> string \<Rightarrow> string" where
  "strip_server_front server name =
     (if starts_with server name \<and> length server < length name
      then let rest = drop (length server) name
           in if starts_with ''_'' rest \<or> starts_with ''-'' rest then drop 1 rest else name
      else name)"

definition strip_server_back :: "string \<Rightarrow> string \<Rightarrow> string" where
  "strip_server_back server name =
     (if ends_with server name \<and> length server < length name
      then let rest = take (length name - length server) name
           in if ends_with ''_'' rest \<or> ends_with ''-'' rest then take (length rest - 1) rest else name
      else name)"

definition classify_tool :: "server_manager \<Rightarrow> string \<times> string \<Rightarrow> classified" where
  "classify_tool sm st =
     (case st of (server, tool) \<Rightarrow>
        (let sanitized = sanitize_tool_name (exposed_name sm server tool);
             plain = (\<lambda>name. \<lparr>cl_server = server, cl_tool = tool, cl_prefix = format_server_prefix server,
                              cl_stripped = name, cl_full = name\<rparr>)
         in case tool_group_rules sm server of
              Some rules \<Rightarrow>
                (case classify_with_rules sanitized rules of
                   Some result \<Rightarrow>
                     \<lparr>cl_server = server, cl_tool = tool, cl_prefix = result_prefix result,
                      cl_stripped = strip_keywords (result_name result) (result_strip result),
                      cl_full = result_name result\<rparr>
                 | None \<Rightarrow> plain sanitized)
            | None \<Rightarrow> plain (strip_server_back server (strip_server_front server sanitized))))"

definition qualify_prefixes :: "classified list \<Rightarrow> classified list" where
  "qualify_prefixes cs =
     (let shared = shared_prefixes (concat (map (\<lambda>c.
                     [(cl_server c, cl_prefix c, cl_stripped c), (cl_server c, cl_prefix c, cl_full c)]) cs))
      in if shared = [] then cs
         else let qualified = prefixes_for_servers
                    (map (\<lambda>c. (cl_prefix c, cl_server c)) (filter (\<lambda>c. cl_prefix c \<in> set shared) cs))
                    (map cl_prefix (filter (\<lambda>c. cl_prefix c \<notin> set shared) cs))
              in map (\<lambda>c. case hget qualified (cl_prefix c, cl_server c) of
                       Some p \<Rightarrow> c \<lparr>cl_prefix := p\<rparr> | None \<Rightarrow> c) cs)"

definition stripped_wire :: "router_config \<Rightarrow> classified \<Rightarrow> string" where
  "stripped_wire cfg c =
     (if enable_prefix cfg then build_wire_name (cl_prefix c) (cl_stripped c) (prefix_delimiter cfg)
      else cl_stripped c)"

definition wire_name_counts :: "router_config \<Rightarrow> classified list \<Rightarrow> (string, nat) hmap" where
  "wire_name_counts cfg cs =
     fold (\<lambda>c m. hinsert (stripped_wire cfg c)
       ((case hget m (stripped_wire cfg c) of Some n \<Rightarrow> n | None \<Rightarrow> 0) + 1) m) cs []"

definition use_stripped :: "router_config \<Rightarrow> (string, nat) hmap \<Rightarrow> classified \<Rightarrow> bool" where
  "use_stripped cfg counts c \<longleftrightarrow>
     (case hget counts (stripped_wire cfg c) of Some n \<Rightarrow> n | None \<Rightarrow> 1) = 1"

definition prefixed_name :: "router_config \<Rightarrow> (string, nat) hmap \<Rightarrow> classified \<Rightarrow> string" where
  "prefixed_name cfg counts c =
     (let final_name = (if use_stripped cfg counts c then cl_stripped c else cl_full c)
      in if enable_prefix cfg \<or> \<not> use_stripped cfg counts c
         then build_wire_name (cl_prefix c) final_name (prefix_delimiter cfg)
         else final_name)"

definition switched_off :: "router_config \<Rightarrow> string \<Rightarrow> string \<Rightarrow> bool" where
  "switched_off cfg server name \<longleftrightarrow>
     disabled_tools cfg \<noteq> [] \<and>
     (is_disabled_tool (disabled_tools cfg) name \<or>
      list_ex (is_disabled_tool (disabled_tools cfg)) (other_names name server (prefix_delimiter cfg)))"

type_synonym routes = "(string, string \<times> string) hmap"

definition add_route :: "router_config \<Rightarrow> (string, nat) hmap \<Rightarrow> classified \<Rightarrow> routes \<Rightarrow> routes" where
  "add_route cfg counts c routes =
     (let name = prefixed_name cfg counts c
      in if switched_off cfg (cl_server c) name then routes
         else case hget routes name of
           Some _ \<Rightarrow> routes
         | None \<Rightarrow> hinsert name (cl_server c, cl_tool c) routes)"

definition tool_routes :: "router_config \<Rightarrow> classified list \<Rightarrow> routes" where
  "tool_routes cfg cs = fold (add_route cfg (wire_name_counts cfg cs)) cs []"

definition SEARCH_TOOLS :: string where
  "SEARCH_TOOLS = ''plug__search_tools''"

text \<open>Every route has one listed tool, so the number of tools is the number of routes.\<close>

definition refresh_routes :: "server_manager \<Rightarrow> router_config \<Rightarrow> (string \<times> string) list \<Rightarrow> routes" where
  "refresh_routes sm cfg upstream_tools =
     (let routes = tool_routes cfg (qualify_prefixes (map (classify_tool sm) upstream_tools))
      in if tool_search_threshold cfg \<le> length routes \<and> \<not> is_disabled_tool (disabled_tools cfg) SEARCH_TOOLS
         then hinsert SEARCH_TOOLS (''__plug_internal__'', SEARCH_TOOLS) routes
         else routes)"

subsection \<open>Resolving a called name\<close>

text \<open>Collecting into a map keeps the last value of a key.\<close>

definition routes_lower :: "routes \<Rightarrow> routes" where
  "routes_lower routes = fold (\<lambda>(k, v). hinsert (map to_lower k) v) routes []"

definition route_by_upstream_name :: "routes \<Rightarrow> string \<Rightarrow> (string \<times> string) option" where
  "route_by_upstream_name routes tool =
     (case filter (\<lambda>(server, original). original = tool) (map snd routes) of
        [route] \<Rightarrow> Some route
      | _ \<Rightarrow> None)"

definition resolve_route :: "routes \<Rightarrow> string \<Rightarrow> (string \<times> string) option" where
  "resolve_route routes tool =
     (case hget routes tool of
        Some r \<Rightarrow> Some r
      | None \<Rightarrow>
          (case hget (routes_lower routes) (map to_lower tool) of
             Some r \<Rightarrow> Some r
           | None \<Rightarrow> route_by_upstream_name routes tool))"

subsection \<open>What a client is kept from\<close>

record client_access =
  blocked_servers :: "string list"
  blocked_tools :: "(string \<times> string) list"
  named_tools :: "string list"
  only_allowed :: bool
  allowed_servers :: "string list"
  allowed_tools :: "(string \<times> string) list"

definition has_allow_list :: "client_access \<Rightarrow> bool" where
  "has_allow_list a = only_allowed a"

definition blocks_any_tool :: "client_access \<Rightarrow> bool" where
  "blocks_any_tool a \<longleftrightarrow> blocked_tools a \<noteq> [] \<or> named_tools a \<noteq> [] \<or> has_allow_list a"

definition keeps_from_a_server :: "client_access \<Rightarrow> bool" where
  "keeps_from_a_server a \<longleftrightarrow> blocked_servers a \<noteq> [] \<or> has_allow_list a"

definition keeps_from_server :: "client_access \<Rightarrow> string \<Rightarrow> bool" where
  "keeps_from_server a server \<longleftrightarrow>
     server \<in> set (blocked_servers a) \<or>
     (has_allow_list a \<and> server \<notin> set (allowed_servers a) \<and>
      \<not> list_ex (\<lambda>(s, _). s = server) (allowed_tools a))"

definition names_to_check :: "string \<Rightarrow> string option \<Rightarrow> string \<Rightarrow> string \<Rightarrow> string list" where
  "names_to_check server tool listed delimiter =
     (let names = listed # other_names listed server delimiter
      in case tool of
           None \<Rightarrow> names
         | Some t \<Rightarrow> names @ map (\<lambda>(p, _). p @ delimiter @ t) (List.map_filter (split_once delimiter) names))"

definition keeps_from :: "client_access \<Rightarrow> string \<Rightarrow> string option \<Rightarrow> string \<Rightarrow> string \<Rightarrow> bool" where
  "keeps_from a server tool listed delimiter =
     (let by_server = filter (\<lambda>(s, _). s = server) (blocked_tools a)
      in if keeps_from_server a server then True
         else if has_allow_list a \<and> server \<notin> set (allowed_servers a) \<and>
                 \<not> (case tool of
                      None \<Rightarrow> False
                    | Some t \<Rightarrow> list_ex (\<lambda>(s, name). s = server \<and> name = map to_lower t) (allowed_tools a))
         then True
         else if (case tool of
                    Some t \<Rightarrow> list_ex (\<lambda>(_, pattern). is_disabled_tool [pattern] t) by_server
                  | None \<Rightarrow> by_server \<noteq> [])
         then True
         else if named_tools a = [] then False
         else list_ex (is_disabled_tool (named_tools a)) (names_to_check server tool listed delimiter))"

subsection \<open>Patterns match as globs\<close>

text \<open>The reference: a star stands for any text, every other character for itself.\<close>

fun glob :: "string \<Rightarrow> string \<Rightarrow> bool" where
  "glob [] t = (t = [])"
| "glob (c # p) t =
     (if c = CHR ''*'' then glob p t \<or> (case t of [] \<Rightarrow> False | _ # t' \<Rightarrow> glob (c # p) t')
      else case t of [] \<Rightarrow> False | x # t' \<Rightarrow> x = c \<and> glob p t')"

text \<open>The same by parts: \<open>fits\<close> for parts from the start of the text on, \<open>floats\<close> for parts after a star.\<close>

fun fits :: "string list \<Rightarrow> string \<Rightarrow> bool" where
  "fits [] t = (t = [])"
| "fits (w # ws) t = (if ws = [] then t = w else \<exists>u v. t = w @ u @ v \<and> fits ws v)"

declare fits.simps(2) [simp del]

definition floats :: "string list \<Rightarrow> string \<Rightarrow> bool" where
  "floats ws t \<longleftrightarrow> (\<exists>u v. t = u @ v \<and> fits ws v)"

lemma glob_star: "glob (CHR ''*'' # p) t \<longleftrightarrow> (\<exists>u v. t = u @ v \<and> glob p v)"
proof (induction t)
  case Nil
  then show ?case by simp
next
  case (Cons x t)
  have "(\<exists>u v. x # t = u @ v \<and> glob p v) \<longleftrightarrow> glob p (x # t) \<or> (\<exists>u v. t = u @ v \<and> glob p v)"
    by (metis append_Cons append_Nil append_eq_Cons_conv)
  with Cons show ?case by simp
qed

lemma glob_word: "CHR ''*'' \<notin> set w \<Longrightarrow> glob (w @ p) t \<longleftrightarrow> (\<exists>v. t = w @ v \<and> glob p v)"
proof (induction w arbitrary: t)
  case (Cons c w)
  then show ?case by (cases t) auto
qed simp

lemma glob_fits: "\<forall>w \<in> set ws. CHR ''*'' \<notin> set w \<Longrightarrow> ws \<noteq> [] \<Longrightarrow> glob (join ''*'' ws) t \<longleftrightarrow> fits ws t"
proof (induction ws arbitrary: t)
  case (Cons w ws)
  show ?case
  proof (cases "ws = []")
    case True
    then show ?thesis using Cons.prems glob_word [of w "[]"] by (simp add: fits.simps)
  next
    case False
    have "glob (join ''*'' (w # ws)) t \<longleftrightarrow> (\<exists>v. t = w @ v \<and> glob (CHR ''*'' # join ''*'' ws) v)"
      using Cons.prems False glob_word [of w "CHR ''*'' # join ''*'' ws"] by (simp add: join_Cons)
    also have "\<dots> \<longleftrightarrow> (\<exists>v. t = w @ v \<and> (\<exists>u v'. v = u @ v' \<and> fits ws v'))"
      using Cons False by (simp add: glob_star del: glob.simps)
    finally show ?thesis using False by (auto simp: fits.simps)
  qed
qed simp

lemma floats_single: "floats [w] t \<longleftrightarrow> ends_with w t"
  by (auto simp: floats_def fits.simps ends_with_iff)

lemma floats_prepend: "floats ws t \<Longrightarrow> floats ws (u @ t)"
  unfolding floats_def by (metis append.assoc)

lemma fits_Cons: "ws \<noteq> [] \<Longrightarrow> fits (w # ws) t \<longleftrightarrow> starts_with w t \<and> floats ws (drop (length w) t)"
  by (auto simp: floats_def fits.simps starts_with_iff) blast+

text \<open>Taking the leftmost occurrence loses nothing: what follows a later one follows the first as well.\<close>

lemma floats_Cons:
  assumes "ws \<noteq> []"
  shows "floats (w # ws) t \<longleftrightarrow> (case find_str w t of None \<Rightarrow> False | Some i \<Rightarrow> floats ws (drop (i + length w) t))"
proof (cases "find_str w t")
  case None
  then have "\<not> (\<exists>a b. t = a @ w @ b)" by (simp add: find_str_None)
  then show ?thesis using assms None by (auto simp: floats_def fits.simps)
next
  case (Some i)
  from find_str_Some [OF Some] obtain b where b: "t = take i t @ w @ b" "i \<le> length t" by blast
  then have drop: "drop (i + length w) t = b"
    by (metis append.assoc append_eq_conv_conj length_append length_take min.absorb2)
  show ?thesis
  proof
    assume "floats (w # ws) t"
    then obtain a v where a: "t = a @ w @ v" "floats ws v"
      using assms by (auto simp: floats_def fits.simps)
    from find_str_least [of w a v] Some a(1) have "i \<le> length a" by auto
    have "drop (length a + length w) t = v" using a(1) by simp
    moreover have "drop (length a + length w) t = drop (length a - i) (drop (i + length w) t)"
      using \<open>i \<le> length a\<close> by (simp add: add.commute)
    then have "drop (i + length w) t = take (length a - i) (drop (i + length w) t) @ drop (length a + length w) t"
      by (metis append_take_drop_id)
    ultimately show "case find_str w t of None \<Rightarrow> False | Some i \<Rightarrow> floats ws (drop (i + length w) t)"
      using floats_prepend [OF a(2)] Some by (metis option.simps(5))
  next
    assume "case find_str w t of None \<Rightarrow> False | Some i \<Rightarrow> floats ws (drop (i + length w) t)"
    then have "floats ws b" using Some drop by simp
    then have "fits (w # ws) (w @ b)" using assms by (simp add: fits_Cons starts_with_iff)
    then show "floats (w # ws) t" using b(1) by (auto simp: floats_def)
  qed
qed

lemma floats_empty: "ws \<noteq> [] \<Longrightarrow> floats ([] # ws) t \<longleftrightarrow> floats ws t"
  by (auto simp: floats_def fits.simps) (metis append.assoc)

lemma fits_empty: "ws \<noteq> [] \<Longrightarrow> fits ([] # ws) t \<longleftrightarrow> floats ws t"
  by (simp add: floats_def fits.simps)

lemma match_parts_floats:
  "\<not> first \<or> starts_with ''*'' pattern \<Longrightarrow> index + length ws = n \<Longrightarrow> ws \<noteq> [] \<Longrightarrow>
   ends_with ''*'' pattern \<longleftrightarrow> last ws = [] \<Longrightarrow> match_parts pattern n index first ws t \<longleftrightarrow> floats ws t"
proof (induction ws arbitrary: index first t)
  case (Cons w ws)
  show ?case
  proof (cases "ws = []")
    case True
    then show ?thesis using Cons.prems by (auto simp: floats_single ends_with_def)
  next
    case False
    have IH: "match_parts pattern n (Suc index) f ws t' \<longleftrightarrow> floats ws t'" if "\<not> f \<or> starts_with ''*'' pattern" for f t'
      using that Cons.prems False by (intro Cons.IH) auto
    have "index \<noteq> n - 1" using Cons.prems(2) False by (cases ws) auto
    then show ?thesis
    proof (cases "w = []")
      case True
      then show ?thesis using IH [OF Cons.prems(1)] False by (simp add: floats_empty)
    next
      case neq: False
      then show ?thesis
        using Cons.prems(1) IH [of False] False \<open>index \<noteq> n - 1\<close> by (auto simp: floats_Cons split: option.splits)
    qed
  qed
qed simp

lemma split_at_snoc:
  "split_at d (q @ [d]) = split_at d q @ [[]]"
  "c \<noteq> d \<Longrightarrow> split_at d (q @ [c]) = butlast (split_at d q) @ [last (split_at d q) @ [c]]"
proof -
  show "split_at d (q @ [d]) = split_at d q @ [[]]"
    by (induction q) (auto split: list.splits)
  show "c \<noteq> d \<Longrightarrow> split_at d (q @ [c]) = butlast (split_at d q) @ [last (split_at d q) @ [c]]"
  proof (induction q)
    case (Cons x q)
    obtain w ws where "split_at d q = w # ws" by (cases "split_at d q") auto
    with Cons show ?case by (cases "ws = []") auto
  qed simp
qed

lemma split_star_ends:
  "ends_with ''*'' p \<longleftrightarrow> last (split_at (CHR ''*'') p) = [] \<and> 1 < length (split_at (CHR ''*'') p)"
  "starts_with ''*'' p \<longleftrightarrow> hd (split_at (CHR ''*'') p) = [] \<and> 1 < length (split_at (CHR ''*'') p)"
proof -
  show "ends_with ''*'' p \<longleftrightarrow> last (split_at (CHR ''*'') p) = [] \<and> 1 < length (split_at (CHR ''*'') p)"
  proof (cases p rule: rev_cases)
    case (snoc q c)
    then show ?thesis
      by (cases "c = CHR ''*''") (auto simp: ends_with_iff split_at_snoc)
  qed (simp add: ends_with_def)
  show "starts_with ''*'' p \<longleftrightarrow> hd (split_at (CHR ''*'') p) = [] \<and> 1 < length (split_at (CHR ''*'') p)"
    by (cases p) (auto simp: starts_with_def split: list.splits)
qed

text \<open>
  C26. Pattern matching is exact: the single pass over the parts between the stars, which always takes the
  leftmost occurrence and never goes back, accepts a name exactly when the pattern does with
  a star standing for any text and every other character for itself.
\<close>

theorem wildcard_match_exact: "wildcard_match pattern txt = glob pattern txt"
proof -
  let ?parts = "split_at (CHR ''*'') pattern"
  have no_star: "\<forall>w \<in> set ?parts. CHR ''*'' \<notin> set w"
    using split_by_words [of _ "\<lambda>c. c = CHR ''*''" pattern] by blast
  have join: "join ''*'' ?parts = pattern" by (rule join_split)
  have glob: "glob pattern txt \<longleftrightarrow> fits ?parts txt" using glob_fits [OF no_star] by (simp add: join)
  show ?thesis
  proof (cases "length ?parts = 1")
    case True
    then obtain w where w: "?parts = [w]" by (cases ?parts) auto
    then have "w = pattern" using join by simp
    moreover have "pattern \<noteq> ''*''" using w by auto
    ultimately show ?thesis using glob w by (auto simp: wildcard_match_def fits.simps)
  next
    case False
    then obtain w ws where ws: "?parts = w # ws" "ws \<noteq> []" by (cases ?parts) auto
    have ends: "ends_with ''*'' pattern \<longleftrightarrow> last ws = []" "starts_with ''*'' pattern \<longleftrightarrow> w = []"
      using ws split_star_ends [of pattern] by (auto simp: neq_Nil_conv)
    have "match_parts pattern (length ?parts) 0 True ?parts txt \<longleftrightarrow> fits ?parts txt"
    proof (cases "w = []")
      case True
      have "match_parts pattern (length ?parts) 0 True ?parts txt \<longleftrightarrow> floats ?parts txt"
        using True ends ws by (intro match_parts_floats) auto
      then show ?thesis unfolding ws(1) True by (simp only: floats_empty [OF ws(2)] fits_empty [OF ws(2)])
    next
      case False
      then have "match_parts pattern (length ?parts) (Suc 0) False ws t \<longleftrightarrow> floats ws t" for t
        using ends ws by (intro match_parts_floats) auto
      then show ?thesis using False ends ws(2) by (simp add: ws(1) fits_Cons)
    qed
    moreover have "glob ''*'' txt" by (simp add: glob_star del: glob.simps(2))
    ultimately show ?thesis using glob False by (auto simp: wildcard_match_def Let_def)
  qed
qed

subsection \<open>Names of different servers never meet\<close>

definition tidy_names :: "classified \<Rightarrow> bool" where
  "tidy_names c \<longleftrightarrow> tidy True (cl_stripped c) \<and> tidy True (cl_full c)"

lemma tidy_after_underscore: "tidy b (xs @ CHR ''_'' # ys) \<Longrightarrow> tidy True ys"
  by (induction b xs rule: tidy.induct) (auto split: if_splits)

lemma strip_server_front_tidy:
  assumes "tidy True name" "CHR ''-'' \<notin> set name"
  shows "tidy True (strip_server_front server name)" "CHR ''-'' \<notin> set (strip_server_front server name)"
proof -
  have "tidy True (drop 1 (drop (length server) name))"
    if "starts_with server name" "starts_with ''_'' (drop (length server) name) \<or> starts_with ''-'' (drop (length server) name)"
  proof -
    from that(1) obtain r where r: "name = server @ r" by (auto simp: starts_with_iff)
    with that(2) assms(2) obtain r' where "r = CHR ''_'' # r'" by (auto simp: starts_with_iff)
    then show ?thesis using r assms(1) tidy_after_underscore by auto
  qed
  then show "tidy True (strip_server_front server name)" using assms(1) by (simp add: strip_server_front_def Let_def)
  show "CHR ''-'' \<notin> set (strip_server_front server name)"
    using assms(2) by (auto simp: strip_server_front_def Let_def dest: in_set_dropD)
qed

lemma strip_server_back_tidy: "tidy True name \<Longrightarrow> tidy True (strip_server_back server name)"
  unfolding strip_server_back_def Let_def by (auto, (metis append_take_drop_id tidy_append)+)

lemma classify_with_rules_name: "classify_with_rules tool rules = Some r \<Longrightarrow> result_name r = tool"
  by (induction rules) (auto split: if_splits)

lemma classify_tidy: "tidy_names (classify_tool sm st)"
proof -
  obtain server tool where st: "st = (server, tool)" by (cases st)
  let ?s = "sanitize_tool_name (exposed_name sm server tool)"
  have s: "tidy True ?s" "CHR ''-'' \<notin> set ?s"
    using sanitize_snake_case [of "exposed_name sm server tool"] by (auto simp: snake_case_def list_all_iff plain_char_def)
  then show ?thesis
    by (auto simp: tidy_names_def classify_tool_def st Let_def strip_keywords_tidy classify_with_rules_name
        strip_server_back_tidy strip_server_front_tidy split: option.splits)
qed

text \<open>What the qualified prefixes guarantee: two tools of different servers never have both a prefix and a name in common.\<close>

definition apart :: "classified \<Rightarrow> classified \<Rightarrow> bool" where
  "apart c c' \<longleftrightarrow> cl_server c \<noteq> cl_server c' \<and> cl_prefix c = cl_prefix c' \<longrightarrow>
     {cl_stripped c, cl_full c} \<inter> {cl_stripped c', cl_full c'} = {}"

lemma unshared_apart:
  assumes "c \<in> set cs" "c' \<in> set cs" and unshared: "cl_prefix c \<notin> set (shared_prefixes (concat (map (\<lambda>c.
      [(cl_server c, cl_prefix c, cl_stripped c), (cl_server c, cl_prefix c, cl_full c)]) cs)))"
  shows "apart c c'"
proof (rule ccontr)
  let ?claims = "concat (map (\<lambda>c. [(cl_server c, cl_prefix c, cl_stripped c), (cl_server c, cl_prefix c, cl_full c)]) cs)"
  assume "\<not> apart c c'"
  then obtain n where n: "cl_server c \<noteq> cl_server c'" "cl_prefix c = cl_prefix c'"
    "n \<in> {cl_stripped c, cl_full c}" "n \<in> {cl_stripped c', cl_full c'}" by (auto simp: apart_def)
  then have "(cl_server c, cl_prefix c, n) \<in> set ?claims" "(cl_server c', cl_prefix c, n) \<in> set ?claims"
    using assms(1,2) by (auto simp: n(2))
  with n(1) unshared show False unfolding shared_prefixes_iff by blast
qed

lemma qualify_server: "x \<in> set (qualify_prefixes cs) \<Longrightarrow> \<exists>c p. c \<in> set cs \<and> x = c \<lparr>cl_prefix := p\<rparr>"
  by (fastforce simp: qualify_prefixes_def Let_def split: if_splits option.splits intro: exI [of _ "cl_prefix x"])

lemma qualified_apart:
  assumes "x \<in> set (qualify_prefixes cs)" "y \<in> set (qualify_prefixes cs)"
  shows "apart x y"
proof -
  let ?shared = "shared_prefixes (concat (map (\<lambda>c.
      [(cl_server c, cl_prefix c, cl_stripped c), (cl_server c, cl_prefix c, cl_full c)]) cs))"
  let ?claims = "map (\<lambda>c. (cl_prefix c, cl_server c)) (filter (\<lambda>c. cl_prefix c \<in> set ?shared) cs)"
  let ?in_use = "map cl_prefix (filter (\<lambda>c. cl_prefix c \<notin> set ?shared) cs)"
  define R where "R = prefixes_for_servers ?claims ?in_use"
  have spec: "map fst R = sorted_list_of_set (set ?claims)" "distinct (map snd R)" "set (map snd R) \<inter> set ?in_use = {}"
    unfolding R_def by (rule prefixes_for_servers_spec)+
  have keys: "fst ` set R = set ?claims"
    unfolding R_def by (rule prefixes_for_servers_keys)
  let ?q = "\<lambda>c. case hget R (cl_prefix c, cl_server c) of Some p \<Rightarrow> c \<lparr>cl_prefix := p\<rparr> | None \<Rightarrow> c"
  have some: "\<exists>p. hget R (cl_prefix c, cl_server c) = Some p \<and> p \<in> set (map snd R)"
    if "c \<in> set cs" "cl_prefix c \<in> set ?shared" for c
  proof -
    have "(cl_prefix c, cl_server c) \<in> set ?claims" using that by auto
    then have "(cl_prefix c, cl_server c) \<in> fst ` set R" using keys by simp
    then obtain p where p: "hget R (cl_prefix c, cl_server c) = Some p" by (metis domIff dom_map_of_conv_image_fst not_None_eq)
    from map_of_SomeD [OF this] have "p \<in> snd ` set R" by force
    with p show ?thesis by simp
  qed
  have none: "hget R (cl_prefix c, cl_server c) = None" if "cl_prefix c \<notin> set ?shared" for c
  proof -
    have "(cl_prefix c, cl_server c) \<notin> set ?claims" using that by auto
    then have "(cl_prefix c, cl_server c) \<notin> fst ` set R" using keys by simp
    then show ?thesis by (simp add: map_of_eq_None_iff)
  qed
  show ?thesis
  proof (cases "?shared = []")
    case True
    then show ?thesis using assms unshared_apart [of x cs y] by (simp add: qualify_prefixes_def)
  next
    case False
    then have "qualify_prefixes cs = map ?q cs" by (simp add: qualify_prefixes_def Let_def R_def)
    with assms obtain c c' where c: "x = ?q c" "c \<in> set cs" and c': "y = ?q c'" "c' \<in> set cs" by auto
    show ?thesis
    proof (cases "cl_prefix c \<in> set ?shared"; cases "cl_prefix c' \<in> set ?shared")
      assume a: "cl_prefix c \<in> set ?shared" "cl_prefix c' \<in> set ?shared"
      obtain p p' where p: "hget R (cl_prefix c, cl_server c) = Some p" "hget R (cl_prefix c', cl_server c') = Some p'"
        using some [OF c(2) a(1)] some [OF c'(2) a(2)] by blast
      have "cl_server c = cl_server c'" if "p = p'"
        using map_of_SomeD [OF p(1)] map_of_SomeD [OF p(2)] that spec(2)
        by (metis (no_types, lifting) distinct_map inj_onD prod.inject snd_conv)
      with p show ?thesis by (auto simp: apart_def c c')
    next
      assume a: "cl_prefix c \<in> set ?shared" "cl_prefix c' \<notin> set ?shared"
      obtain p where p: "hget R (cl_prefix c, cl_server c) = Some p" "p \<in> set (map snd R)"
        using some [OF c(2) a(1)] by blast
      have "cl_prefix c' \<in> set ?in_use" using a(2) c'(2) by auto
      with p(2) spec(3) have "p \<noteq> cl_prefix c'" by blast
      with p(1) none [OF a(2)] show ?thesis by (simp add: apart_def c c')
    next
      assume a: "cl_prefix c \<notin> set ?shared" "cl_prefix c' \<in> set ?shared"
      obtain p where p: "hget R (cl_prefix c', cl_server c') = Some p" "p \<in> set (map snd R)"
        using some [OF c'(2) a(2)] by blast
      have "cl_prefix c \<in> set ?in_use" using a(1) c(2) by auto
      with p(2) spec(3) have "p \<noteq> cl_prefix c" by blast
      with p(1) none [OF a(1)] show ?thesis by (simp add: apart_def c c')
    next
      assume a: "cl_prefix c \<notin> set ?shared" "cl_prefix c' \<notin> set ?shared"
      then show ?thesis using unshared_apart [OF c(2) c'(2) a(1)] none [OF a(1)] none [OF a(2)] by (simp add: c c')
    qed
  qed
qed

lemma wire_name_counts_get:
  "(case hget (wire_name_counts cfg cs) w of Some n \<Rightarrow> n | None \<Rightarrow> 0) = length (filter (\<lambda>c. stripped_wire cfg c = w) cs)"
proof -
  let ?f = "\<lambda>c m. hinsert (stripped_wire cfg c) ((case hget m (stripped_wire cfg c) of Some n \<Rightarrow> n | None \<Rightarrow> 0) + 1) m"
  have "(case hget (fold ?f cs m) w of Some n \<Rightarrow> n | None \<Rightarrow> 0) =
      length (filter (\<lambda>c. stripped_wire cfg c = w) cs) + (case hget m w of Some n \<Rightarrow> n | None \<Rightarrow> 0)" for m
    by (induction cs arbitrary: m) (simp_all add: hm.get_ins)
  from this [of "[]"] show ?thesis by (simp add: wire_name_counts_def)
qed

lemma use_stripped_unique:
  assumes "c \<in> set cs" "c' \<in> set cs" "c \<noteq> c'" "use_stripped cfg (wire_name_counts cfg cs) c"
  shows "stripped_wire cfg c \<noteq> stripped_wire cfg c'"
proof
  assume eq: "stripped_wire cfg c = stripped_wire cfg c'"
  have "{c, c'} \<subseteq> set (filter (\<lambda>x. stripped_wire cfg x = stripped_wire cfg c) cs)" using assms(1,2) eq by auto
  from card_mono [OF _ this] assms(3) have "2 \<le> length (filter (\<lambda>x. stripped_wire cfg x = stripped_wire cfg c) cs)"
    using card_length [of "filter (\<lambda>x. stripped_wire cfg x = stripped_wire cfg c) cs"] by (simp add: card_insert_if)
  with wire_name_counts_get [of cfg cs "stripped_wire cfg c"] assms(4) show False
    by (auto simp: use_stripped_def split: option.splits)
qed

lemma prefixed_names_differ:
  assumes cs: "c \<in> set cs" "c' \<in> set cs" "cl_server c \<noteq> cl_server c'" and apart: "apart c c'"
    and tidy: "tidy_names c" "tidy_names c'" and d: "prefix_delimiter cfg = ''__''"
  shows "prefixed_name cfg (wire_name_counts cfg cs) c \<noteq> prefixed_name cfg (wire_name_counts cfg cs) c'"
proof
  let ?n = "wire_name_counts cfg cs"
  assume eq: "prefixed_name cfg ?n c = prefixed_name cfg ?n c'"
  have ne: "c \<noteq> c'" using cs(3) by auto
  have wires: "build_wire_name (cl_prefix c) n ''__'' \<noteq> build_wire_name (cl_prefix c') n' ''__''"
    if "n \<in> {cl_stripped c, cl_full c}" "n' \<in> {cl_stripped c', cl_full c'}" for n n'
    using that apart cs(3) tidy build_wire_name_inj [of n n' "cl_prefix c" "cl_prefix c'"]
    by (auto simp: apart_def tidy_names_def)
  have mixed: "cl_stripped x \<noteq> build_wire_name p n ''__''" if "tidy_names x" for x p n
    using that wire_name_not_tidy by (auto simp: tidy_names_def)
  show False
  proof (cases "enable_prefix cfg")
    case True
    then show ?thesis using eq wires d by (auto simp: prefixed_name_def Let_def split: if_splits)
  next
    case False
    then have "cl_stripped c \<noteq> cl_stripped c'" if "use_stripped cfg ?n c"
      using use_stripped_unique [OF cs(1,2) ne that] by (simp add: stripped_wire_def)
    then show ?thesis
      using eq wires mixed [OF tidy(1)] mixed [OF tidy(2)] False d
      by (auto simp: prefixed_name_def Let_def split: if_splits) metis+
  qed
qed

lemma routes_fold:
  assumes same: "\<And>c c'. c \<in> set cs \<Longrightarrow> c' \<in> set cs \<Longrightarrow> prefixed_name cfg n c = prefixed_name cfg n c' \<Longrightarrow>
      cl_server c = cl_server c'"
    and old: "\<And>c name r. c \<in> set cs \<Longrightarrow> hget m name = Some r \<Longrightarrow> prefixed_name cfg n c = name \<Longrightarrow> fst r = cl_server c"
  shows "(\<forall>name r. hget (fold (add_route cfg n) cs m) name = Some r \<longrightarrow> hget m name = Some r \<or>
      (\<exists>c \<in> set cs. prefixed_name cfg n c = name \<and> r = (cl_server c, cl_tool c) \<and> \<not> switched_off cfg (cl_server c) name)) \<and>
    (\<forall>name r. hget m name = Some r \<longrightarrow> hget (fold (add_route cfg n) cs m) name = Some r) \<and>
    (\<forall>c \<in> set cs. \<not> switched_off cfg (cl_server c) (prefixed_name cfg n c) \<longrightarrow>
      (\<exists>t. hget (fold (add_route cfg n) cs m) (prefixed_name cfg n c) = Some (cl_server c, t)))"
  using assms
proof (induction cs arbitrary: m)
  case (Cons c cs)
  let ?m = "add_route cfg n c m" and ?name = "prefixed_name cfg n c"
  have get: "hget ?m name = Some r \<longleftrightarrow> hget m name = Some r \<or>
      hget m name = None \<and> name = ?name \<and> r = (cl_server c, cl_tool c) \<and> \<not> switched_off cfg (cl_server c) ?name" for name r
    by (auto simp: add_route_def Let_def hm.get_ins split: option.splits)
  have IH: "(\<forall>name r. hget (fold (add_route cfg n) cs ?m) name = Some r \<longrightarrow> hget ?m name = Some r \<or>
      (\<exists>c \<in> set cs. prefixed_name cfg n c = name \<and> r = (cl_server c, cl_tool c) \<and> \<not> switched_off cfg (cl_server c) name)) \<and>
    (\<forall>name r. hget ?m name = Some r \<longrightarrow> hget (fold (add_route cfg n) cs ?m) name = Some r) \<and>
    (\<forall>c \<in> set cs. \<not> switched_off cfg (cl_server c) (prefixed_name cfg n c) \<longrightarrow>
      (\<exists>t. hget (fold (add_route cfg n) cs ?m) (prefixed_name cfg n c) = Some (cl_server c, t)))"
  proof (rule Cons.IH)
    show "cl_server a = cl_server b" if "a \<in> set cs" "b \<in> set cs" "prefixed_name cfg n a = prefixed_name cfg n b" for a b
      by (rule Cons.prems(1)) (use that in auto)
    show "fst r = cl_server a" if "a \<in> set cs" "hget ?m name = Some r" "prefixed_name cfg n a = name" for a name r
    proof -
      from that(2) get consider "hget m name = Some r" | "name = ?name" "r = (cl_server c, cl_tool c)" by blast
      then show ?thesis
      proof cases
        case 1
        then show ?thesis using Cons.prems(2) [of a name r] that by simp
      next
        case 2
        then show ?thesis using Cons.prems(1) [of c a] that by simp
      qed
    qed
  qed
  have "\<exists>t. hget (fold (add_route cfg n) cs ?m) ?name = Some (cl_server c, t)" if "\<not> switched_off cfg (cl_server c) ?name"
  proof -
    have "\<exists>t. hget ?m ?name = Some (cl_server c, t)"
      using that Cons.prems(2) [of c ?name] get by (cases "hget m ?name") (auto simp: prod_eq_iff)
    with IH show ?thesis by blast
  qed
  with IH show ?case by (auto simp: get)
qed simp

lemma hinsert_values: "snd ` set (hinsert k v m) \<subseteq> insert v (snd ` set m)"
  unfolding hinsert_def by (induction m) (auto split: if_splits)

lemma fold_add_route_ok: "hmap_ok m \<Longrightarrow> hmap_ok (fold (add_route cfg n) cs m)"
proof (induction cs arbitrary: m)
  case (Cons c cs)
  then have "hmap_ok (add_route cfg n c m)" by (auto simp: add_route_def Let_def hm.ok_ins split: option.splits)
  with Cons show ?case by simp
qed simp

lemma fold_hinsert_values:
  "v \<in> snd ` set (fold (\<lambda>(k, v). hinsert (f k) v) m acc) \<Longrightarrow> v \<in> snd ` set m \<or> v \<in> snd ` set acc"
proof (induction m arbitrary: acc)
  case (Cons e m)
  obtain k x where e: "e = (k, x)" by (cases e)
  have "v \<in> snd ` set m \<or> v \<in> snd ` set (hinsert (f k) x acc)"
    using Cons.prems by (intro Cons.IH) (simp add: e)
  then show ?case using hinsert_values [of "f k" x acc] by (auto simp: e)
qed simp

lemma resolve_route_value: "resolve_route routes name = Some r \<Longrightarrow> r \<in> snd ` set routes"
proof -
  assume r: "resolve_route routes name = Some r"
  consider "hget routes name = Some r" | "hget (routes_lower routes) (map to_lower name) = Some r"
    | "route_by_upstream_name routes name = Some r"
    using r by (auto simp: resolve_route_def split: option.splits)
  then show ?thesis
  proof cases
    case 1
    then show ?thesis by (force dest: map_of_SomeD)
  next
    case 2
    then have "r \<in> snd ` set (routes_lower routes)" by (force dest: map_of_SomeD)
    then show ?thesis using fold_hinsert_values [of r "map to_lower" routes "[]"] by (simp add: routes_lower_def)
  next
    case 3
    then have "set [r] \<subseteq> snd ` set routes"
      by (auto simp: route_by_upstream_name_def split: list.splits) (metis (no_types, lifting) filter_eq_ConsD image_set in_set_conv_decomp)
    then show ?thesis by simp
  qed
qed

definition listed_name :: "server_manager \<Rightarrow> router_config \<Rightarrow> (string \<times> string) list \<Rightarrow> classified \<Rightarrow> string" where
  "listed_name sm cfg tools c =
     prefixed_name cfg (wire_name_counts cfg (qualify_prefixes (map (classify_tool sm) tools))) c"

lemma qualify_tidy: "x \<in> set (qualify_prefixes (map (classify_tool sm) tools)) \<Longrightarrow> tidy_names x"
  using qualify_server [of x] classify_tidy [of sm] by (force simp: tidy_names_def)


definition demo_manager :: server_manager where
  "demo_manager = \<lparr>get_upstream = (\<lambda>_. Some \<lparr>tool_groups = [group ''Gmail'' [''gmail''] [''gmail'']], tool_renames = []\<rparr>),
     reported_name = (\<lambda>_. None)\<rparr>"

definition demo_config :: "string list \<Rightarrow> router_config" where
  "demo_config off = \<lparr>enable_prefix = True, prefix_delimiter = ''__'', disabled_tools = off, tool_search_threshold = 50\<rparr>"

definition demo_tool :: classified where
  "demo_tool = \<lparr>cl_server = ''home'', cl_tool = ''sendGmailMessage'', cl_prefix = ''GmailHome'',
     cl_stripped = ''send_message'', cl_full = ''send_gmail_message''\<rparr>"


subsection \<open>Rules hold under both names of a tool\<close>

text \<open>
  Rules outlive a change of prefix. For a prefix without underscores and a server whose added name does not end in a
  digit, a tool that is switched off, or kept from a client, by a rule for its plain name stays so
  under the name with the server added, numbered or not, and the other way round.
\<close>

theorem rule_holds_under_both_names:
  assumes p: "p \<noteq> []" "CHR ''_'' \<notin> set p"
    and sfx: "sfx = prefix_for_server [] server" "sfx \<noteq> []" "\<not> is_digit (last sfx)"
    and k: "list_all is_digit k" and d: "prefix_delimiter cfg = ''__''"
    and names: "plain = build_wire_name p rest ''__''" "qualified = build_wire_name (p @ sfx @ k) rest ''__''"
      "unnumbered = build_wire_name (p @ sfx) rest ''__''"
  shows "(is_disabled_tool (disabled_tools cfg) plain \<longrightarrow> switched_off cfg server qualified) \<and>
    (is_disabled_tool (disabled_tools cfg) unnumbered \<longrightarrow> switched_off cfg server plain) \<and>
    (is_disabled_tool (named_tools a) plain \<longrightarrow> keeps_from a server tool qualified ''__'') \<and>
    (is_disabled_tool (named_tools a) unnumbered \<longrightarrow> keeps_from a server tool plain ''__'')"
proof -
  note other = other_names_roundtrip [OF p sfx k, of rest, folded names]
  have off: "switched_off cfg server x" if "is_disabled_tool (disabled_tools cfg) y" "y \<in> set (other_names x server ''__'')" for x y
    using that d by (auto simp: switched_off_def list_ex_iff is_disabled_tool_def [of "[]"])
  have kept: "keeps_from a server tool x ''__''" if "is_disabled_tool (named_tools a) y" "y \<in> set (other_names x server ''__'')" for x y
  proof -
    have "list_ex (is_disabled_tool (named_tools a)) (names_to_check server tool x ''__'')"
      using that by (auto simp: names_to_check_def Let_def list_ex_iff split: option.splits)
    moreover have "named_tools a \<noteq> []" using that(1) by (auto simp: is_disabled_tool_def)
    ultimately show ?thesis unfolding keeps_from_def Let_def by simp
  qed
  show ?thesis using other off kept by blast
qed

theorem rule_holds_under_both_names_witness:
  "is_disabled_tool [''gmail__send*''] ''Gmail__send_message'' \<and>
   switched_off (demo_config [''gmail__send*'']) ''google_work'' ''GmailGoogleWork2__send_message''"
proof
  show off: "is_disabled_tool [''gmail__send*''] ''Gmail__send_message''" by code_simp
  have sfx: "''GoogleWork'' = prefix_for_server [] ''google_work''" by code_simp
  have digits: "\<not> is_digit (last ''GoogleWork'')" "list_all is_digit ''2''" by (simp_all add: is_digit_def)
  show "switched_off (demo_config [''gmail__send*'']) ''google_work'' ''GmailGoogleWork2__send_message''"
    using rule_holds_under_both_names [OF _ _ sfx _ digits, where p = "''Gmail''" and rest = "''send_message''" and
        cfg = "demo_config [''gmail__send*'']"] off
    by (simp add: build_wire_name_def demo_config_def)
qed


end
