(* ===== verification/Task_Admission.thy ===== *)
theory Task_Admission
  imports Task_Resources
begin

section \<open>Admitting task creations (\<open>proxy/tasks.rs\<close>)\<close>

text \<open>
  How the router puts the admission policy, the quota pool and the task store together. A request to
  run a tool as a task is authorized, takes one lease on the queue and one on the
  task records, registers with the owner's lifecycle, and, after whatever it awaits, creates the
  record, which takes over the second lease; the first is dropped when the request ends. A run
  interleaves the steps of any number of requests, each under a handle of its own, with all the
  other operations of the store and with the other users of the pool. The leases the store
  drops go back to the pool at once.
\<close>

definition authorize :: "capability_policy_input \<Rightarrow> method_family \<Rightarrow> mcp_error + unit" where
  "authorize ctx family =
     (case decide_method ctx family of
        Allow \<Rightarrow> Inr ()
      | Deny out \<Rightarrow> Inl (into_error out (era ctx)))"

text \<open>Both leases, or an error with nothing taken.\<close>

definition admit_task ::
  "admission_quota_config \<Rightarrow> capability_policy_input \<Rightarrow> quota_counts \<Rightarrow>
   (mcp_error + (quota_lease \<times> quota_lease)) \<times> quota_counts" where
  "admit_task c ctx q =
     (case authorize ctx TaskFamily of
        Inl e \<Rightarrow> (Inl e, q)
      | Inr _ \<Rightarrow>
          (case policy_principal ctx of
             None \<Rightarrow> (Inl (into_error AuthorizationRequired (era ctx)), q)
           | Some p \<Rightarrow>
               (case quota_try_acquire c p QueuedTaskCreations 1 q of
                  Inl out \<Rightarrow> (Inl (into_error out (era ctx)), q)
                | Inr (queued, q1) \<Rightarrow>
                    (case quota_try_acquire c p quota_resource.Tasks 1 q1 of
                       Inl out \<Rightarrow> (Inl (into_error out (era ctx)), quota_lease_drop queued q1)
                     | Inr (lease, q2) \<Rightarrow> (Inr (queued, lease), q2)))))"

record admission_world =
  aw_quotas :: quota_counts
  aw_store :: task_store
  aw_held :: "(nat, quota_lease \<times> quota_lease) hmap"
  aw_foreign :: "quota_lease list"

text \<open>A store operation, with the leases it drops given back.\<close>

definition store_step :: "task_op \<Rightarrow> admission_world \<Rightarrow> admission_world" where
  "store_step op w =
     (let s = task_exec op ((aw_store w) \<lparr>dropped := []\<rparr>)
      in w \<lparr>aw_store := s, aw_quotas := fold quota_lease_drop (dropped s) (aw_quotas w)\<rparr>)"

datatype admission_step =
    AdmitTask nat capability_policy_input
  | CreateTask nat instant string task_owner string
  | CreateNativeTask nat instant task_owner string task task_upstream_ref
  | AbandonTask nat
  | StoreOp task_op
  | ForeignAcquire principal_id quota_resource u64
  | ForeignDrop nat

text \<open>The request ends after its creation, and with it its lease on the queue.\<close>

definition finish_creation :: "nat \<Rightarrow> quota_lease \<Rightarrow> task_op \<Rightarrow> admission_world \<Rightarrow> admission_world" where
  "finish_creation h queued op w =
     (let w' = store_step op (w \<lparr>aw_held := hremove h (aw_held w)\<rparr>)
      in w' \<lparr>aw_quotas := quota_lease_drop queued (aw_quotas w')\<rparr>)"

fun admission_exec :: "admission_quota_config \<Rightarrow> admission_step \<Rightarrow> admission_world \<Rightarrow> admission_world" where
  "admission_exec c (AdmitTask h ctx) w =
     (if hget (aw_held w) h \<noteq> None then w
      else case admit_task c ctx (aw_quotas w) of
        (Inl _, q) \<Rightarrow> w \<lparr>aw_quotas := q\<rparr>
      | (Inr leases, q) \<Rightarrow> w \<lparr>aw_quotas := q, aw_held := hinsert h leases (aw_held w)\<rparr>)"
| "admission_exec c (CreateTask h now stamp owner name) w =
     (case hget (aw_held w) h of
        None \<Rightarrow> w
      | Some (queued, lease) \<Rightarrow> finish_creation h queued (Create now stamp owner name (Some lease)) w)"
| "admission_exec c (CreateNativeTask h now owner name ut up) w =
     (case hget (aw_held w) h of
        None \<Rightarrow> w
      | Some (queued, lease) \<Rightarrow> finish_creation h queued (CreatePassthrough now owner name ut up (Some lease)) w)"
| "admission_exec c (AbandonTask h) w =
     (case hget (aw_held w) h of
        None \<Rightarrow> w
      | Some (queued, lease) \<Rightarrow>
          w \<lparr>aw_held := hremove h (aw_held w), aw_quotas := quota_lease_drop queued (quota_lease_drop lease (aw_quotas w))\<rparr>)"
| "admission_exec c (StoreOp op) w = (if op_lease op = [] then store_step op w else w)"
| "admission_exec c (ForeignAcquire p r u) w =
     (case quota_try_acquire c p r u (aw_quotas w) of
        Inl _ \<Rightarrow> w
      | Inr (l, q) \<Rightarrow> w \<lparr>aw_quotas := q, aw_foreign := l # aw_foreign w\<rparr>)"
| "admission_exec c (ForeignDrop i) w =
     (if i < length (aw_foreign w)
      then w \<lparr>aw_quotas := quota_lease_drop (aw_foreign w ! i) (aw_quotas w),
             aw_foreign := take i (aw_foreign w) @ drop (Suc i) (aw_foreign w)\<rparr>
      else w)"

definition admission_new :: admission_world where
  "admission_new = \<lparr>aw_quotas = quota_counts_default, aw_store = task_store_new, aw_held = [], aw_foreign = []\<rparr>"

subsection \<open>The invariant\<close>

definition held_leases :: "(nat, quota_lease \<times> quota_lease) hmap \<Rightarrow> quota_lease multiset" where
  "held_leases m = mset (map (fst \<circ> snd) m) + mset (map (snd \<circ> snd) m)"

definition all_leases :: "admission_world \<Rightarrow> quota_lease multiset" where
  "all_leases w = store_leases (aw_store w) + held_leases (aw_held w) + mset (aw_foreign w)"

definition admission_inv :: "admission_quota_config \<Rightarrow> nat \<Rightarrow> admission_world \<Rightarrow> bool" where
  "admission_inv c n w \<longleftrightarrow>
     limits_ok c \<and> task_ids_ok (aw_store w) \<and> unat (next_task_id (aw_store w)) \<le> n \<and> hmap_ok (aw_held w) \<and>
     quota_represents c (aw_quotas w) (all_leases w)"

lemma task_ids_ok_dropped [simp]: "task_ids_ok (s \<lparr>dropped := d\<rparr>) = task_ids_ok s"
  by (simp add: task_ids_ok_def)

lemma store_leases_dropped [simp]: "store_leases (s \<lparr>dropped := d\<rparr>) = store_leases s"
  by (simp add: store_leases_def)

lemma give_back_list:
  "limits_ok c \<Longrightarrow> quota_represents c q (mset ls + L) \<Longrightarrow> quota_represents c (fold quota_lease_drop ls q) L"
  using quota.give_list_represents [of c q ls L] by simp

lemma store_step_inv:
  assumes ok: "limits_ok c" "task_ids_ok (aw_store w)" "unat (next_task_id (aw_store w)) \<le> n" "Suc n < 2 ^ 64"
    and rep: "quota_represents c (aw_quotas w) (store_leases (aw_store w) + mset (op_lease op) + L)"
    and w': "w' = store_step op w"
  shows "task_ids_ok (aw_store w')" "unat (next_task_id (aw_store w')) \<le> Suc n"
    "quota_represents c (aw_quotas w') (store_leases (aw_store w') + L)"
    "aw_held w' = aw_held w" "aw_foreign w' = aw_foreign w"
proof -
  let ?old = "(aw_store w) \<lparr>dropped := []\<rparr>" and ?new = "task_exec op ((aw_store w) \<lparr>dropped := []\<rparr>)"
  have s0: "task_ids_ok ?old" using ok(2) by simp
  have ids: "task_ids_ok ?new \<and> unat (next_task_id ?new) \<le> unat (next_task_id ?old) + 1"
    using exec_ids_ok [OF s0, of op] ok(3,4) by simp
  then show "task_ids_ok (aw_store w')" "unat (next_task_id (aw_store w')) \<le> Suc n"
    using ok(3) by (simp_all add: w' store_step_def Let_def)
  show "aw_held w' = aw_held w" "aw_foreign w' = aw_foreign w" by (simp_all add: w' store_step_def Let_def)
  have "store_leases ?new + mset (dropped ?new) = store_leases (aw_store w) + mset (op_lease op)"
    using lease_total_exec [OF s0, of op] by (simp add: lease_total_def)
  then have "quota_represents c (aw_quotas w) (mset (dropped ?new) + (store_leases ?new + L))"
    using rep by (simp add: ac_simps)
  from give_back_list [OF ok(1) this] show "quota_represents c (aw_quotas w') (store_leases (aw_store w') + L)"
    by (simp add: w' store_step_def Let_def)
qed

lemma held_leases_remove:
  assumes "hmap_ok m" "hget m h = Some (a, b)"
  shows "held_leases m = add_mset a (add_mset b (held_leases (hremove h m)))"
  using assms
proof (induction m)
  case (Cons x m)
  show ?case
  proof (cases "fst x = h")
    case True
    with Cons.prems(1) have "hget m h = None" by (auto simp: hmap_ok_def map_of_eq_None_iff)
    then have "hremove h m = m" by (rule hremove_absent)
    then show ?thesis using True Cons.prems(2) by (cases x) (simp add: held_leases_def hremove_def)
  next
    case False
    with Cons.prems have "held_leases m = add_mset a (add_mset b (held_leases (hremove h m)))"
      by (intro Cons.IH) (auto simp: hmap_ok_def split: if_splits)
    with False show ?thesis by (simp add: held_leases_def hremove_def)
  qed
qed simp

lemma held_leases_insert: "hget m h = None \<Longrightarrow> held_leases (hinsert h (a, b) m) = add_mset a (add_mset b (held_leases m))"
  unfolding hinsert_def held_leases_def by (induction m) (auto split: if_splits)

lemma admit_task_spec:
  assumes "limits_ok c" "quota_represents c q L"
  shows "case admit_task c ctx q of
      (Inl _, q') \<Rightarrow> quota_represents c q' L
    | (Inr (a, b), q') \<Rightarrow> quota_represents c q' (add_mset a (add_mset b L))"
proof (cases "authorize ctx TaskFamily")
  case (Inr u)
  show ?thesis
  proof (cases "policy_principal ctx")
    case (Some p)
    show ?thesis
    proof (cases "quota_try_acquire c p QueuedTaskCreations 1 q")
      case (Inr x)
      obtain queued q1 where x: "x = (queued, q1)" by (cases x)
      note r1 = try_acquire_represents [OF assms Inr [unfolded x]]
      show ?thesis
      proof (cases "quota_try_acquire c p quota_resource.Tasks 1 q1")
        case (Inl out)
        with \<open>quota_try_acquire c p QueuedTaskCreations 1 q = Inr x\<close> \<open>authorize ctx TaskFamily = Inr u\<close> Some
        show ?thesis using lease_drop_represents [OF r1] by (simp add: admit_task_def x)
      next
        case (Inr y)
        obtain lease q2 where y: "y = (lease, q2)" by (cases y)
        from try_acquire_represents [OF assms(1) r1 Inr [unfolded y]] Inr
          \<open>quota_try_acquire c p QueuedTaskCreations 1 q = Inr x\<close> \<open>authorize ctx TaskFamily = Inr u\<close> Some
        show ?thesis by (simp add: admit_task_def x y add_mset_commute)
      qed
    qed (use assms \<open>authorize ctx TaskFamily = Inr u\<close> Some in \<open>simp add: admit_task_def\<close>)
  qed (use assms Inr in \<open>simp add: admit_task_def\<close>)
qed (use assms in \<open>simp add: admit_task_def\<close>)

lemma finish_creation_inv:
  assumes inv: "admission_inv c n w" "Suc n < 2 ^ 64" and h: "hget (aw_held w) h = Some (queued, lease)"
    and op: "op_lease op = [lease]"
  shows "admission_inv c (Suc n) (finish_creation h queued op w)"
proof -
  let ?w0 = "w \<lparr>aw_held := hremove h (aw_held w)\<rparr>"
  define L where "L = add_mset queued (held_leases (hremove h (aw_held w)) + mset (aw_foreign w))"
  have "quota_represents c (aw_quotas ?w0) (store_leases (aw_store ?w0) + mset (op_lease op) + L)"
    using inv(1) held_leases_remove [OF _ h] op by (simp add: admission_inv_def all_leases_def L_def add.assoc)
  from store_step_inv [OF _ _ _ inv(2) this refl]
  have s: "task_ids_ok (aw_store (store_step op ?w0))" "unat (next_task_id (aw_store (store_step op ?w0))) \<le> Suc n"
    "quota_represents c (aw_quotas (store_step op ?w0)) (store_leases (aw_store (store_step op ?w0)) + L)"
    "aw_held (store_step op ?w0) = hremove h (aw_held w)" "aw_foreign (store_step op ?w0) = aw_foreign w"
    using inv(1) by (auto simp: admission_inv_def)
  from s(3) have "quota_represents c (quota_lease_drop queued (aw_quotas (store_step op ?w0)))
      (store_leases (aw_store (store_step op ?w0)) + held_leases (hremove h (aw_held w)) + mset (aw_foreign w))"
    by (intro lease_drop_represents) (simp add: L_def ac_simps)
  then show ?thesis using s inv(1) by (simp add: admission_inv_def all_leases_def finish_creation_def Let_def hm.ok_del)
qed

lemma admission_exec_inv:
  assumes inv: "admission_inv c n w" and n: "Suc n < 2 ^ 64"
  shows "admission_inv c (Suc n) (admission_exec c st w)"
proof -
  have ok: "limits_ok c" "task_ids_ok (aw_store w)" "unat (next_task_id (aw_store w)) \<le> n" "hmap_ok (aw_held w)"
    and rep: "quota_represents c (aw_quotas w) (all_leases w)"
    using inv by (auto simp: admission_inv_def)
  have weaken: "admission_inv c (Suc n) w" using inv by (simp add: admission_inv_def)
  show ?thesis
  proof (cases st)
    case (AdmitTask h ctx)
    show ?thesis
    proof (cases "hget (aw_held w) h")
      case None
      then show ?thesis
        using AdmitTask ok admit_task_spec [OF ok(1) rep, of ctx]
        by (auto simp: admission_inv_def all_leases_def held_leases_insert hm.ok_ins split: sum.splits prod.splits)
    qed (use AdmitTask weaken in simp)
  next
    case (CreateTask h now stamp owner name)
    then show ?thesis using weaken by (auto simp: lease_list_def split: option.splits intro!: finish_creation_inv [OF inv n])
  next
    case (CreateNativeTask h now owner name ut up)
    then show ?thesis using weaken by (auto simp: lease_list_def split: option.splits intro!: finish_creation_inv [OF inv n])
  next
    case (AbandonTask h)
    have "quota_represents c (quota_lease_drop a (quota_lease_drop b (aw_quotas w)))
        (store_leases (aw_store w) + held_leases (hremove h (aw_held w)) + mset (aw_foreign w))"
      if "hget (aw_held w) h = Some (a, b)" for a b
      using rep held_leases_remove [OF ok(4) that]
      by (intro lease_drop_represents) (simp add: all_leases_def add_mset_commute)
    then show ?thesis
      using AbandonTask weaken ok by (auto simp: admission_inv_def all_leases_def hm.ok_del split: option.splits)
  next
    case (StoreOp op)
    have "quota_represents c (aw_quotas w) (store_leases (aw_store w) + mset (op_lease op) +
        (held_leases (aw_held w) + mset (aw_foreign w)))" if "op_lease op = []"
      using rep that by (simp add: all_leases_def ac_simps)
    from store_step_inv [OF ok(1-3) n this refl] StoreOp weaken ok show ?thesis
      by (simp add: admission_inv_def all_leases_def ac_simps)
  next
    case (ForeignAcquire p r u)
    then show ?thesis
      using weaken try_acquire_represents [OF ok(1) rep, of p r u]
      by (auto simp: admission_inv_def all_leases_def split: sum.splits)
  next
    case (ForeignDrop i)
    have "quota_represents c (quota_lease_drop (aw_foreign w ! i) (aw_quotas w))
        (store_leases (aw_store w) + held_leases (aw_held w) + mset (take i (aw_foreign w) @ drop (Suc i) (aw_foreign w)))"
      if "i < length (aw_foreign w)"
      using rep mset_remove_nth [OF that, symmetric] by (intro lease_drop_represents) (simp add: all_leases_def)
    then show ?thesis using ForeignDrop weaken by (simp add: admission_inv_def all_leases_def)
  qed
qed

lemma admission_run_inv:
  "admission_inv c n w \<Longrightarrow> n + length steps < 2 ^ 64 \<Longrightarrow>
   admission_inv c (n + length steps) (fold (admission_exec c) steps w)"
proof (induction steps arbitrary: n w)
  case (Cons st steps)
  from Cons.prems have "admission_inv c (Suc n) (admission_exec c st w)" by (intro admission_exec_inv) auto
  from Cons.IH [OF this] Cons.prems(2) show ?case by simp
qed simp

lemma admission_new_inv: "limits_ok c \<Longrightarrow> admission_inv c 1 admission_new"
  by (simp add: admission_inv_def admission_new_def new_ids_ok all_leases_def held_leases_def store_leases_def
      record_leases_def cleanup_leases_def quota_represents_empty)
     (simp add: task_store_new_def record_leases_def cleanup_leases_def quota_represents_empty)

subsection \<open>Quota and store agree\<close>

text \<open>
  C22. Admission control really bounds the task store. However requests, their creations and failures, expiry, retention,
  teardown and other users of the pool interleave, the units of a resource in use are exactly the leases
  that task records, expired tasks awaiting cleanup, running requests and the others hold. So the records
  a principal's tasks hold leases for never exceed its share, nor all of them the
  limit, and no lease is left behind when a request fails or a record goes.
\<close>

theorem admission_bounds_tasks:
  assumes "limits_ok c" "Suc (length steps) < 2 ^ 64" and w: "w = fold (admission_exec c) steps admission_new"
  shows "global_usage (aw_quotas w) r =
      (\<Sum>l\<in>#store_leases (aw_store w). lease_on l r) + (\<Sum>l\<in>#held_leases (aw_held w). lease_on l r) +
      (\<Sum>l\<leftarrow>aw_foreign w. lease_on l r) \<and>
    (\<Sum>l\<in>#store_leases (aw_store w). lease_keyed p r l) \<le> unat (per_principal_limit c r) \<and>
    (\<Sum>l\<in>#store_leases (aw_store w). lease_on l r) \<le> unat (limit c r)"
proof -
  have "admission_inv c (1 + length steps) w"
    unfolding w using assms(2) by (intro admission_run_inv admission_new_inv assms(1)) simp
  then have rep: "quota_represents c (aw_quotas w) (all_leases w)" by (simp add: admission_inv_def)
  show ?thesis
    using represents_sums(1) [OF rep, of r] represents_sums(2) [OF rep, of p r] represents_limits(1) [OF rep, of r]
      represents_limits(2) [OF rep, of p r]
    by (simp add: all_leases_def flip: sum_mset_sum_list)
qed

definition demo_context :: capability_policy_input where
  "demo_context = \<lparr>era = Legacy, transport = Stdio, policy_principal = Some (StdioProcess 1), scopes = {},
     local_trust = True, modern_direction_enabled = False, bridge_implemented = False\<rparr>"

definition demo_lease :: "quota_resource \<Rightarrow> quota_lease" where
  "demo_lease r = \<lparr>lease_principal = StdioProcess 1, lease_resource = r, lease_units = 1\<rparr>"

lemma demo_admitted:
  "\<exists>q. admission_exec admission_quota_config_default (AdmitTask 0 demo_context) admission_new =
     admission_new \<lparr>aw_quotas := q, aw_held := [(0, demo_lease QueuedTaskCreations, demo_lease quota_resource.Tasks)]\<rparr>"
  by (simp add: admission_new_def admit_task_def authorize_def decide_method_def demo_context_def durable_def
      quota_try_acquire_def count_of_def quota_counts_default_def admission_quota_config_default_def per_principal_limit_def
      saturating_add_def demo_lease_def hinsert_def)

theorem admission_bounds_tasks_witness:
  "\<exists>w. w = fold (admission_exec admission_quota_config_default)
      [AdmitTask 0 demo_context, CreateTask 0 5 ''t'' ''alice'' ''build''] admission_new \<and>
     length (tasks (aw_store w)) = 1 \<and> global_usage (aw_quotas w) quota_resource.Tasks = 1 \<and>
     global_usage (aw_quotas w) QueuedTaskCreations = 0"
proof -
  let ?c = admission_quota_config_default
  let ?steps = "[AdmitTask 0 demo_context, CreateTask 0 5 ''t'' ''alice'' ''build'']"
  define w where "w = fold (admission_exec ?c) ?steps admission_new"
  from demo_admitted obtain q where "admission_exec ?c (AdmitTask 0 demo_context) admission_new =
     admission_new \<lparr>aw_quotas := q, aw_held := [(0, demo_lease QueuedTaskCreations, demo_lease quota_resource.Tasks)]\<rparr>" ..
  then have st: "aw_held w = []" "aw_foreign w = []" "length (tasks (aw_store w)) = 1"
    "store_leases (aw_store w) = {#demo_lease quota_resource.Tasks#}"
    by (simp_all add: w_def admission_new_def finish_creation_def store_step_def store_leases_def record_leases_def
        cleanup_leases_def task_eval hremove_def del: admission_exec.simps(1))
  have "global_usage (aw_quotas w) quota_resource.Tasks = 1" "global_usage (aw_quotas w) QueuedTaskCreations = 0"
    using admission_bounds_tasks [OF limits_ok_default _ w_def] st by (simp_all add: lease_on_def held_leases_def demo_lease_def)
  with st(3) show ?thesis by (intro exI [of _ w]) (simp add: w_def)
qed

end
