(* ===== verification/Subscriptions.thy ===== *)
theory Subscriptions
  imports Plug_Prelude
begin

section \<open>Resource subscriptions (\<open>proxy/subscriptions.rs\<close>)\<close>

text \<open>
  The registry shares one upstream subscription per resource among all clients that asked for it. What a call
  decides it decides at once, under the guard of the entry; the upstream calls happen afterwards in a
  detached task per transition, one task per resource at a time. The model has both halves.
  \<^item> \<open>subscribe\<close>, \<open>unsubscribe\<close>, \<open>cleanup_entry\<close>, \<open>prune\<close> and \<open>migrate\<close> are the decisions. Each
    may append a task to \<open>transitions\<close> and a channel to \<open>signals\<close>; an await is the index of a channel.
  \<^item> \<open>acquire\<close>, \<open>answer\<close> and \<open>confirm\<close> are what a task does between two points where it
    waits: for the lock, for the upstream's answer, and for the entry's guard after it.
  \<^item> \<open>objects\<close> are the \<open>UpstreamServer\<close>s with the number of their connection, which a transport may
    advance in place; \<open>manager\<close> says which one a server id stands for at the moment.
  \<^item> \<open>held\<close> is what the upstreams know, for the theorems only: the resources whose last call to an
    object was a subscribe that succeeded, with the connection it was made on.
  \<^item> A set of clients is a list without duplicates.
\<close>

datatype notification_target = Stdio string | Http string | Ipc string

type_synonym upstream = nat
type_synonym channel = nat
type_synonym mcp_result = "string + unit"

datatype entry_state =
    Pending channel string
  | Active
  | Draining "string option"

record sub_entry =
  generation :: u64
  members :: "notification_target list"
  entry_state :: entry_state
  owner_server_id :: "string option"
  owner_connection_generation :: "u64 option"

fun is_pending :: "entry_state \<Rightarrow> bool" where
  "is_pending (Pending _ _) = True"
| "is_pending _ = False"

fun is_draining :: "entry_state \<Rightarrow> bool" where
  "is_draining (Draining _) = True"
| "is_draining _ = False"

definition owner_to_release :: "sub_entry \<Rightarrow> string option" where
  "owner_to_release e =
     (case owner_server_id e of
        Some s \<Rightarrow> Some s
      | None \<Rightarrow> (case entry_state e of Pending _ intended \<Rightarrow> Some intended | _ \<Rightarrow> None))"

datatype rebind_skip_reason = NewOwnerMissing | NewOwnerNoSubscribeSupport

datatype drain_origin = FromUnsubscribe | FromCleanup | FromPrune string

text \<open>What a detached task was given: the arguments of the three \<open>run_..._transition\<close> functions.\<close>

datatype transition =
    SubscribeTransition string "string option" upstream
  | DrainTransition "upstream option" drain_origin
  | RebindTransition string "upstream option" string "rebind_skip_reason + upstream" bool

datatype progress = Waiting | Releasing upstream | Calling upstream | Confirming upstream

record task =
  t_uri :: string
  t_generation :: u64
  t_kind :: transition
  t_tx :: channel
  t_at :: progress

record registry =
  sub_entries :: "(string, sub_entry) hmap"
  next_generation :: u64
  signals :: "mcp_result option list"
  transitions :: "task list"
  owner_resolver_set :: bool
  post_confirm_hook_set :: bool
  hook_calls :: "(string \<times> string) list"
  objects :: "(string \<times> u64) list"
  manager :: "(string, upstream) hmap"
  held :: "(string \<times> upstream \<times> u64) list"

definition registry_new :: registry where
  "registry_new = \<lparr>sub_entries = [], next_generation = 0, signals = [], transitions = [], owner_resolver_set = False,
     post_confirm_hook_set = False, hook_calls = [], objects = [], manager = [], held = []\<rparr>"

definition set_owner_resolver :: "registry \<Rightarrow> registry" where
  "set_owner_resolver w = w \<lparr>owner_resolver_set := True\<rparr>"

definition set_post_confirm_hook :: "registry \<Rightarrow> registry" where
  "set_post_confirm_hook w = w \<lparr>post_confirm_hook_set := True\<rparr>"

definition connection_generation :: "upstream \<Rightarrow> registry \<Rightarrow> u64" where
  "connection_generation up w = snd (objects w ! up)"

definition drain_handle :: "string option \<Rightarrow> upstream option \<Rightarrow> registry \<Rightarrow> upstream option" where
  "drain_handle recorded_owner fallback w =
     (case recorded_owner of
        Some owner_id \<Rightarrow> if owner_resolver_set w then hget (manager w) owner_id else fallback
      | None \<Rightarrow> fallback)"

subsection \<open>Queries\<close>

definition registry_len :: "registry \<Rightarrow> nat" where
  "registry_len w = length (sub_entries w)"

definition members_snapshot :: "string \<Rightarrow> registry \<Rightarrow> notification_target list option" where
  "members_snapshot uri w = map_option members (hget (sub_entries w) uri)"

definition has_entry :: "string \<Rightarrow> registry \<Rightarrow> bool" where
  "has_entry uri w \<longleftrightarrow> hget (sub_entries w) uri \<noteq> None"

definition owner_snapshot :: "string \<Rightarrow> registry \<Rightarrow> string option option" where
  "owner_snapshot uri w = map_option owner_server_id (hget (sub_entries w) uri)"

definition tracks_member :: "string \<Rightarrow> notification_target \<Rightarrow> registry \<Rightarrow> bool" where
  "tracks_member uri target w \<longleftrightarrow>
     (case hget (sub_entries w) uri of Some e \<Rightarrow> target \<in> set (members e) | None \<Rightarrow> False)"

definition member_active_on_owner :: "string \<Rightarrow> notification_target \<Rightarrow> string \<Rightarrow> registry \<Rightarrow> bool" where
  "member_active_on_owner uri target owner w \<longleftrightarrow>
     (case hget (sub_entries w) uri of
        Some e \<Rightarrow> target \<in> set (members e) \<and> entry_state e = Active \<and> owner_server_id e = Some owner
      | None \<Rightarrow> False)"

definition member_is_active :: "string \<Rightarrow> notification_target \<Rightarrow> registry \<Rightarrow> bool" where
  "member_is_active uri target w \<longleftrightarrow>
     (case hget (sub_entries w) uri of
        Some e \<Rightarrow> target \<in> set (members e) \<and> entry_state e = Active
      | None \<Rightarrow> False)"

subsection \<open>Decisions\<close>

text \<open>A result at once, or a channel to wait on.\<close>

datatype outcome = Ready mcp_result | Await channel

definition await_transition :: "channel \<Rightarrow> registry \<Rightarrow> mcp_result option" where
  "await_transition rx w = signals w ! rx"

definition spawn_task :: "string \<Rightarrow> u64 \<Rightarrow> transition \<Rightarrow> registry \<Rightarrow> registry" where
  "spawn_task uri g kind w =
     w \<lparr>signals := signals w @ [None],
       transitions := transitions w @
         [\<lparr>t_uri = uri, t_generation = g, t_kind = kind, t_tx = length (signals w), t_at = Waiting\<rparr>]\<rparr>"

definition put_entry :: "string \<Rightarrow> sub_entry \<Rightarrow> registry \<Rightarrow> registry" where
  "put_entry uri e w = w \<lparr>sub_entries := hinsert uri e (sub_entries w)\<rparr>"

definition start_subscribe ::
  "string \<Rightarrow> notification_target list \<Rightarrow> string \<Rightarrow> string option \<Rightarrow> upstream \<Rightarrow> registry \<Rightarrow> outcome \<times> registry" where
  "start_subscribe uri ms owner displaced up w =
     (let g = next_generation w;
          e = \<lparr>generation = g, members = ms, entry_state = Pending (length (signals w)) owner,
               owner_server_id = None, owner_connection_generation = None\<rparr>
      in (Await (length (signals w)),
          spawn_task uri g (SubscribeTransition owner displaced up) (put_entry uri e (w \<lparr>next_generation := g + 1\<rparr>))))"

definition subscribe ::
  "string \<Rightarrow> notification_target \<Rightarrow> string \<Rightarrow> upstream \<Rightarrow> registry \<Rightarrow> outcome \<times> registry" where
  "subscribe uri target owner up w =
     (case hget (sub_entries w) uri of
        None \<Rightarrow> start_subscribe uri [target] owner None up w
      | Some e0 \<Rightarrow>
          (let e = e0 \<lparr>members := List.insert target (members e0)\<rparr>;
               owner_connection_replaced = (owner_server_id e = Some owner \<and>
                 (case owner_connection_generation e of Some r \<Rightarrow> r \<noteq> connection_generation up w | None \<Rightarrow> False))
           in case entry_state e of
                Active \<Rightarrow>
                  if owner_connection_replaced then start_subscribe uri (members e) owner None up w
                  else (Ready (Inr ()), put_entry uri e w)
              | Pending rx _ \<Rightarrow> (Await rx, put_entry uri e w)
              | Draining displaced \<Rightarrow> start_subscribe uri [target] owner displaced up w))"

text \<open>The last client leaving an entry that is not draining yet marks it and starts the drain.\<close>

definition leave ::
  "drain_origin \<Rightarrow> string \<Rightarrow> notification_target \<Rightarrow> upstream option \<Rightarrow> registry \<Rightarrow> registry" where
  "leave origin uri target up w =
     (case hget (sub_entries w) uri of
        None \<Rightarrow> w
      | Some e0 \<Rightarrow>
          (let e = e0 \<lparr>members := removeAll target (members e0)\<rparr>
           in if members e = [] \<and> \<not> is_draining (entry_state e)
              then spawn_task uri (generation e) (DrainTransition up origin)
                     (put_entry uri (e \<lparr>entry_state := Draining (owner_to_release e)\<rparr>) w)
              else put_entry uri e w))"

definition unsubscribe :: "string \<Rightarrow> notification_target \<Rightarrow> upstream option \<Rightarrow> registry \<Rightarrow> registry" where
  "unsubscribe = leave FromUnsubscribe"

definition cleanup_entry :: "string \<Rightarrow> notification_target \<Rightarrow> upstream option \<Rightarrow> registry \<Rightarrow> registry" where
  "cleanup_entry = leave FromCleanup"

text \<open>The sweep of a client that went away visits the entries one by one; other calls may come in between.\<close>

definition cleanup_target :: "notification_target \<Rightarrow> (string \<Rightarrow> upstream option) \<Rightarrow> registry \<Rightarrow> registry" where
  "cleanup_target target resolve w = fold (\<lambda>uri. cleanup_entry uri target (resolve uri)) (map fst (sub_entries w)) w"

definition prune :: "string \<Rightarrow> string option \<Rightarrow> upstream option \<Rightarrow> registry \<Rightarrow> outcome \<times> registry" where
  "prune uri server_id up w =
     (case hget (sub_entries w) uri of
        None \<Rightarrow> (Ready (Inr ()), w)
      | Some e \<Rightarrow>
          (Await (length (signals w)),
           spawn_task uri (generation e)
             (DrainTransition up (case server_id of Some s \<Rightarrow> FromPrune s | None \<Rightarrow> FromUnsubscribe))
             (put_entry uri (e \<lparr>entry_state := Draining (owner_to_release e)\<rparr>) w)))"

definition migrate ::
  "string \<Rightarrow> string \<Rightarrow> upstream option \<Rightarrow> string \<Rightarrow> rebind_skip_reason + upstream \<Rightarrow> bool \<Rightarrow> registry \<Rightarrow>
   outcome \<times> registry" where
  "migrate uri old_server_id old_up new_server_id new_owner release_old_owner w =
     (case hget (sub_entries w) uri of
        None \<Rightarrow> (Ready (Inr ()), w)
      | Some e \<Rightarrow>
          (case (if members e = [] then None
                 else case entry_state e of
                   Pending rx intended \<Rightarrow> if intended = new_server_id then Some rx else None
                 | _ \<Rightarrow> None) of
             Some rx \<Rightarrow> (Await rx, w)
           | None \<Rightarrow>
               (let g = next_generation w; w1 = w \<lparr>next_generation := g + 1\<rparr>
                in (Await (length (signals w)),
                    if members e = []
                    then spawn_task uri g (DrainTransition old_up (FromPrune old_server_id))
                           (put_entry uri (e \<lparr>generation := g, entry_state := Draining (owner_to_release e)\<rparr>) w1)
                    else spawn_task uri g (RebindTransition old_server_id old_up new_server_id new_owner release_old_owner)
                           (put_entry uri (e \<lparr>generation := g, entry_state := Pending (length (signals w)) new_server_id\<rparr>) w1)))))"

definition rebind where
  "rebind uri old_server_id old_up new_server_id new_owner = migrate uri old_server_id old_up new_server_id new_owner True"

definition resubscribe where
  "resubscribe uri server_id new_owner = migrate uri server_id None server_id new_owner False"

subsection \<open>Route changes\<close>

datatype route_reconciliation =
    Rebind string string string
  | Prune string "string option"
  | Resubscribe string string

definition owner_connection_is_stale :: "sub_entry \<Rightarrow> string \<Rightarrow> registry \<Rightarrow> bool" where
  "owner_connection_is_stale e server_id w \<longleftrightarrow>
     (if entry_state e \<noteq> Active then False
      else if owner_server_id e \<noteq> Some server_id then False
      else case owner_connection_generation e of
        None \<Rightarrow> False
      | Some recorded \<Rightarrow>
          (case drain_handle (Some server_id) None w of
             Some current \<Rightarrow> connection_generation current w \<noteq> recorded
           | None \<Rightarrow> False))"

definition classify_entry ::
  "(string, string) hmap \<Rightarrow> (string, string) hmap \<Rightarrow> registry \<Rightarrow> string \<Rightarrow> sub_entry \<Rightarrow> route_reconciliation list" where
  "classify_entry old_routes new_routes w uri e =
     (case hget new_routes uri of
        Some new_server_id \<Rightarrow>
          (let old_side = (case owner_server_id e of Some owner \<Rightarrow> Some owner | None \<Rightarrow> hget old_routes uri)
           in case old_side of
                Some old_server_id \<Rightarrow>
                  if old_server_id \<noteq> new_server_id then [Rebind uri old_server_id new_server_id]
                  else if owner_connection_is_stale e new_server_id w then [Resubscribe uri new_server_id] else []
              | None \<Rightarrow> if owner_connection_is_stale e new_server_id w then [Resubscribe uri new_server_id] else [])
      | None \<Rightarrow> [Prune uri (hget old_routes uri)])"

definition classify_route_changes ::
  "(string, string) hmap \<Rightarrow> (string, string) hmap \<Rightarrow> registry \<Rightarrow> route_reconciliation list" where
  "classify_route_changes old_routes new_routes w =
     concat (map (\<lambda>(uri, e). classify_entry old_routes new_routes w uri e) (sub_entries w))"

subsection \<open>Transitions\<close>

definition current_entry :: "task \<Rightarrow> registry \<Rightarrow> sub_entry option" where
  "current_entry t w =
     (case hget (sub_entries w) (t_uri t) of
        Some e \<Rightarrow> if generation e = t_generation t then Some e else None
      | None \<Rightarrow> None)"

definition remove_if_current :: "task \<Rightarrow> registry \<Rightarrow> registry" where
  "remove_if_current t w =
     (if current_entry t w = None then w else w \<lparr>sub_entries := hremove (t_uri t) (sub_entries w)\<rparr>)"

definition goto_progress :: "nat \<Rightarrow> progress \<Rightarrow> registry \<Rightarrow> registry" where
  "goto_progress i p w = w \<lparr>transitions := (transitions w) [i := (transitions w ! i) \<lparr>t_at := p\<rparr>]\<rparr>"

definition finish_task :: "nat \<Rightarrow> mcp_result \<Rightarrow> registry \<Rightarrow> registry" where
  "finish_task i result w =
     w \<lparr>signals := (signals w) [t_tx (transitions w ! i) := Some result],
       transitions := take i (transitions w) @ drop (Suc i) (transitions w)\<rparr>"

definition superseded_error :: string where
  "superseded_error = ''subscription superseded before upstream call''"

definition rebind_error :: "string \<Rightarrow> string" where
  "rebind_error uri = ''rebind failed for '' @ uri"

text \<open>The calls in flight end; what the upstream then knows is recorded.\<close>

definition upstream_unsubscribed :: "string \<Rightarrow> upstream \<Rightarrow> registry \<Rightarrow> registry" where
  "upstream_unsubscribed uri up w = w \<lparr>held := filter (\<lambda>(u, o', _). \<not> (u = uri \<and> o' = up)) (held w)\<rparr>"

definition upstream_subscribed :: "string \<Rightarrow> upstream \<Rightarrow> registry \<Rightarrow> registry" where
  "upstream_subscribed uri up w =
     (let w' = upstream_unsubscribed uri up w in w' \<lparr>held := (uri, up, connection_generation up w) # held w'\<rparr>)"

definition subscribe_call :: "nat \<Rightarrow> task \<Rightarrow> upstream \<Rightarrow> registry \<Rightarrow> registry" where
  "subscribe_call i t up w =
     (if current_entry t w = None then finish_task i (Inl superseded_error) w else goto_progress i (Calling up) w)"

definition finish_drain :: "nat \<Rightarrow> task \<Rightarrow> registry \<Rightarrow> registry" where
  "finish_drain i t w = finish_task i (Inr ()) (remove_if_current t w)"

definition rebind_failed :: "nat \<Rightarrow> task \<Rightarrow> registry \<Rightarrow> registry" where
  "rebind_failed i t w = finish_task i (Inl (rebind_error (t_uri t))) (remove_if_current t w)"

definition rebind_call :: "nat \<Rightarrow> task \<Rightarrow> rebind_skip_reason + upstream \<Rightarrow> registry \<Rightarrow> registry" where
  "rebind_call i t new_owner w =
     (case new_owner of Inl _ \<Rightarrow> rebind_failed i t w | Inr up \<Rightarrow> goto_progress i (Calling up) w)"

text \<open>With the lock of its resource taken, a task goes on until it waits for an upstream.\<close>

definition acquire :: "nat \<Rightarrow> task \<Rightarrow> registry \<Rightarrow> registry" where
  "acquire i t w =
     (case t_kind t of
        SubscribeTransition owner displaced up \<Rightarrow>
          (case (case displaced of
                   Some previous \<Rightarrow> if previous \<noteq> owner then drain_handle (Some previous) None w else None
                 | None \<Rightarrow> None) of
             Some handle \<Rightarrow> goto_progress i (Releasing handle) w
           | None \<Rightarrow> subscribe_call i t up w)
      | DrainTransition up _ \<Rightarrow>
          (case current_entry t w of
             None \<Rightarrow> finish_task i (Inr ()) w
           | Some e \<Rightarrow>
               (case drain_handle (owner_server_id e) up w of
                  Some handle \<Rightarrow> goto_progress i (Releasing handle) w
                | None \<Rightarrow> finish_drain i t w))
      | RebindTransition _ old_up _ new_owner release_old_owner \<Rightarrow>
          (case current_entry t w of
             None \<Rightarrow> finish_task i (Inr ()) w
           | Some e \<Rightarrow>
               if release_old_owner
               then (case drain_handle (owner_server_id e) old_up w of
                       Some handle \<Rightarrow> goto_progress i (Releasing handle) w
                     | None \<Rightarrow> rebind_call i t new_owner w)
               else rebind_call i t new_owner w))"

definition answer :: "nat \<Rightarrow> task \<Rightarrow> mcp_result \<Rightarrow> registry \<Rightarrow> registry" where
  "answer i t result w =
     (case t_at t of
        Releasing handle \<Rightarrow>
          (let w1 = upstream_unsubscribed (t_uri t) handle w
           in case t_kind t of
                SubscribeTransition _ _ up \<Rightarrow> subscribe_call i t up w1
              | DrainTransition _ _ \<Rightarrow> finish_drain i t w1
              | RebindTransition _ _ _ new_owner _ \<Rightarrow>
                  if isl result then rebind_failed i t w1 else rebind_call i t new_owner w1)
      | Calling up \<Rightarrow>
          (case result of
             Inr _ \<Rightarrow> goto_progress i (Confirming up) (upstream_subscribed (t_uri t) up w)
           | Inl error \<Rightarrow>
               (let w1 = upstream_unsubscribed (t_uri t) up w
                in case t_kind t of
                     RebindTransition _ _ _ _ _ \<Rightarrow> rebind_failed i t w1
                   | _ \<Rightarrow> finish_task i (Inl error) (remove_if_current t w1)))
      | _ \<Rightarrow> w)"

definition confirmed_entry :: "string \<Rightarrow> u64 \<Rightarrow> sub_entry \<Rightarrow> sub_entry" where
  "confirmed_entry owner connection e =
     e \<lparr>owner_server_id := Some owner, owner_connection_generation := Some connection,
       entry_state := (if is_pending (entry_state e) then Active else entry_state e)\<rparr>"

fun new_owner_id :: "transition \<Rightarrow> string" where
  "new_owner_id (SubscribeTransition owner _ _) = owner"
| "new_owner_id (RebindTransition _ _ new_server_id _ _) = new_server_id"
| "new_owner_id (DrainTransition _ _) = []"

text \<open>After a subscribe that succeeded, the entry's guard is taken again and the owner recorded.\<close>

definition confirm :: "nat \<Rightarrow> task \<Rightarrow> registry \<Rightarrow> registry" where
  "confirm i t w =
     (case t_at t of
        Confirming up \<Rightarrow>
          (case current_entry t w of
             None \<Rightarrow> finish_task i (Inr ()) w
           | Some e \<Rightarrow>
               (let w1 = put_entry (t_uri t) (confirmed_entry (new_owner_id (t_kind t)) (connection_generation up w) e) w;
                    w2 = (case t_kind t of
                            SubscribeTransition owner _ _ \<Rightarrow>
                              if post_confirm_hook_set w then w1 \<lparr>hook_calls := hook_calls w1 @ [(t_uri t, owner)]\<rparr> else w1
                          | _ \<Rightarrow> w1)
                in finish_task i (Inr ()) w2))
      | _ \<Rightarrow> w)"

definition lock_free :: "string \<Rightarrow> registry \<Rightarrow> bool" where
  "lock_free uri w \<longleftrightarrow> list_all (\<lambda>t. t_uri t = uri \<longrightarrow> t_at t = Waiting) (transitions w)"

text \<open>One move of task \<open>i\<close>; the result is what the upstream answers when a call is in flight.\<close>

definition move :: "nat \<Rightarrow> mcp_result \<Rightarrow> registry \<Rightarrow> registry" where
  "move i result w =
     (let t = transitions w ! i
      in case t_at t of
           Waiting \<Rightarrow> acquire i t w
         | Confirming _ \<Rightarrow> confirm i t w
         | _ \<Rightarrow> answer i t result w)"

definition can_move :: "nat \<Rightarrow> registry \<Rightarrow> bool" where
  "can_move i w \<longleftrightarrow>
     i < length (transitions w) \<and>
     (t_at (transitions w ! i) = Waiting \<longrightarrow> lock_free (t_uri (transitions w ! i)) w)"

end
