(* ===== verification/Subscription_Runs.thy ===== *)
theory Subscription_Runs
  imports Subscriptions
begin

section \<open>Runs of the subscription registry\<close>

text \<open>
  The calls of any number of clients, the route refreshes and the detached tasks interleave freely, and servers
  connect, disconnect and replace their sessions at any time. \<open>order\<close> restricts which task may take a
  lock that is free: the code spawns the tasks on a multi-threaded runtime, so any of those that wait may come
  first (\<open>any_order\<close>); \<open>in_order\<close> is the schedule in which they come in the order they were created.
\<close>

fun is_drain :: "transition \<Rightarrow> bool" where
  "is_drain (DrainTransition _ _) = True"
| "is_drain _ = False"

definition any_order :: "nat \<Rightarrow> registry \<Rightarrow> bool" where
  "any_order i w = True"

definition in_order :: "nat \<Rightarrow> registry \<Rightarrow> bool" where
  "in_order i w \<longleftrightarrow> list_all (\<lambda>t. t_uri t \<noteq> t_uri (transitions w ! i)) (take i (transitions w))"

definition names :: "upstream \<Rightarrow> string \<Rightarrow> registry \<Rightarrow> bool" where
  "names up s w \<longleftrightarrow> up < length (objects w) \<and> fst (objects w ! up) = s"

inductive registry_step :: "(nat \<Rightarrow> registry \<Rightarrow> bool) \<Rightarrow> registry \<Rightarrow> registry \<Rightarrow> bool" for order where
  Subscribe: "names up owner w \<Longrightarrow> registry_step order w (snd (subscribe uri target owner up w))"
| Leave: "registry_step order w (leave origin uri target up w)"
| PruneRoute: "registry_step order w (snd (prune uri server_id up w))"
| Migrate: "(\<And>up. new_owner = Inr up \<Longrightarrow> names up new_server_id w) \<Longrightarrow>
    registry_step order w (snd (migrate uri old_server_id old_up new_server_id new_owner release w))"
| Move: "can_move i w \<Longrightarrow> (t_at (transitions w ! i) = Waiting \<Longrightarrow> order i w) \<Longrightarrow> registry_step order w (move i result w)"
| Connect: "registry_step order w
    (w \<lparr>objects := objects w @ [(s, g)], manager := hinsert s (length (objects w)) (manager w)\<rparr>)"
| Disconnect: "registry_step order w (w \<lparr>manager := hremove s (manager w)\<rparr>)"
| Replace: "up < length (objects w) \<Longrightarrow>
    registry_step order w (w \<lparr>objects := (objects w) [up := (fst (objects w ! up), g)]\<rparr>)"

inductive reachable :: "(nat \<Rightarrow> registry \<Rightarrow> bool) \<Rightarrow> registry \<Rightarrow> bool" for order where
  Start: "reachable order (registry_new \<lparr>owner_resolver_set := r, post_confirm_hook_set := h\<rparr>)"
| Step: "reachable order w \<Longrightarrow> registry_step order w w' \<Longrightarrow> reachable order w'"

subsection \<open>Channels\<close>

text \<open>A channel is open exactly as long as its task runs, and no two tasks share one.\<close>

definition channels_ok :: "mcp_result option list \<Rightarrow> task list \<Rightarrow> bool" where
  "channels_ok sig ts \<longleftrightarrow>
     distinct (map t_tx ts) \<and> (\<forall>ch. ch \<in> t_tx ` set ts \<longleftrightarrow> ch < length sig \<and> sig ! ch = None)"

lemma channels_ok_spawn:
  "channels_ok sig ts \<Longrightarrow> t_tx t = length sig \<Longrightarrow> channels_ok (sig @ [None]) (ts @ [t])"
  unfolding channels_ok_def by (auto simp: nth_append less_Suc_eq)

lemma channels_ok_goto:
  assumes "channels_ok sig ts"
  shows "channels_ok sig (ts [i := (ts ! i) \<lparr>t_at := p\<rparr>])"
proof -
  have "map t_tx (ts [i := (ts ! i) \<lparr>t_at := p\<rparr>]) = map t_tx ts"
    by (cases "i < length ts") (simp_all add: map_update list_update_same_conv list_update_beyond)
  with assms show ?thesis unfolding channels_ok_def by (metis set_map)
qed

lemma set_drop_nth: "i < length ts \<Longrightarrow> set ts = insert (ts ! i) (set (take i ts @ drop (Suc i) ts))"
  using id_take_nth_drop [of i ts] by (metis list.set(2) set_append Un_insert_right)

lemma channels_ok_finish:
  assumes "channels_ok sig ts" "i < length ts"
  shows "channels_ok (sig [t_tx (ts ! i) := Some r]) (take i ts @ drop (Suc i) ts)"
proof -
  let ?rest = "take i ts @ drop (Suc i) ts"
  have ts: "ts = take i ts @ ts ! i # drop (Suc i) ts" by (rule id_take_nth_drop [OF assms(2)])
  have "distinct (map t_tx (take i ts @ ts ! i # drop (Suc i) ts))" using assms(1) ts by (metis channels_ok_def)
  then have d: "distinct (map t_tx ?rest)" "t_tx (ts ! i) \<notin> t_tx ` set ?rest" by auto
  have "t_tx ` set ?rest = t_tx ` set ts - {t_tx (ts ! i)}"
    using d(2) set_drop_nth [OF assms(2)] by auto
  moreover have "sig [x := Some r] ! ch = None \<longleftrightarrow> ch \<noteq> x \<and> sig ! ch = None" if "ch < length sig" for x ch
    using that by (cases "ch = x") simp_all
  ultimately show ?thesis using assms(1) d(1) unfolding channels_ok_def by auto
qed

subsection \<open>Entries and their tasks\<close>

definition core :: "task \<Rightarrow> u64 \<times> transition \<times> channel" where
  "core t = (t_generation t, t_kind t, t_tx t)"

text \<open>The newest task of a resource.\<close>

definition last_core :: "string \<Rightarrow> task list \<Rightarrow> (u64 \<times> transition \<times> channel) option" where
  "last_core u ts = (case filter (\<lambda>t. t_uri t = u) (rev ts) of [] \<Rightarrow> None | t # _ \<Rightarrow> Some (core t))"

definition drained_by :: "string \<Rightarrow> u64 \<Rightarrow> task list \<Rightarrow> bool" where
  "drained_by u g ts \<longleftrightarrow> (\<exists>t \<in> set ts. t_uri t = u \<and> t_generation t = g \<and> is_drain (t_kind t))"

text \<open>
  An entry that waits for a subscribe has the task that decides it as its newest one, an entry that drains has a
  drain on its way, and an entry without clients drains.
\<close>

definition entry_ok :: "task list \<Rightarrow> string \<Rightarrow> sub_entry \<Rightarrow> bool" where
  "entry_ok ts u e \<longleftrightarrow>
     (members e = [] \<longrightarrow> is_draining (entry_state e)) \<and>
     (case entry_state e of
        Active \<Rightarrow> owner_server_id e \<noteq> None \<and> owner_connection_generation e \<noteq> None
      | Pending rx _ \<Rightarrow> (\<exists>k. last_core u ts = Some (generation e, k, rx) \<and> \<not> is_drain k)
      | Draining _ \<Rightarrow> drained_by u (generation e) ts)"

lemma last_core_append: "last_core u (ts @ [t]) = (if t_uri t = u then Some (core t) else last_core u ts)"
  by (simp add: last_core_def)

lemma drained_by_append: "drained_by u g (ts @ [t]) \<longleftrightarrow> drained_by u g ts \<or> t_uri t = u \<and> t_generation t = g \<and> is_drain (t_kind t)"
  by (auto simp: drained_by_def)

lemma entry_ok_spawn_other: "t_uri t \<noteq> u \<Longrightarrow> entry_ok ts u e \<Longrightarrow> entry_ok (ts @ [t]) u e"
  by (auto simp: entry_ok_def last_core_append drained_by_append split: entry_state.splits)

lemma goto_parts:
  assumes "i < length ts"
  shows "\<exists>as bs. ts = as @ ts ! i # bs \<and> ts [i := t] = as @ t # bs"
  using assms by (metis id_take_nth_drop upd_conv_take_nth_drop)

lemma hd_append_cong: "core x = core y \<Longrightarrow> (case xs @ x # ys of [] \<Rightarrow> None | t # _ \<Rightarrow> Some (core t)) = (case xs @ y # ys of [] \<Rightarrow> None | t # _ \<Rightarrow> Some (core t))"
  by (cases xs) simp_all

lemma entry_ok_goto:
  assumes "entry_ok ts u e"
  shows "entry_ok (ts [i := (ts ! i) \<lparr>t_at := p\<rparr>]) u e"
proof (cases "i < length ts")
  case True
  obtain as bs where p: "ts = as @ ts ! i # bs" "ts [i := (ts ! i) \<lparr>t_at := p\<rparr>] = as @ (ts ! i) \<lparr>t_at := p\<rparr> # bs"
    using goto_parts [OF True] by blast
  define x where "x = ts ! i"
  have "last_core u (as @ x \<lparr>t_at := p\<rparr> # bs) = last_core u (as @ x # bs)"
    using hd_append_cong [of "x \<lparr>t_at := p\<rparr>" x] by (simp add: last_core_def core_def)
  moreover have "drained_by u g (as @ x \<lparr>t_at := p\<rparr> # bs) = drained_by u g (as @ x # bs)" for g
    by (auto simp: drained_by_def)
  ultimately have "entry_ok (as @ x \<lparr>t_at := p\<rparr> # bs) u e = entry_ok (as @ x # bs) u e"
    by (simp add: entry_ok_def split: entry_state.split)
  with assms p show ?thesis unfolding x_def by metis
qed (use assms in \<open>simp add: list_update_beyond\<close>)

text \<open>When a task ends, the entries that do not depend on it stay as they were.\<close>

lemma last_core_finish:
  assumes "i < length ts"
  shows "last_core u (take i ts @ drop (Suc i) ts) = last_core u ts \<or>
    t_uri (ts ! i) = u \<and> last_core u ts = Some (core (ts ! i))"
proof -
  obtain as bs where p: "ts = as @ ts ! i # bs" and r: "take i ts @ drop (Suc i) ts = as @ bs"
    using id_take_nth_drop [OF assms] by blast
  define x where "x = ts ! i"
  have "last_core u (as @ bs) = last_core u (as @ x # bs) \<or> t_uri x = u \<and> last_core u (as @ x # bs) = Some (core x)"
    by (cases "filter (\<lambda>t. t_uri t = u) (rev bs)") (auto simp: last_core_def)
  then show ?thesis using p r unfolding x_def by metis
qed

lemma drained_by_finish:
  assumes "i < length ts" "drained_by u g ts" "\<not> (t_uri (ts ! i) = u \<and> t_generation (ts ! i) = g \<and> is_drain (t_kind (ts ! i)))"
  shows "drained_by u g (take i ts @ drop (Suc i) ts)"
  using assms(2,3) set_drop_nth [OF assms(1)] unfolding drained_by_def by (metis insertE)

lemma entry_ok_finish:
  assumes "entry_ok ts u e" "i < length ts"
    and "t_uri (ts ! i) = u \<Longrightarrow>
      generation e \<noteq> t_generation (ts ! i) \<or> entry_state e = Active \<or> is_draining (entry_state e) \<and> \<not> is_drain (t_kind (ts ! i))"
  shows "entry_ok (take i ts @ drop (Suc i) ts) u e"
proof (cases "entry_state e")
  case (Pending rx s)
  then obtain k where k: "last_core u ts = Some (generation e, k, rx)" "\<not> is_drain k" using assms(1) by (auto simp: entry_ok_def)
  have "last_core u (take i ts @ drop (Suc i) ts) = last_core u ts"
    using last_core_finish [OF assms(2), of u] assms(3) k(1) Pending by (auto simp: core_def)
  then show ?thesis using assms(1) Pending k by (simp add: entry_ok_def)
next
  case (Draining s)
  then have "drained_by u (generation e) (take i ts @ drop (Suc i) ts)"
    using assms by (intro drained_by_finish) (auto simp: entry_ok_def)
  then show ?thesis using assms(1) Draining by (simp add: entry_ok_def)
qed (use assms(1) in \<open>simp add: entry_ok_def\<close>)

definition entries_ok :: "(string, sub_entry) hmap \<Rightarrow> task list \<Rightarrow> bool" where
  "entries_ok es ts \<longleftrightarrow> (\<forall>u e. hget es u = Some e \<longrightarrow> entry_ok ts u e)"

lemma entries_ok_put: "entries_ok es ts \<Longrightarrow> entry_ok ts u e \<Longrightarrow> entries_ok (hinsert u e es) ts"
  by (auto simp: entries_ok_def hm.get_ins)

lemma entries_ok_spawn:
  assumes "entries_ok es ts" "t_uri t = u" "t_generation t = generation e"
    "is_draining (entry_state e) \<and> is_drain (t_kind t) \<or>
     members e \<noteq> [] \<and> \<not> is_drain (t_kind t) \<and> (\<exists>s. entry_state e = Pending (t_tx t) s)"
  shows "entries_ok (hinsert u e es) (ts @ [t])"
proof -
  have "entry_ok (ts @ [t]) u e"
    using assms(2-4) by (cases "entry_state e") (auto simp: entry_ok_def last_core_append drained_by_append core_def)
  then show ?thesis
    using assms(1,2) by (auto simp: entries_ok_def hm.get_ins intro: entry_ok_spawn_other)
qed

lemma entries_ok_finish:
  assumes "entries_ok es ts" "i < length ts" "t_uri (ts ! i) = u"
    "\<And>e. hget es u = Some e \<Longrightarrow>
       generation e \<noteq> t_generation (ts ! i) \<or> entry_state e = Active \<or> is_draining (entry_state e) \<and> \<not> is_drain (t_kind (ts ! i))"
  shows "entries_ok es (take i ts @ drop (Suc i) ts)"
  using assms unfolding entries_ok_def by (metis entry_ok_finish)

subsection \<open>The invariant\<close>

text \<open>Only transitions that subscribe get as far as the subscribe call.\<close>

definition progress_ok :: "task list \<Rightarrow> bool" where
  "progress_ok ts \<longleftrightarrow> list_all (\<lambda>t. case t_at t of Calling _ \<Rightarrow> \<not> is_drain (t_kind t) | Confirming _ \<Rightarrow> \<not> is_drain (t_kind t) | _ \<Rightarrow> True) ts"

definition registry_ok :: "registry \<Rightarrow> bool" where
  "registry_ok w \<longleftrightarrow>
     channels_ok (signals w) (transitions w) \<and> entries_ok (sub_entries w) (transitions w) \<and> progress_ok (transitions w)"

lemma spawn_ok [inv_steps]:
  assumes "registry_ok w" "generation e = g"
    "is_draining (entry_state e) \<and> is_drain k \<or>
     members e \<noteq> [] \<and> \<not> is_drain k \<and> (\<exists>s. entry_state e = Pending (length (signals w)) s)"
  shows "registry_ok (spawn_task uri g k (put_entry uri e w))"
    "registry_ok (spawn_task uri g k (put_entry uri e (w \<lparr>next_generation := n\<rparr>)))"
  using assms
  by (auto simp: registry_ok_def spawn_task_def put_entry_def progress_ok_def intro!: channels_ok_spawn entries_ok_spawn)

lemma put_ok [inv_steps]: "registry_ok w \<Longrightarrow> entry_ok (transitions w) uri e \<Longrightarrow> registry_ok (put_entry uri e w)"
  by (simp add: registry_ok_def put_entry_def entries_ok_put)

lemma entry_ok_members: "entry_ok ts u e \<Longrightarrow> (ms = [] \<Longrightarrow> is_draining (entry_state e)) \<Longrightarrow> entry_ok ts u (e \<lparr>members := ms\<rparr>)"
  by (simp add: entry_ok_def split: entry_state.splits)

lemma registry_entry: "registry_ok w \<Longrightarrow> hget (sub_entries w) uri = Some e \<Longrightarrow> entry_ok (transitions w) uri e"
  by (simp add: registry_ok_def entries_ok_def)

lemma start_subscribe_ok [inv_steps]:
  "registry_ok w \<Longrightarrow> ms \<noteq> [] \<Longrightarrow> registry_ok (snd (start_subscribe uri ms owner displaced up w))"
  unfolding start_subscribe_def Let_def snd_conv by (rule spawn_ok) auto

lemma insert_not_Nil [simp]: "List.insert x xs \<noteq> []"
  by (simp add: List.insert_def) auto

lemma subscribe_ok [inv_steps]: "registry_ok w \<Longrightarrow> registry_ok (snd (subscribe uri target owner up w))"
  by (auto simp: subscribe_def Let_def intro!: start_subscribe_ok put_ok entry_ok_members
      dest: registry_entry split: option.split entry_state.split)

lemma leave_ok [inv_steps]: "registry_ok w \<Longrightarrow> registry_ok (leave origin uri target up w)"
  by (auto simp: leave_def Let_def intro!: spawn_ok put_ok entry_ok_members dest: registry_entry split: option.split)

lemma prune_ok [inv_steps]: "registry_ok w \<Longrightarrow> registry_ok (snd (prune uri server_id up w))"
  by (auto simp: prune_def intro!: spawn_ok split: option.split)

lemma migrate_ok [inv_steps]:
  "registry_ok w \<Longrightarrow> registry_ok (snd (migrate uri old_server_id old_up new_server_id new_owner release w))"
  by (auto simp: migrate_def Let_def intro!: spawn_ok split: option.split)

subsection \<open>Moves of tasks\<close>

lemma goto_ok:
  assumes "registry_ok w" "i < length (transitions w)"
    "\<And>up. p = Calling up \<or> p = Confirming up \<Longrightarrow> \<not> is_drain (t_kind (transitions w ! i))"
  shows "registry_ok (goto_progress i p w)"
proof -
  have "progress_ok ((transitions w) [i := (transitions w ! i) \<lparr>t_at := p\<rparr>])"
    using assms by (auto simp: progress_ok_def registry_ok_def list_all_iff dest!: set_update_subset_insert [THEN subsetD] split: progress.split)
  then show ?thesis
    using assms(1) by (simp add: registry_ok_def goto_progress_def channels_ok_goto entries_ok_def entry_ok_goto)
qed

lemma finish_ok:
  assumes "registry_ok w" "i < length (transitions w)" "t = transitions w ! i"
    "\<And>e. hget (sub_entries w) (t_uri t) = Some e \<Longrightarrow>
       generation e \<noteq> t_generation t \<or> entry_state e = Active \<or> is_draining (entry_state e) \<and> \<not> is_drain (t_kind t)"
  shows "registry_ok (finish_task i r w)"
proof -
  have "progress_ok (take i (transitions w) @ drop (Suc i) (transitions w))"
    using assms(1) set_drop_nth [OF assms(2)] by (auto simp: progress_ok_def registry_ok_def list_all_iff)
  moreover have "entries_ok (sub_entries w) (take i (transitions w) @ drop (Suc i) (transitions w))"
    using assms by (intro entries_ok_finish [where u = "t_uri t"]) (auto simp: registry_ok_def)
  ultimately show ?thesis
    using assms(1,2) by (simp add: registry_ok_def finish_task_def channels_ok_finish)
qed

lemma current_None: "current_entry t w = None \<Longrightarrow> hget (sub_entries w) (t_uri t) = Some e \<Longrightarrow> generation e \<noteq> t_generation t"
  by (auto simp: current_entry_def split: if_splits)

lemma current_Some: "current_entry t w = Some e \<longleftrightarrow> hget (sub_entries w) (t_uri t) = Some e \<and> generation e = t_generation t"
  by (auto simp: current_entry_def split: option.splits if_splits)

lemma remove_ok:
  assumes "registry_ok w"
  shows "registry_ok (remove_if_current t w)" "current_entry t (remove_if_current t w) = None"
    "transitions (remove_if_current t w) = transitions w"
  using assms
  by (auto simp: remove_if_current_def registry_ok_def entries_ok_def current_entry_def hm.get_del split: option.splits if_splits)

lemma finish_stale_ok:
  "registry_ok w \<Longrightarrow> i < length (transitions w) \<Longrightarrow> current_entry (transitions w ! i) w = None \<Longrightarrow> registry_ok (finish_task i r w)"
  using current_None by (intro finish_ok) auto

lemma finish_removed_ok:
  "registry_ok w \<Longrightarrow> i < length (transitions w) \<Longrightarrow>
     registry_ok (finish_task i r (remove_if_current (transitions w ! i) w))"
  by (rule finish_stale_ok) (simp_all add: remove_ok)

text \<open>What the answers leave of the entries and tasks: all of them.\<close>

lemma upstream_frame [simp]:
  "registry_ok (upstream_unsubscribed uri up w) = registry_ok w" "registry_ok (upstream_subscribed uri up w) = registry_ok w"
  "transitions (upstream_unsubscribed uri up w) = transitions w" "transitions (upstream_subscribed uri up w) = transitions w"
  "current_entry t (upstream_unsubscribed uri up w) = current_entry t w" "sub_entries (upstream_unsubscribed uri up w) = sub_entries w"
  "sub_entries (upstream_subscribed uri up w) = sub_entries w" "signals (upstream_unsubscribed uri up w) = signals w"
  "signals (upstream_subscribed uri up w) = signals w" "objects (upstream_unsubscribed uri up w) = objects w"
  "objects (upstream_subscribed uri up w) = objects w" "next_generation (upstream_unsubscribed uri up w) = next_generation w"
  "next_generation (upstream_subscribed uri up w) = next_generation w"
  by (simp_all add: upstream_unsubscribed_def upstream_subscribed_def Let_def registry_ok_def current_entry_def)

lemma calls_ok:
  assumes "registry_ok w" "i < length (transitions w)" "t = transitions w ! i"
  shows "\<not> is_drain (t_kind t) \<Longrightarrow> registry_ok (subscribe_call i t up w)" "registry_ok (finish_drain i t w)"
    "registry_ok (rebind_failed i t w)" "\<not> is_drain (t_kind t) \<Longrightarrow> registry_ok (rebind_call i t new_owner w)"
  using assms
  by (auto simp: subscribe_call_def finish_drain_def rebind_failed_def rebind_call_def
      intro!: finish_stale_ok finish_removed_ok goto_ok split: sum.split)

lemma acquire_ok:
  "registry_ok w \<Longrightarrow> i < length (transitions w) \<Longrightarrow> registry_ok (acquire i (transitions w ! i) w)"
  by (auto simp: acquire_def intro!: finish_stale_ok calls_ok goto_ok split: transition.split option.split)

lemma answer_ok:
  assumes "registry_ok w" "i < length (transitions w)"
  shows "registry_ok (answer i (transitions w ! i) result w)"
proof -
  have "case t_at (transitions w ! i) of Calling _ \<Rightarrow> \<not> is_drain (t_kind (transitions w ! i)) | _ \<Rightarrow> True"
    using assms by (auto simp: registry_ok_def progress_ok_def list_all_length split: progress.splits)
  then show ?thesis
    using assms finish_removed_ok [of "upstream_unsubscribed (t_uri (transitions w ! i)) up w" i for up]
    by (auto simp: answer_def Let_def intro!: calls_ok goto_ok split: progress.splits transition.split sum.split)
qed

lemma confirmed_entry_ok:
  "entry_ok ts u e \<Longrightarrow> entry_ok ts u (confirmed_entry owner c e)"
  by (auto simp: entry_ok_def confirmed_entry_def split: entry_state.splits)

lemma hook_ok [simp]: "registry_ok (w \<lparr>hook_calls := hs\<rparr>) = registry_ok w"
  by (simp add: registry_ok_def)

lemma confirm_ok:
  assumes "registry_ok w" "i < length (transitions w)"
  shows "registry_ok (confirm i (transitions w ! i) w)"
proof (cases "t_at (transitions w ! i)")
  case (Confirming up)
  let ?t = "transitions w ! i"
  have nd: "\<not> is_drain (t_kind ?t)"
    using assms Confirming by (auto simp: registry_ok_def progress_ok_def list_all_length split: progress.splits)
  show ?thesis
  proof (cases "current_entry ?t w")
    case None
    then show ?thesis using assms Confirming by (simp add: confirm_def finish_stale_ok)
  next
    case (Some e)
    let ?e = "confirmed_entry (new_owner_id (t_kind ?t)) (connection_generation up w) e"
    have e: "entry_ok (transitions w) (t_uri ?t) e" using Some assms(1) by (simp add: current_Some registry_entry)
    have st: "entry_state ?e = Active \<or> is_draining (entry_state ?e)"
      by (cases "entry_state e") (simp_all add: confirmed_entry_def)
    have "registry_ok (finish_task i (Inr ()) w2)"
      if "w2 = put_entry (t_uri ?t) ?e w \<lparr>hook_calls := hs\<rparr>" for w2 hs
      using assms put_ok [OF assms(1) confirmed_entry_ok [OF e]] st nd that
      by (intro finish_ok [where t = ?t]) (auto simp: put_entry_def hm.get_ins)
    from this [OF refl, of "hook_calls w"] this [OF refl, of "hook_calls w @ [(t_uri ?t, owner)]" for owner]
    show ?thesis using Some Confirming by (auto simp: confirm_def Let_def put_entry_def split: transition.split)
  qed
qed (use assms in \<open>simp_all add: confirm_def\<close>)

lemma move_ok [inv_steps]: "registry_ok w \<Longrightarrow> i < length (transitions w) \<Longrightarrow> registry_ok (move i result w)"
  by (simp add: move_def Let_def acquire_ok answer_ok confirm_ok split: progress.split)

lemma step_ok: "registry_step order w w' \<Longrightarrow> registry_ok w \<Longrightarrow> registry_ok w'"
  by (induction rule: registry_step.induct) (simp_all add: inv_steps can_move_def, simp_all add: registry_ok_def)

interpretation reg: step_system "registry_step order" registry_ok for order
  by unfold_locales (rule step_ok)

lemma reachable_ok: "reachable order w \<Longrightarrow> registry_ok w"
proof (induction rule: reachable.induct)
  case (Start r h)
  then show ?case by (simp add: registry_ok_def registry_new_def channels_ok_def entries_ok_def progress_ok_def)
next
  case (Step w w')
  then show ?case by (simp add: step_ok)
qed

end
