(* ===== verification/Subscription_Safety.thy ===== *)
theory Subscription_Safety
  imports Subscription_Runs
begin

section \<open>What the subscription registry guarantees\<close>

text \<open>
  Under any schedule every caller that waits is answered and, once all tasks have ended, the entries that remain are
  confirmed and have clients. When tasks take the lock of a resource in the order they were created, a
  confirmed entry is backed by its owner. The last part shows what the code does not guarantee.
\<close>

subsection \<open>Every caller is answered\<close>

fun remaining :: "progress \<Rightarrow> nat" where
  "remaining Waiting = 4"
| "remaining (Releasing _) = 3"
| "remaining (Calling _) = 2"
| "remaining (Confirming _) = 1"

definition work :: "registry \<Rightarrow> nat" where
  "work w = sum_list (map (\<lambda>t. remaining (t_at t)) (transitions w))"

lemma remaining_bounds: "0 < remaining p" "remaining p \<le> 4"
  by (cases p; simp)+

lemma work_le: "work w \<le> 4 * length (transitions w)"
  using sum_list_mono [of "transitions w" "\<lambda>t. remaining (t_at t)" "\<lambda>_. 4"] remaining_bounds(2)
  by (simp add: work_def sum_list_triv mult.commute)

lemma work_split:
  assumes "i < length (transitions w)"
  shows "work w = remaining (t_at (transitions w ! i)) +
    sum_list (map (\<lambda>t. remaining (t_at t)) (take i (transitions w) @ drop (Suc i) (transitions w)))"
  unfolding work_def by (subst id_take_nth_drop [OF assms]) simp

lemma work_goto:
  assumes "i < length (transitions w)" "remaining p < remaining (t_at (transitions w ! i))"
  shows "work (goto_progress i p w) < work w"
  using assms by (simp add: work_split [OF assms(1)]) (simp add: work_def goto_progress_def upd_conv_take_nth_drop)

lemma work_finish: "i < length (transitions w) \<Longrightarrow> work (finish_task i r w) < work w"
  using remaining_bounds(1) by (simp add: work_split) (simp add: work_def finish_task_def)

lemma work_cong: "transitions w' = transitions w \<Longrightarrow> work w' = work w"
  by (simp add: work_def)

lemma transitions_frame [simp]:
  "transitions (remove_if_current t w) = transitions w" "transitions (put_entry uri e w) = transitions w"
  by (simp_all add: remove_if_current_def put_entry_def)

lemma work_frame [simp]:
  "work (remove_if_current t w) = work w" "work (upstream_unsubscribed uri up w) = work w"
  "work (upstream_subscribed uri up w) = work w" "work (put_entry uri e w) = work w" "work (w \<lparr>hook_calls := hs\<rparr>) = work w"
  by (simp_all add: work_def)

lemma work_calls:
  assumes "i < length (transitions w)" "2 < remaining (t_at (transitions w ! i))"
  shows "work (subscribe_call i t up w) < work w" "work (finish_drain i t w) < work w"
    "work (rebind_failed i t w) < work w" "work (rebind_call i t new_owner w) < work w"
  using assms work_goto [OF assms(1)] work_finish [OF assms(1)] work_finish [of i "remove_if_current t w"]
  by (auto simp: subscribe_call_def finish_drain_def rebind_failed_def rebind_call_def split: sum.split)

lemma work_move:
  assumes "can_move i w"
  shows "work (move i result w) < work w"
proof -
  let ?t = "transitions w ! i"
  have i: "i < length (transitions w)" using assms by (simp add: can_move_def)
  have fin: "work (finish_task i r w') < work w" if "transitions w' = transitions w" for r w'
    using work_finish [of i w' r] i that work_cong [OF that] by simp
  show ?thesis
  proof (cases "t_at ?t")
    case Waiting
    then show ?thesis
      using work_goto [OF i] work_finish [OF i] work_calls [OF i]
      by (auto simp: move_def acquire_def Let_def split: transition.split option.split)
  next
    case (Releasing up)
    then show ?thesis
      using work_calls [of i "upstream_unsubscribed (t_uri ?t) up w"] i
      by (auto simp: move_def answer_def Let_def split: transition.split)
  next
    case (Calling up)
    then show ?thesis
      using work_goto [of i "upstream_subscribed (t_uri ?t) up w"] fin i
      by (auto simp: move_def answer_def Let_def rebind_failed_def split: transition.split sum.split)
  next
    case (Confirming up)
    then show ?thesis
      using fin by (auto simp: move_def confirm_def Let_def split: transition.split option.split)
  qed
qed

lemma can_move_exists:
  assumes "transitions w \<noteq> []"
  shows "\<exists>i. can_move i w"
proof (cases "\<exists>i < length (transitions w). t_at (transitions w ! i) \<noteq> Waiting")
  case False
  then have "can_move 0 w" using assms by (auto simp: can_move_def lock_free_def list_all_length)
  then show ?thesis by blast
qed (auto simp: can_move_def)

text \<open>Tasks moved one after another, in any order that the locks allow, with what the upstreams answer.\<close>

fun run_moves :: "(nat \<times> mcp_result) list \<Rightarrow> registry \<Rightarrow> registry option" where
  "run_moves [] w = Some w"
| "run_moves ((i, result) # ms) w = (if can_move i w then run_moves ms (move i result w) else None)"

lemma run_moves_ok:
  "registry_ok w \<Longrightarrow> run_moves ms w = Some w' \<Longrightarrow> registry_ok w' \<and> length ms + work w' \<le> work w"
proof (induction ms arbitrary: w)
  case (Cons m ms)
  obtain i r where m: "m = (i, r)" by fastforce
  with Cons.prems have c: "can_move i w" "run_moves ms (move i r w) = Some w'" by (simp_all split: if_splits)
  have "registry_ok (move i r w)" using Cons.prems(1) c(1) by (simp add: move_ok can_move_def)
  from Cons.IH [OF this c(2)] work_move [OF c(1), of r] show ?case by simp
qed simp

lemma ok_settled:
  assumes "registry_ok w" "transitions w = []"
  shows "None \<notin> set (signals w) \<and>
    (\<forall>uri e. hget (sub_entries w) uri = Some e \<longrightarrow> entry_state e = Active \<and> members e \<noteq> [] \<and> owner_server_id e \<noteq> None)"
proof -
  have "entry_state e = Active \<and> members e \<noteq> [] \<and> owner_server_id e \<noteq> None" if "hget (sub_entries w) uri = Some e" for uri e
    using registry_entry [OF assms(1) that] assms(2)
    by (auto simp: entry_ok_def last_core_def drained_by_def split: entry_state.splits)
  then show ?thesis using assms by (auto simp: registry_ok_def channels_ok_def in_set_conv_nth)
qed

text \<open>
  C11. Every call that waits for a transition is answered, whatever the upstreams answer and in whatever order the tasks
  get their locks: a task that has not ended can always move or waits for one that can, all tasks together
  make at most four moves each, and when none is left every channel carries a result, and each entry is
  confirmed, has an owner, and has at least one client.
\<close>

theorem transitions_settle:
  assumes "reachable order w" "run_moves ms w = Some w'"
  shows "length ms \<le> 4 * length (transitions w) \<and>
    (if transitions w' = []
     then None \<notin> set (signals w') \<and>
       (\<forall>uri e. hget (sub_entries w') uri = Some e \<longrightarrow> entry_state e = Active \<and> members e \<noteq> [] \<and> owner_server_id e \<noteq> None)
     else \<exists>i. can_move i w')"
proof -
  from run_moves_ok [OF reachable_ok [OF assms(1)] assms(2)] have "registry_ok w'" "length ms \<le> work w" by simp_all
  then show ?thesis using work_le [of w] ok_settled [of w'] can_move_exists [of w'] by auto
qed

subsection \<open>Confirmed entries are backed\<close>

text \<open>
  What the tasks and entries satisfy when the locks are taken in order and the generations have not wrapped: a task that
  runs is the oldest of its resource, generations are fresh, and a confirmed entry has no task at all.
\<close>

definition oldest_run :: "task list \<Rightarrow> bool" where
  "oldest_run ts \<longleftrightarrow>
     (\<forall>i < length ts. t_at (ts ! i) \<noteq> Waiting \<longrightarrow> list_all (\<lambda>t. t_uri t \<noteq> t_uri (ts ! i)) (take i ts))"

definition generations_ok :: "registry \<Rightarrow> bool" where
  "generations_ok w \<longleftrightarrow>
     unat (next_generation w) \<le> length (signals w) \<and>
     (\<forall>u e. hget (sub_entries w) u = Some e \<longrightarrow> generation e < next_generation w) \<and>
     (\<forall>t \<in> set (transitions w). t_generation t < next_generation w) \<and>
     distinct (map t_generation (filter (\<lambda>t. \<not> is_drain (t_kind t)) (transitions w)))"

fun kind_names :: "transition \<Rightarrow> registry \<Rightarrow> bool" where
  "kind_names (SubscribeTransition owner _ up) w = names up owner w"
| "kind_names (RebindTransition _ _ new_server_id (Inr up) _) w = names up new_server_id w"
| "kind_names _ w = True"

definition task_backed :: "registry \<Rightarrow> task \<Rightarrow> bool" where
  "task_backed w t \<longleftrightarrow>
     kind_names (t_kind t) w \<and>
     (case t_at t of
        Calling up \<Rightarrow> names up (new_owner_id (t_kind t)) w
      | Confirming up \<Rightarrow> names up (new_owner_id (t_kind t)) w \<and> (\<exists>c. (t_uri t, up, c) \<in> set (held w))
      | _ \<Rightarrow> True)"

definition active_ok :: "registry \<Rightarrow> string \<Rightarrow> sub_entry \<Rightarrow> bool" where
  "active_ok w u e \<longleftrightarrow>
     (entry_state e = Active \<longrightarrow> list_all (\<lambda>t. t_uri t \<noteq> u) (transitions w) \<and>
        (\<exists>owner up c. owner_server_id e = Some owner \<and> names up owner w \<and> (u, up, c) \<in> set (held w)))"

definition ordered_ok :: "registry \<Rightarrow> bool" where
  "ordered_ok w \<longleftrightarrow>
     oldest_run (transitions w) \<and> generations_ok w \<and> list_all (task_backed w) (transitions w) \<and>
     (\<forall>u e. hget (sub_entries w) u = Some e \<longrightarrow> active_ok w u e)"

lemma oldest_run_append: "oldest_run ts \<Longrightarrow> t_at t = Waiting \<Longrightarrow> oldest_run (ts @ [t])"
  by (auto simp: oldest_run_def nth_append less_Suc_eq)

lemma oldest_run_goto:
  assumes "oldest_run ts" "list_all (\<lambda>t. t_uri t \<noteq> t_uri (ts ! i)) (take i ts)"
  shows "oldest_run (ts [i := (ts ! i) \<lparr>t_at := p\<rparr>])"
proof -
  let ?ts = "ts [i := (ts ! i) \<lparr>t_at := p\<rparr>]"
  have uri: "map t_uri ?ts = map t_uri ts"
    by (cases "i < length ts") (simp_all add: map_update list_update_same_conv list_update_beyond)
  have eq: "list_all (\<lambda>t. t_uri t \<noteq> x) (take j l) \<longleftrightarrow> x \<notin> set (take j (map t_uri l))" for x j l
    by (auto simp: list_all_iff take_map)
  show ?thesis unfolding oldest_run_def
  proof (intro allI impI)
    fix j
    assume j: "j < length ?ts" "t_at (?ts ! j) \<noteq> Waiting"
    have "t_uri (?ts ! j) = t_uri (ts ! j)" using j(1) by (metis length_list_update nth_map uri)
    moreover have "list_all (\<lambda>t. t_uri t \<noteq> t_uri (ts ! j)) (take j ts)"
      using assms j by (cases "j = i") (auto simp: oldest_run_def)
    ultimately show "list_all (\<lambda>t. t_uri t \<noteq> t_uri (?ts ! j)) (take j ?ts)" unfolding eq uri by simp
  qed
qed

lemma oldest_run_finish:
  assumes "oldest_run ts" "i < length ts"
  shows "oldest_run (take i ts @ drop (Suc i) ts)"
proof -
  let ?r = "take i ts @ drop (Suc i) ts"
  have nth: "?r ! j = ts ! (if j < i then j else Suc j)" if "j < length ?r" for j
    using that assms(2) by (auto simp: nth_append min_def)
  have "set (take j ?r) \<subseteq> set (take (if j < i then j else Suc j) ts)" if "j < length ?r" for j
  proof (cases "j < i")
    case False
    then have "take j ?r = take i ts @ drop (Suc i) (take (Suc j) ts)"
      using assms(2) by (simp add: take_drop min_def)
    also have "set \<dots> \<subseteq> set (take (Suc j) ts)"
      using False set_take_subset_set_take [of i "Suc j" ts] set_drop_subset [of "Suc i" "take (Suc j) ts"] by auto
    finally show ?thesis using False by simp
  qed (simp add: min_def)
  note take = this
  show ?thesis unfolding oldest_run_def
  proof (intro allI impI)
    fix j
    assume j: "j < length ?r" "t_at (?r ! j) \<noteq> Waiting"
    define k where "k = (if j < i then j else Suc j)"
    have "k < length ts" using j(1) assms(2) by (auto simp: k_def)
    moreover have r: "?r ! j = ts ! k" "set (take j ?r) \<subseteq> set (take k ts)" using nth [OF j(1)] take [OF j(1)] by (simp_all add: k_def)
    ultimately have "list_all (\<lambda>t. t_uri t \<noteq> t_uri (ts ! k)) (take k ts)" using assms(1) j(2) unfolding oldest_run_def by metis
    then show "list_all (\<lambda>t. t_uri t \<noteq> t_uri (?r ! j)) (take j ?r)" using r by (auto simp only: list_all_iff)
  qed
qed

lemma running_unique:
  assumes "oldest_run ts" "i < length ts" "j < length ts" "t_at (ts ! i) \<noteq> Waiting" "t_at (ts ! j) \<noteq> Waiting"
    "t_uri (ts ! i) = t_uri (ts ! j)"
  shows "i = j"
proof -
  have "\<not> i < j" if "oldest_run ts" "j < length ts" "t_at (ts ! j) \<noteq> Waiting" "t_uri (ts ! i) = t_uri (ts ! j)" for i j
  proof
    assume "i < j"
    then have "ts ! i \<in> set (take j ts)" using that(2) by (metis in_set_conv_nth length_take min.absorb4 nth_take)
    then show False using that by (auto simp: oldest_run_def list_all_iff)
  qed
  from this [of j i] this [of i j] assms show ?thesis by (metis nat_neq_iff)
qed

lemma distinct_filter_index:
  assumes "distinct (map f (filter P ts))" "i < length ts" "j < length ts" "P (ts ! i)" "P (ts ! j)" "f (ts ! i) = f (ts ! j)"
  shows "i = j"
proof -
  have "\<not> i < j" if "distinct (map f (filter P ts))" "j < length ts" "P (ts ! i)" "P (ts ! j)" "f (ts ! i) = f (ts ! j)" for i j
  proof
    assume "i < j"
    then have ts: "ts = take i ts @ ts ! i # drop (Suc i) ts" using that(2) by (simp add: id_take_nth_drop)
    have "drop (Suc i) ts ! (j - Suc i) = ts ! j" "j - Suc i < length (drop (Suc i) ts)"
      using \<open>i < j\<close> that(2) by (auto intro: nth_drop)
    then have "ts ! j \<in> set (drop (Suc i) ts)" by (metis nth_mem)
    moreover have "f (ts ! i) \<notin> f ` set (filter P (drop (Suc i) ts))"
      using that(1,3) by (subst (asm) ts) simp
    ultimately show False using that(4,5) by auto
  qed
  from this [of j i] this [of i j] assms show ?thesis by (metis nat_neq_iff)
qed

lemma last_core_index:
  assumes "last_core u ts = Some c"
  obtains j where "j < length ts" "t_uri (ts ! j) = u" "core (ts ! j) = c" "\<And>t. t \<in> set (drop (Suc j) ts) \<Longrightarrow> t_uri t \<noteq> u"
proof -
  from assms obtain t rest where f: "filter (\<lambda>t. t_uri t = u) (rev ts) = t # rest" "core t = c"
    by (auto simp: last_core_def split: list.splits)
  then obtain as bs where r: "rev ts = as @ t # bs" "\<forall>x \<in> set as. t_uri x \<noteq> u" "t_uri t = u"
    by (auto simp: filter_eq_Cons_iff)
  have "ts = rev (rev ts)" by simp
  also have "\<dots> = rev bs @ t # rev as" by (simp add: r(1))
  finally have ts: "ts = rev bs @ t # rev as" .
  show ?thesis by (rule that [of "length bs"]) (use ts r f in \<open>auto simp: nth_append\<close>)
qed

lemma names_cong [simp]:
  "names up s (w \<lparr>sub_entries := es\<rparr>) = names up s w" "names up s (w \<lparr>signals := sg\<rparr>) = names up s w"
  "names up s (w \<lparr>transitions := ts\<rparr>) = names up s w" "names up s (w \<lparr>held := h\<rparr>) = names up s w"
  "names up s (w \<lparr>next_generation := n\<rparr>) = names up s w" "names up s (w \<lparr>hook_calls := hs\<rparr>) = names up s w"
  by (simp_all add: names_def)

lemma kind_names_mono: "kind_names k w \<Longrightarrow> (\<And>up s. names up s w \<Longrightarrow> names up s w') \<Longrightarrow> kind_names k w'"
  by (cases "(k, w)" rule: kind_names.cases) auto

lemma task_backed_mono:
  assumes "task_backed w t" "\<And>up s. names up s w \<Longrightarrow> names up s w'"
    "\<And>up c. t_at t = Confirming up \<Longrightarrow> (t_uri t, up, c) \<in> set (held w) \<Longrightarrow> \<exists>c'. (t_uri t, up, c') \<in> set (held w')"
  shows "task_backed w' t"
  using assms kind_names_mono [of "t_kind t" w w'] by (fastforce simp: task_backed_def split: progress.splits)

lemma active_ok_mono:
  assumes "active_ok w u e" "\<And>up s. names up s w \<Longrightarrow> names up s w'" "set (transitions w') \<subseteq> set (transitions w)"
    "entry_state e = Active \<Longrightarrow> \<forall>up c. (u, up, c) \<in> set (held w) \<longrightarrow> (u, up, c) \<in> set (held w')"
  shows "active_ok w' u e"
  using assms unfolding active_ok_def list_all_iff by blast

text \<open>A change of the world that the tasks and the confirmed entries do not see.\<close>

lemma ordered_frame:
  assumes "ordered_ok w" "transitions w' = transitions w" "sub_entries w' = sub_entries w" "signals w' = signals w"
    "next_generation w' = next_generation w" "held w' = held w" "\<And>up s. names up s w \<Longrightarrow> names up s w'"
  shows "ordered_ok w'"
proof -
  have "task_backed w' t" if "task_backed w t" for t using task_backed_mono [OF that assms(7)] assms(6) by auto
  moreover have "active_ok w' u e" if "active_ok w u e" for u e using active_ok_mono [OF that assms(7)] assms(2,6) by simp
  ultimately show ?thesis
    using assms unfolding ordered_ok_def generations_ok_def list_all_iff by simp
qed

lemma ordered_spawn:
  assumes w: "ordered_ok w" and e: "entry_state e \<noteq> Active" "generation e = g" "kind_names k w"
    and g: "g = next_generation w \<and> n = g + 1 \<and> Suc (length (signals w)) < 2 ^ 64 \<or>
      is_drain k \<and> g < next_generation w \<and> n = next_generation w"
  shows "ordered_ok (spawn_task uri g k (put_entry uri e (w \<lparr>next_generation := n\<rparr>)))"
proof -
  let ?t = "\<lparr>t_uri = uri, t_generation = g, t_kind = k, t_tx = length (signals w), t_at = Waiting\<rparr>"
  let ?w = "spawn_task uri g k (put_entry uri e (w \<lparr>next_generation := n\<rparr>))"
  have names: "names up s ?w = names up s w" for up s by (simp add: spawn_task_def put_entry_def)
  have gens: "generations_ok w" using w by (simp add: ordered_ok_def)
  have n: "next_generation w \<le> n \<and> g < n \<and> unat n \<le> Suc (length (signals w))"
  proof (cases "g = next_generation w \<and> n = g + 1 \<and> Suc (length (signals w)) < 2 ^ 64")
    case True
    then have "Suc (unat g) < 2 ^ 64" using gens by (auto simp: generations_ok_def)
    then have "unat n = Suc (unat g)" using True by (simp add: unat_word_ariths)
    then show ?thesis using True gens by (auto simp: generations_ok_def word_less_nat_alt word_le_nat_alt)
  next
    case False
    then have "g < next_generation w" "n = next_generation w" using g by blast+
    then show ?thesis using gens by (simp add: generations_ok_def)
  qed
  have fresh: "is_drain k \<or> g \<notin> t_generation ` set (transitions w)" using g gens by (auto simp: generations_ok_def)
  have "generations_ok ?w"
    unfolding generations_ok_def
  proof (intro conjI)
    show "\<forall>u e'. hget (sub_entries ?w) u = Some e' \<longrightarrow> generation e' < next_generation ?w"
      using gens n e(2) unfolding generations_ok_def
      by (auto simp: spawn_task_def put_entry_def hm.get_ins split: if_splits intro: less_le_trans)
    show "\<forall>t \<in> set (transitions ?w). t_generation t < next_generation ?w"
      using gens n unfolding generations_ok_def by (auto simp: spawn_task_def put_entry_def intro: less_le_trans)
    show "distinct (map t_generation (filter (\<lambda>t. \<not> is_drain (t_kind t)) (transitions ?w)))"
      using gens fresh unfolding generations_ok_def by (auto simp: spawn_task_def put_entry_def)
  qed (use n in \<open>simp add: spawn_task_def put_entry_def\<close>)
  moreover have "oldest_run (transitions ?w)"
    using w by (simp add: ordered_ok_def spawn_task_def put_entry_def oldest_run_append)
  moreover have "task_backed ?w t" if "t \<in> set (transitions ?w)" for t
  proof (cases "t = ?t")
    case True
    then show ?thesis using kind_names_mono [OF e(3), of ?w] names by (simp add: task_backed_def)
  next
    case False
    then have "t \<in> set (transitions w)" using that by (simp add: spawn_task_def put_entry_def)
    then have "task_backed w t" using w by (simp add: ordered_ok_def list_all_iff)
    then show ?thesis by (rule task_backed_mono) (auto simp: names, auto simp: spawn_task_def put_entry_def)
  qed
  moreover have "active_ok ?w u e'" if "hget (sub_entries ?w) u = Some e'" for u e'
  proof (cases "u = uri")
    case True
    then show ?thesis using that e(1) by (simp add: spawn_task_def put_entry_def hm.get_ins active_ok_def)
  next
    case False
    then have "active_ok w u e'" using that w by (simp add: spawn_task_def put_entry_def hm.get_ins ordered_ok_def)
    then show ?thesis using False by (auto simp: active_ok_def names) (auto simp: spawn_task_def put_entry_def)
  qed
  ultimately show ?thesis by (simp add: ordered_ok_def list_all_iff)
qed

lemma ordered_spawn_drain:
  assumes "ordered_ok w" "is_draining (entry_state e)" "hget (sub_entries w) u0 = Some e0" "generation e = generation e0" "is_drain k"
  shows "ordered_ok (spawn_task uri (generation e) k (put_entry uri e w))"
proof -
  have "generation e < next_generation w" using assms(1,3,4) by (auto simp: ordered_ok_def generations_ok_def)
  moreover have "kind_names k w" using assms(5) by (cases k) auto
  ultimately have "ordered_ok (spawn_task uri (generation e) k (put_entry uri e (w \<lparr>next_generation := next_generation w\<rparr>)))"
    using assms(1,2,5) by (intro ordered_spawn) auto
  then show ?thesis by simp
qed

lemma ordered_put:
  assumes "ordered_ok w" "hget (sub_entries w) uri = Some e0" "generation e = generation e0" "active_ok w uri e"
  shows "ordered_ok (put_entry uri e w)"
proof -
  have "active_ok (put_entry uri e w) u e'" if "hget (sub_entries (put_entry uri e w)) u = Some e'" for u e'
    using that assms by (auto simp: put_entry_def hm.get_ins active_ok_def ordered_ok_def split: if_splits)
  moreover have "task_backed (put_entry uri e w) t = task_backed w t" for t
    using task_backed_mono [of w t "put_entry uri e w"] task_backed_mono [of "put_entry uri e w" t w] by (auto simp: put_entry_def)
  moreover have "generations_ok (put_entry uri e w)"
    using assms(1,2,3) by (auto simp: ordered_ok_def generations_ok_def put_entry_def hm.get_ins)
  ultimately show ?thesis using assms(1) by (simp add: ordered_ok_def list_all_iff)
qed

lemma ordered_put_members:
  "ordered_ok w \<Longrightarrow> hget (sub_entries w) uri = Some e \<Longrightarrow> ordered_ok (put_entry uri (e \<lparr>members := ms\<rparr>) w)"
  by (rule ordered_put) (auto simp: ordered_ok_def active_ok_def)

lemma ordered_goto:
  assumes w: "ordered_ok w" and i: "i < length (transitions w)" "in_order i w"
    and b: "task_backed w ((transitions w ! i) \<lparr>t_at := p\<rparr>)"
  shows "ordered_ok (goto_progress i p w)"
proof -
  let ?t = "(transitions w ! i) \<lparr>t_at := p\<rparr>" let ?w = "goto_progress i p w"
  obtain as bs where p: "transitions w = as @ transitions w ! i # bs" "transitions ?w = as @ ?t # bs"
    using goto_parts [OF i(1)] by (metis goto_progress_def select_convs(4) surjective update_convs(4))
  have "generations_ok ?w"
  proof -
    have "map t_generation (filter (\<lambda>t. \<not> is_drain (t_kind t)) (transitions ?w)) =
        map t_generation (filter (\<lambda>t. \<not> is_drain (t_kind t)) (transitions w))" by (subst p(1), subst p(2)) simp
    moreover have "t_generation t < next_generation w" if "t \<in> set (transitions ?w)" for t
    proof -
      have "t_generation t \<in> t_generation ` set (transitions w)" using that by (subst p(1)) (auto simp: p(2))
      then show ?thesis using w by (auto simp: ordered_ok_def generations_ok_def)
    qed
    ultimately show ?thesis using w unfolding ordered_ok_def generations_ok_def by (simp add: goto_progress_def)
  qed
  moreover have "oldest_run (transitions ?w)"
    using w i by (simp add: ordered_ok_def goto_progress_def oldest_run_goto in_order_def)
  moreover have bk: "task_backed ?w t = task_backed w t" for t
    using task_backed_mono [of w t ?w] task_backed_mono [of ?w t w] by (auto simp: goto_progress_def)
  moreover have "list_all (task_backed w) (transitions ?w)"
    using w b i(1) by (auto simp: ordered_ok_def list_all_iff goto_progress_def dest!: set_update_subset_insert [THEN subsetD])
  moreover have "active_ok ?w u e = active_ok w u e" for u e
  proof -
    have "t_uri ` set (transitions ?w) = t_uri ` set (transitions w)" by (subst p(1), subst p(2)) auto
    then have "list_all (\<lambda>t. t_uri t \<noteq> u) (transitions ?w) = list_all (\<lambda>t. t_uri t \<noteq> u) (transitions w)"
      unfolding list_all_iff by (metis imageE imageI)
    then show ?thesis by (simp add: active_ok_def) (simp add: goto_progress_def)
  qed
  ultimately show ?thesis using w by (simp add: ordered_ok_def goto_progress_def list_all_iff)
qed

lemma ordered_finish:
  assumes w: "ordered_ok w" and i: "i < length (transitions w)"
  shows "ordered_ok (finish_task i r w)"
proof -
  let ?w = "finish_task i r w" let ?ts = "take i (transitions w) @ drop (Suc i) (transitions w)"
  have sub: "set ?ts \<subseteq> set (transitions w)" using set_drop_nth [OF i] by auto
  have "generations_ok ?w"
  proof -
    have "distinct (map t_generation (filter (\<lambda>t. \<not> is_drain (t_kind t)) (take i (transitions w) @ transitions w ! i # drop (Suc i) (transitions w))))"
      using w id_take_nth_drop [OF i] unfolding ordered_ok_def generations_ok_def by metis
    then have "distinct (map t_generation (filter (\<lambda>t. \<not> is_drain (t_kind t)) ?ts))" by (auto split: if_splits)
    then show ?thesis using w sub unfolding ordered_ok_def generations_ok_def by (auto simp: finish_task_def)
  qed
  moreover have "task_backed ?w t" if "task_backed w t" for t
    using that by (rule task_backed_mono) (auto simp: finish_task_def)
  moreover have "active_ok ?w u e" if "active_ok w u e" for u e
    using active_ok_mono [OF that, of ?w] sub by (simp add: finish_task_def)
  ultimately show ?thesis
    using w sub oldest_run_finish [OF _ i] unfolding ordered_ok_def list_all_iff by (auto simp: finish_task_def)
qed

lemma ordered_remove: "ordered_ok w \<Longrightarrow> ordered_ok (remove_if_current t w)"
proof -
  assume w: "ordered_ok w"
  let ?w = "w \<lparr>sub_entries := hremove (t_uri t) (sub_entries w)\<rparr>"
  have "task_backed ?w t'" if "task_backed w t'" for t' using that by (rule task_backed_mono) auto
  moreover have "active_ok ?w u e" if "active_ok w u e" for u e using active_ok_mono [OF that, of ?w] by simp
  ultimately have "ordered_ok ?w"
    using w by (auto simp: ordered_ok_def generations_ok_def hm.get_del list_all_iff split: if_splits)
  with w show ?thesis by (simp add: remove_if_current_def)
qed

text \<open>The task in progress is the only one of its resource that runs, so its calls disturb nobody else.\<close>

lemma held_change:
  assumes w: "ordered_ok w" and i: "i < length (transitions w)" "t_at (transitions w ! i) \<noteq> Waiting"
    "\<And>up. t_at (transitions w ! i) \<noteq> Confirming up"
    and h: "\<And>u up c. u \<noteq> t_uri (transitions w ! i) \<Longrightarrow> (u, up, c) \<in> set (held w) \<Longrightarrow> (u, up, c) \<in> set h"
  shows "ordered_ok (w \<lparr>held := h\<rparr>)"
proof -
  let ?u = "t_uri (transitions w ! i)"
  have "task_backed (w \<lparr>held := h\<rparr>) t" if t: "t \<in> set (transitions w)" for t
  proof (rule task_backed_mono)
    show "task_backed w t" using w t by (simp add: ordered_ok_def list_all_iff)
    fix up c
    assume c: "t_at t = Confirming up" "(t_uri t, up, c) \<in> set (held w)"
    obtain j where j: "j < length (transitions w)" "t = transitions w ! j" using t by (auto simp: in_set_conv_nth)
    have "t_uri t \<noteq> ?u" using running_unique [of "transitions w" j i] w i c j by (auto simp: ordered_ok_def)
    then show "\<exists>c'. (t_uri t, up, c') \<in> set (held (w \<lparr>held := h\<rparr>))" using h c(2) by auto
  qed simp
  moreover have "active_ok (w \<lparr>held := h\<rparr>) u e" if "hget (sub_entries w) u = Some e" for u e
  proof (rule active_ok_mono)
    show a: "active_ok w u e" using w that by (simp add: ordered_ok_def)
    assume "entry_state e = Active"
    then have "u \<noteq> ?u" using a i(1) by (auto simp: active_ok_def list_all_length)
    then show "\<forall>up c. (u, up, c) \<in> set (held w) \<longrightarrow> (u, up, c) \<in> set (held (w \<lparr>held := h\<rparr>))" using h by auto
  qed simp_all
  ultimately show ?thesis using w by (auto simp: ordered_ok_def generations_ok_def list_all_iff)
qed

lemma ordered_calls:
  assumes w: "ordered_ok w" and i: "i < length (transitions w)" "t_at (transitions w ! i) \<noteq> Waiting"
    "\<And>up. t_at (transitions w ! i) \<noteq> Confirming up"
  shows "ordered_ok (upstream_unsubscribed (t_uri (transitions w ! i)) up w)"
    "ordered_ok (upstream_subscribed (t_uri (transitions w ! i)) up w)"
  unfolding upstream_subscribed_def upstream_unsubscribed_def Let_def
  using held_change [OF assms, of "filter (\<lambda>(u, o', _). \<not> (u = t_uri (transitions w ! i) \<and> o' = up)) (held w)"]
    held_change [OF assms, of "(t_uri (transitions w ! i), up, connection_generation up w) #
      filter (\<lambda>(u, o', _). \<not> (u = t_uri (transitions w ! i) \<and> o' = up)) (held w)"]
  by auto

lemma ordered_ends:
  assumes "ordered_ok w" "i < length (transitions w)" "in_order i w" "t = transitions w ! i"
  shows "t_kind t = SubscribeTransition owner d up \<Longrightarrow> ordered_ok (subscribe_call i t up w)" "ordered_ok (finish_drain i t w)"
    "ordered_ok (rebind_failed i t w)" "t_kind t = RebindTransition a b c new_owner rel \<Longrightarrow> ordered_ok (rebind_call i t new_owner w)"
proof -
  have b: "task_backed w t" using assms by (simp add: ordered_ok_def list_all_length)
  show "ordered_ok (finish_drain i t w)" "ordered_ok (rebind_failed i t w)"
    using assms(1,2) by (simp_all add: finish_drain_def rebind_failed_def ordered_finish ordered_remove)
  then show "ordered_ok (rebind_call i t new_owner w)" if "t_kind t = RebindTransition a b c new_owner rel"
    using assms b that by (auto simp: rebind_call_def task_backed_def split: sum.split intro!: ordered_goto)
  show "ordered_ok (subscribe_call i t up w)" if "t_kind t = SubscribeTransition owner d up"
    using assms b that by (auto simp: subscribe_call_def task_backed_def intro!: ordered_goto ordered_finish)
qed

lemma ordered_releasing:
  assumes "ordered_ok w" "i < length (transitions w)" "in_order i w"
  shows "ordered_ok (goto_progress i (Releasing up) w)"
  using assms by (intro ordered_goto) (auto simp: task_backed_def ordered_ok_def list_all_length)

lemma ordered_acquire:
  assumes "ordered_ok w" "i < length (transitions w)" "in_order i w"
  shows "ordered_ok (acquire i (transitions w ! i) w)"
  using ordered_ends [OF assms refl] ordered_releasing [OF assms] ordered_finish [OF assms(1,2)]
  by (auto simp: acquire_def split: transition.split option.split)

lemma running_in_order:
  "ordered_ok w \<Longrightarrow> i < length (transitions w) \<Longrightarrow> t_at (transitions w ! i) \<noteq> Waiting \<Longrightarrow> in_order i w"
  by (simp add: ordered_ok_def oldest_run_def in_order_def)

lemma ordered_answer:
  assumes w: "ordered_ok w" and i: "i < length (transitions w)" "t_at (transitions w ! i) \<noteq> Waiting"
    "\<And>up. t_at (transitions w ! i) \<noteq> Confirming up"
  shows "ordered_ok (answer i (transitions w ! i) result w)"
proof -
  let ?t = "transitions w ! i"
  have o: "in_order i w" using running_in_order [OF w i(1,2)] .
  have u: "ordered_ok (upstream_unsubscribed (t_uri ?t) up w)" "in_order i (upstream_unsubscribed (t_uri ?t) up w)" for up
    using ordered_calls [OF assms] o by (simp_all add: in_order_def)
  note ends = ordered_ends [where t = ?t, OF u(1) _ u(2)]
  show ?thesis
  proof (cases "t_at ?t")
    case (Releasing up)
    then show ?thesis using ends i(1) by (auto simp: answer_def Let_def split: transition.split)
  next
    case (Calling up)
    have b: "task_backed w ?t" using w i(1) by (simp add: ordered_ok_def list_all_length)
    have "ordered_ok (goto_progress i (Confirming up) (upstream_subscribed (t_uri ?t) up w))"
    proof (rule ordered_goto)
      show "task_backed (upstream_subscribed (t_uri ?t) up w) ((transitions (upstream_subscribed (t_uri ?t) up w) ! i) \<lparr>t_at := Confirming up\<rparr>)"
        using b Calling kind_names_mono [of "t_kind ?t" w "upstream_subscribed (t_uri ?t) up w"]
        by (auto simp: task_backed_def upstream_subscribed_def upstream_unsubscribed_def Let_def)
    qed (use ordered_calls [OF assms] i(1) o in \<open>simp_all add: in_order_def\<close>)
    moreover have "ordered_ok (finish_task i r (remove_if_current ?t (upstream_unsubscribed (t_uri ?t) up w)))" for r
      using u(1) i(1) by (intro ordered_finish ordered_remove) simp_all
    ultimately show ?thesis
      using Calling ends(3) i(1) by (auto simp: answer_def Let_def split: transition.split sum.split)
  qed (use assms in simp_all)
qed

text \<open>The task that confirms an entry that still waits for it is the only one of its resource.\<close>

lemma last_of_resource:
  assumes w: "ordered_ok w" "registry_ok w" and i: "i < length (transitions w)" "t_at (transitions w ! i) \<noteq> Waiting"
    "\<not> is_drain (t_kind (transitions w ! i))"
    and e: "current_entry (transitions w ! i) w = Some e" "is_pending (entry_state e)"
  shows "list_all (\<lambda>t. t_uri t \<noteq> t_uri (transitions w ! i)) (take i (transitions w) @ drop (Suc i) (transitions w))"
proof -
  let ?ts = "transitions w"
  from e(2) obtain rx s where p: "entry_state e = Pending rx s" by (cases "entry_state e") auto
  have "entry_ok ?ts (t_uri (?ts ! i)) e" using e(1) w(2) by (simp add: current_Some registry_entry)
  then obtain k where k: "last_core (t_uri (?ts ! i)) ?ts = Some (generation e, k, rx)" "\<not> is_drain k"
    using p by (auto simp: entry_ok_def)
  from k(1) obtain j where j: "j < length ?ts" "core (?ts ! j) = (generation e, k, rx)"
    "\<And>t. t \<in> set (drop (Suc j) ?ts) \<Longrightarrow> t_uri t \<noteq> t_uri (?ts ! i)" by (rule last_core_index) blast
  have "i = j"
  proof (rule distinct_filter_index [where f = t_generation and P = "\<lambda>t. \<not> is_drain (t_kind t)"])
    show "distinct (map t_generation (filter (\<lambda>t. \<not> is_drain (t_kind t)) ?ts))" using w(1) by (simp add: ordered_ok_def generations_ok_def)
  qed (use i j(1,2) k(2) e(1) in \<open>auto simp: core_def current_Some\<close>)
  then show ?thesis using running_in_order [OF w(1) i(1,2)] j(3) by (auto simp: in_order_def list_all_iff)
qed

lemma ordered_confirm:
  assumes w: "ordered_ok w" "registry_ok w" and i: "i < length (transitions w)" "t_at (transitions w ! i) = Confirming up"
  shows "ordered_ok (confirm i (transitions w ! i) w)"
proof (cases "current_entry (transitions w ! i) w")
  case None
  then show ?thesis using w(1) i by (simp add: confirm_def ordered_finish)
next
  case (Some e)
  let ?t = "transitions w ! i" let ?o = "new_owner_id (t_kind ?t)"
  let ?e = "confirmed_entry ?o (connection_generation up w) e" let ?w = "finish_task i (Inr ()) w"
  have nd: "\<not> is_drain (t_kind ?t)"
    using w(2) i by (auto simp: registry_ok_def progress_ok_def list_all_length split: progress.splits)
  have "task_backed w ?t" using w(1) i(1) by (simp add: ordered_ok_def list_all_length)
  then obtain c where c: "names up ?o w" "(t_uri ?t, up, c) \<in> set (held w)" using i(2) by (auto simp: task_backed_def)
  have "active_ok w (t_uri ?t) e" using w(1) Some by (simp add: ordered_ok_def current_Some)
  then have "entry_state e \<noteq> Active" using i(1) by (auto simp: active_ok_def list_all_length)
  then have "active_ok ?w (t_uri ?t) ?e"
    using last_of_resource [OF w i(1) _ nd Some] i(2) c
    by (auto simp: active_ok_def confirmed_entry_def finish_task_def)
  moreover have "hget (sub_entries ?w) (t_uri ?t) = Some e" using Some by (simp add: current_Some finish_task_def)
  ultimately have put: "ordered_ok (put_entry (t_uri ?t) ?e ?w)"
    using ordered_put [OF ordered_finish [OF w(1) i(1)]] by (simp add: confirmed_entry_def)
  have "ordered_ok (finish_task i (Inr ()) (put_entry (t_uri ?t) ?e w \<lparr>hook_calls := hs\<rparr>))" for hs
    by (rule ordered_frame [OF put]) (simp_all add: finish_task_def put_entry_def)
  from this [of "hook_calls w"] this [of "hook_calls w @ [(t_uri ?t, owner)]" for owner]
  show ?thesis using Some i(2) by (auto simp: confirm_def Let_def put_entry_def split: transition.split)
qed

lemma ordered_move:
  assumes "ordered_ok w" "registry_ok w" "can_move i w" "t_at (transitions w ! i) = Waiting \<Longrightarrow> in_order i w"
  shows "ordered_ok (move i result w)"
  using assms ordered_acquire [of w i] ordered_answer [of w i] ordered_confirm [of w i]
  by (auto simp: move_def Let_def can_move_def split: progress.split)

lemma ordered_start:
  "ordered_ok w \<Longrightarrow> names up owner w \<Longrightarrow> Suc (length (signals w)) < 2 ^ 64 \<Longrightarrow>
     ordered_ok (snd (start_subscribe uri ms owner displaced up w))"
  unfolding start_subscribe_def Let_def snd_conv by (rule ordered_spawn) auto

lemma ordered_subscribe:
  assumes "ordered_ok w" "names up owner w" "length (signals (snd (subscribe uri target owner up w))) < 2 ^ 64"
  shows "ordered_ok (snd (subscribe uri target owner up w))"
proof -
  have "Suc (length (signals w)) < 2 ^ 64" if "subscribe uri target owner up w = start_subscribe uri ms owner displaced up w" for ms displaced
    using assms(3) that by (simp add: start_subscribe_def Let_def spawn_task_def put_entry_def)
  with ordered_start [OF assms(1,2)] ordered_put_members [OF assms(1)] show ?thesis
    by (auto simp: subscribe_def Let_def split: option.splits entry_state.splits if_splits)
qed

lemma ordered_leave: "ordered_ok w \<Longrightarrow> ordered_ok (leave origin uri target up w)"
  using ordered_spawn_drain [of w "e \<lparr>members := [], entry_state := Draining x\<rparr>" uri e for e x]
  by (auto simp: leave_def Let_def ordered_put_members split: option.split)

lemma ordered_prune: "ordered_ok w \<Longrightarrow> ordered_ok (snd (prune uri server_id up w))"
  using ordered_spawn_drain [of w "e \<lparr>entry_state := Draining x\<rparr>" uri e for e x]
  by (auto simp: prune_def split: option.split)

lemma ordered_migrate:
  assumes "ordered_ok w" "\<And>up. new_owner = Inr up \<Longrightarrow> names up new_server_id w"
    "length (signals (snd (migrate uri old_server_id old_up new_server_id new_owner release w))) < 2 ^ 64"
  shows "ordered_ok (snd (migrate uri old_server_id old_up new_server_id new_owner release w))"
proof -
  have k: "kind_names (RebindTransition old_server_id old_up new_server_id new_owner release) w"
    using assms(2) by (cases new_owner) auto
  have s: "Suc (length (signals w)) < 2 ^ 64" if "length (signals (spawn_task uri g kind (put_entry uri e (w \<lparr>next_generation := n\<rparr>)))) < 2 ^ 64" for g kind e n
    using that by (simp add: spawn_task_def put_entry_def)
  show ?thesis
    using assms(1,3) k s
    by (auto simp: migrate_def Let_def intro!: ordered_spawn split: option.splits)
qed

lemma signals_mono: "registry_step order w w' \<Longrightarrow> length (signals w) \<le> length (signals w')"
proof (induction rule: registry_step.induct)
  case (Move i w result)
  have "length (signals (finish_task i r w')) = length (signals w')" "signals (goto_progress i p w') = signals w'"
    "signals (remove_if_current t w') = signals w'" for r w' p t
    by (simp_all add: finish_task_def goto_progress_def remove_if_current_def)
  then show ?case
    by (auto simp: move_def Let_def acquire_def answer_def confirm_def subscribe_call_def finish_drain_def rebind_failed_def rebind_call_def put_entry_def
        split: progress.split transition.split option.split sum.split)
qed (auto simp: subscribe_def start_subscribe_def leave_def prune_def migrate_def spawn_task_def put_entry_def Let_def
    split: option.split entry_state.split)

lemma ordered_step:
  assumes "registry_step in_order w w'" "registry_ok w" "ordered_ok w" "length (signals w') < 2 ^ 64"
  shows "ordered_ok w'"
  using assms
proof cases
  case (Connect s g)
  then show ?thesis using assms(3) ordered_frame [of w w'] by (auto simp: names_def nth_append)
next
  case (Disconnect s)
  then show ?thesis using assms(3) ordered_frame [of w w'] by (simp add: names_def)
next
  case (Replace up g)
  then show ?thesis using assms(3) ordered_frame [of w w'] by (auto simp: names_def nth_list_update)
qed (use assms in \<open>auto simp: ordered_subscribe ordered_leave ordered_prune ordered_migrate intro!: ordered_move\<close>)

lemma reachable_ordered: "reachable in_order w \<Longrightarrow> length (signals w) < 2 ^ 64 \<longrightarrow> ordered_ok w"
proof (induction rule: reachable.induct)
  case (Start r h)
  then show ?case by (simp add: ordered_ok_def registry_new_def oldest_run_def generations_ok_def)
next
  case (Step w w')
  then show ?case using ordered_step [OF Step.hyps(2) reachable_ok [OF Step.hyps(1)]] signals_mono [OF Step.hyps(2)] by auto
qed

text \<open>
  C9. A confirmed entry is backed: when the tasks of a resource take its lock in the order they were created, and as long as
  fewer than 2 to the 64 transitions have been started, a confirmed entry has clients and an owner, no
  task of its resource is on its way, and the last call that one of the owner's connections got about the
  resource was a subscribe that succeeded. So the clients hear of updates unless that connection was replaced since.
\<close>

theorem active_subscription_backed:
  assumes "reachable in_order w" "length (signals w) < 2 ^ 64" "hget (sub_entries w) uri = Some e" "entry_state e = Active"
  shows "members e \<noteq> [] \<and> list_all (\<lambda>t. t_uri t \<noteq> uri) (transitions w) \<and>
    (\<exists>owner up c. owner_server_id e = Some owner \<and> up < length (objects w) \<and> fst (objects w ! up) = owner \<and>
       (uri, up, c) \<in> set (held w))"
proof -
  have "active_ok w uri e" using reachable_ordered [OF assms(1)] assms(2,3) by (simp add: ordered_ok_def)
  moreover have "members e \<noteq> []" using registry_entry [OF reachable_ok [OF assms(1)] assms(3)] assms(4) by (auto simp: entry_ok_def)
  ultimately show ?thesis using assms(4) by (auto simp: active_ok_def names_def)
qed

end
