(* ===== verification/Subscription_Races.thy ===== *)
theory Subscription_Races
  imports Subscription_Safety
begin

section \<open>Schedules of the subscription registry\<close>

text \<open>
  Concrete schedules, as lists of actions that are executed when the registry allows them. The first is an ordinary
  subscription; the others are races that the registry does not survive: a session that is replaced while its
  subscribe is being confirmed, a rebind that is superseded in mid-flight, tasks that take a lock out of order,
  and a handle that is older than the connection the entry was confirmed on.
\<close>

datatype action =
    DoSubscribe string notification_target string upstream
  | DoLeave string notification_target
  | DoMigrate string string string upstream
  | DoMove nat mcp_result
  | DoConnect string u64
  | DoReplace upstream u64

fun act :: "(nat \<Rightarrow> registry \<Rightarrow> bool) \<Rightarrow> action \<Rightarrow> registry \<Rightarrow> registry option" where
  "act order (DoSubscribe uri target owner up) w = (if names up owner w then Some (snd (subscribe uri target owner up w)) else None)"
| "act order (DoLeave uri target) w = Some (unsubscribe uri target None w)"
| "act order (DoMigrate uri old new up) w = (if names up new w then Some (snd (rebind uri old None new (Inr up) w)) else None)"
| "act order (DoMove i result) w =
     (if can_move i w \<and> (t_at (transitions w ! i) = Waiting \<longrightarrow> order i w) then Some (move i result w) else None)"
| "act order (DoConnect s g) w =
     Some (w \<lparr>objects := objects w @ [(s, g)], manager := hinsert s (length (objects w)) (manager w)\<rparr>)"
| "act order (DoReplace up g) w =
     (if up < length (objects w) then Some (w \<lparr>objects := (objects w) [up := (fst (objects w ! up), g)]\<rparr>) else None)"

fun acts :: "(nat \<Rightarrow> registry \<Rightarrow> bool) \<Rightarrow> action list \<Rightarrow> registry \<Rightarrow> registry option" where
  "acts order [] w = Some w"
| "acts order (a # as) w = (case act order a w of None \<Rightarrow> None | Some w' \<Rightarrow> acts order as w')"

lemma act_step: "act order a w = Some w' \<Longrightarrow> registry_step order w w'"
  by (cases a) (auto simp: unsubscribe_def rebind_def split: if_splits intro: registry_step.intros)

lemma acts_reachable: "acts order as w = Some w' \<Longrightarrow> reachable order w \<Longrightarrow> reachable order w'"
proof (induction as arbitrary: w)
  case (Cons a as)
  then obtain w1 where "act order a w = Some w1" "acts order as w1 = Some w'" by (auto split: option.splits)
  then show ?case using Cons.IH Cons.prems(2) act_step reachable.Step by metis
qed simp

lemma acts_append: "acts order (as @ bs) w = (case acts order as w of None \<Rightarrow> None | Some w' \<Rightarrow> acts order bs w')"
  by (induction as arbitrary: w) (simp_all split: option.split)

definition started :: registry where
  "started = registry_new \<lparr>owner_resolver_set := True, post_confirm_hook_set := True\<rparr>"

lemma started_reachable: "reachable order started"
  unfolding started_def by (rule reachable.Start)

definition client :: notification_target where
  "client = Http ''c''"

text \<open>Three servers are connected and a client subscribes at the first.\<close>

definition connected :: "action list" where
  "connected = [DoConnect ''A'' 1, DoConnect ''B'' 2, DoConnect ''C'' 3]"

definition subscribed :: "action list" where
  "subscribed = connected @ [DoSubscribe ''r'' client ''A'' 0, DoMove 0 (Inr ()), DoMove 0 (Inr ()), DoMove 0 (Inr ())]"

definition subscribed_registry :: registry where
  "subscribed_registry = \<lparr>sub_entries = [(''r'', \<lparr>generation = 0, members = [client], entry_state = Active,
       owner_server_id = Some ''A'', owner_connection_generation = Some 1\<rparr>)],
     next_generation = 1, signals = [Some (Inr ())], transitions = [], owner_resolver_set = True, post_confirm_hook_set = True,
     hook_calls = [(''r'', ''A'')], objects = [(''A'', 1), (''B'', 2), (''C'', 3)],
     manager = [(''A'', 0), (''B'', 1), (''C'', 2)], held = [(''r'', 0, 1)]\<rparr>"

lemmas registry_defs = subscribe_def start_subscribe_def unsubscribe_def leave_def rebind_def migrate_def owner_to_release_def
  spawn_task_def put_entry_def move_def acquire_def answer_def confirm_def subscribe_call_def rebind_call_def finish_drain_def
  rebind_failed_def remove_if_current_def current_entry_def goto_progress_def finish_task_def confirmed_entry_def drain_handle_def
  connection_generation_def upstream_subscribed_def upstream_unsubscribed_def can_move_def lock_free_def names_def
  any_order_def in_order_def hinsert_def hremove_def

lemma subscribed_run: "acts in_order subscribed started = Some subscribed_registry"
  by (simp add: subscribed_def connected_def started_def registry_new_def subscribed_registry_def client_def registry_defs Let_def)

lemma subscribed_reachable: "reachable in_order subscribed_registry"
  by (rule acts_reachable [OF subscribed_run started_reachable])

theorem active_subscription_backed_witness:
  "\<exists>owner up c. owner = ''A'' \<and> fst (objects subscribed_registry ! up) = owner \<and> (''r'', up, c) \<in> set (held subscribed_registry)"
  using active_subscription_backed [OF subscribed_reachable, of "''r''"
      "\<lparr>generation = 0, members = [client], entry_state = Active, owner_server_id = Some ''A'', owner_connection_generation = Some 1\<rparr>"]
  by (auto simp: subscribed_registry_def)

theorem transitions_settle_witness:
  "\<exists>w w'. run_moves [(0, Inr ()), (0, Inl ''refused'')] w = Some w' \<and> length (transitions w) = 1 \<and> None \<notin> set (signals w')"
proof -
  let ?as = "connected @ [DoSubscribe ''r'' client ''A'' 0]"
  obtain w where w: "acts in_order ?as started = Some w" and t: "length (transitions w) = 1"
    and m: "\<exists>w'. run_moves [(0, Inr ()), (0, Inl ''refused'')] w = Some w' \<and> transitions w' = []"
    by (simp add: connected_def started_def registry_new_def client_def registry_defs Let_def)
  from m obtain w' where "run_moves [(0, Inr ()), (0, Inl ''refused'')] w = Some w'" "transitions w' = []" by blast
  with transitions_settle [OF acts_reachable [OF w started_reachable]] t show ?thesis by fastforce
qed

subsection \<open>A session replaced before the confirmation\<close>

text \<open>
  C39. The number of the owner's connection is read after the subscribe has been answered. When the transport replaces its
  session in between, the entry records the new session although the subscription was made on the old
  one: the entry is confirmed and looks current, so neither a route refresh nor another subscribe notices that the
  clients will hear nothing.
\<close>

theorem replaced_session_unnoticed:
  "\<exists>w e. reachable in_order w \<and> transitions w = [] \<and> held w = [(''r'', 0, 1)] \<and> connection_generation 0 w = 9 \<and>
     hget (manager w) ''A'' = Some 0 \<and> hget (sub_entries w) ''r'' = Some e \<and> entry_state e = Active \<and> members e = [client] \<and>
     classify_route_changes [(''r'', ''A'')] [(''r'', ''A'')] w = [] \<and>
     fst (subscribe ''r'' client ''A'' 0 w) = Ready (Inr ())"
proof -
  let ?as = "connected @ [DoSubscribe ''r'' client ''A'' 0, DoMove 0 (Inr ()), DoMove 0 (Inr ()), DoReplace 0 9, DoMove 0 (Inr ())]"
  let ?e = "\<lparr>generation = 0, members = [client], entry_state = Active, owner_server_id = Some ''A'', owner_connection_generation = Some 9\<rparr>"
  let ?w = "subscribed_registry \<lparr>sub_entries := [(''r'', ?e)], objects := [(''A'', 9), (''B'', 2), (''C'', 3)]\<rparr>"
  have "acts in_order ?as started = Some ?w"
    by (simp add: connected_def started_def registry_new_def subscribed_registry_def client_def registry_defs Let_def)
  then have "reachable in_order ?w" by (rule acts_reachable [OF _ started_reachable])
  then show ?thesis
    by (intro exI [of _ ?w] exI [of _ ?e])
      (simp add: subscribed_registry_def classify_route_changes_def classify_entry_def owner_connection_is_stale_def registry_defs Let_def)
qed

subsection \<open>A rebind superseded in mid-flight\<close>

definition overtaken :: "action list" where
  "overtaken = [DoMigrate ''r'' ''A'' ''B'' 1, DoMove 0 (Inr ()), DoMove 0 (Inr ()), DoMigrate ''r'' ''A'' ''C'' 2,
     DoMove 0 (Inr ()), DoMove 0 (Inr ()), DoMove 0 (Inr ()), DoMove 0 (Inr ()), DoMove 0 (Inr ()), DoMove 0 (Inr ())]"


subsection \<open>Locks taken out of order\<close>

definition reordered :: "action list" where
  "reordered = [DoLeave ''r'' client, DoSubscribe ''r'' client ''B'' 1, DoLeave ''r'' client, DoSubscribe ''r'' client ''A'' 0,
     DoMove 3 (Inr ()), DoMove 3 (Inr ()), DoMove 3 (Inr ()), DoMove 3 (Inr ()),
     DoMove 1 (Inr ()), DoMove 1 (Inr ()), DoMove 0 (Inr ()), DoMove 0 (Inr ())]"

text \<open>
  Order matters: when the newest subscribe takes the lock before an older one that owes the release of the same
  server, the older one releases the server of the confirmed entry afterwards.
\<close>

lemma reordered_release_strands:
  "\<exists>w e. reachable any_order w \<and> transitions w = [] \<and> hget (sub_entries w) ''r'' = Some e \<and> entry_state e = Active \<and>
     members e = [client] \<and> owner_server_id e = Some ''A'' \<and> held w = []"
proof -
  have "acts any_order subscribed started = Some subscribed_registry"
    by (simp add: subscribed_def connected_def started_def registry_new_def subscribed_registry_def client_def registry_defs Let_def)
  then have r: "reachable any_order subscribed_registry" by (rule acts_reachable [OF _ started_reachable])
  have "\<exists>w e. acts any_order reordered subscribed_registry = Some w \<and> transitions w = [] \<and>
     hget (sub_entries w) ''r'' = Some e \<and> entry_state e = Active \<and>
     members e = [client] \<and> owner_server_id e = Some ''A'' \<and> held w = []"
    by (simp add: reordered_def subscribed_registry_def client_def registry_defs Let_def)
  then show ?thesis using acts_reachable [OF _ r] by blast
qed

subsection \<open>A handle older than the connection\<close>

definition stale_handle :: "action list" where
  "stale_handle = [DoConnect ''A'' 4, DoSubscribe ''r'' client ''A'' 3, DoMove 0 (Inr ()), DoMove 0 (Inr ()), DoMove 0 (Inr ()),
     DoSubscribe ''r'' (Http ''late'') ''A'' 0, DoMove 0 (Inr ()), DoMove 0 (Inl ''closed'')]"

text \<open>
  A subscriber that resolved its handle before a reconnect makes the registry take the live connection for the dead
  one: the entry is confirmed anew on the old handle, fails, and is removed, while the subscription at
  the new connection stays.
\<close>

lemma stale_handle_drops_members:
  "\<exists>w. reachable in_order w \<and> transitions w = [] \<and> sub_entries w = [] \<and> hget (manager w) ''A'' = Some 3 \<and>
     (''r'', 3, connection_generation 3 w) \<in> set (held w)"
proof -
  have "\<exists>w. acts in_order stale_handle subscribed_registry = Some w \<and> transitions w = [] \<and> sub_entries w = [] \<and>
     hget (manager w) ''A'' = Some 3 \<and> (''r'', 3, connection_generation 3 w) \<in> set (held w)"
    by (simp add: stale_handle_def subscribed_registry_def client_def registry_defs Let_def)
  then show ?thesis using acts_reachable [OF _ subscribed_reachable] by blast
qed

end
