(* ===== verification/Subscription_Router.thy ===== *)
theory Subscription_Router
  imports Subscription_Races Tool_Catalog
begin

section \<open>Subscriptions through the router\<close>

text \<open>
  What the router adds around the registry (\<open>proxy/subscriptions.rs\<close>, \<open>proxy/mod.rs\<close>): it resolves the published route
  and the client's access, and after the transition checks once more that the route has not moved. A subscribe is
  three sections with waits in between: \<open>subscribe_begin\<close>, \<open>subscribe_heal\<close> and \<open>subscribe_verify\<close>.
  \<^item> \<open>supports\<close> lists the servers whose capabilities include subscriptions.
  \<^item> The published routes are read anew in each section.
\<close>

definition client_may_use_all_of_server :: "(string, client_access) hmap \<Rightarrow> string option \<Rightarrow> string \<Rightarrow> bool" where
  "client_may_use_all_of_server access client_key server_id \<longleftrightarrow>
     (case client_key of
        None \<Rightarrow> True
      | Some key \<Rightarrow>
          (case hget access key of
             None \<Rightarrow> True
           | Some a \<Rightarrow> \<not> keeps_from_server a server_id \<and> (\<not> has_allow_list a \<or> server_id \<in> set (allowed_servers a))))"

record router_state =
  resource_routes :: "(string, string) hmap"
  supports :: "string list"
  access_rules :: "(string, client_access) hmap"
  subscriber_client_keys :: "(notification_target, string) hmap"

datatype subscribe_error =
    ResourceNotFound string
  | ServerUnavailable string
  | NoSubscribeSupport string
  | SubscriptionLost string

definition subscribe_begin ::
  "string \<Rightarrow> notification_target \<Rightarrow> string option \<Rightarrow> router_state \<Rightarrow> registry \<Rightarrow> (subscribe_error + outcome) \<times> registry" where
  "subscribe_begin uri target client_key rs w =
     (case (case hget (resource_routes rs) uri of
              Some s \<Rightarrow> if client_may_use_all_of_server (access_rules rs) client_key s then Some s else None
            | None \<Rightarrow> None) of
        None \<Rightarrow> (Inl (ResourceNotFound uri), w)
      | Some server_id \<Rightarrow>
          (case hget (manager w) server_id of
             None \<Rightarrow> (Inl (ServerUnavailable server_id), w)
           | Some up \<Rightarrow>
               if server_id \<notin> set (supports rs) then (Inl (NoSubscribeSupport server_id), w)
               else (case subscribe uri target server_id up w of (out, w') \<Rightarrow> (Inr out, w'))))"

definition resolve_rebind_owner :: "string \<Rightarrow> router_state \<Rightarrow> registry \<Rightarrow> rebind_skip_reason + upstream" where
  "resolve_rebind_owner server_id rs w =
     (case hget (manager w) server_id of
        None \<Rightarrow> Inl NewOwnerMissing
      | Some up \<Rightarrow> if server_id \<in> set (supports rs) then Inr up else Inl NewOwnerNoSubscribeSupport)"

definition rebind_subscription_route :: "string \<Rightarrow> string \<Rightarrow> string \<Rightarrow> router_state \<Rightarrow> registry \<Rightarrow> outcome \<times> registry" where
  "rebind_subscription_route uri old_server_id new_server_id rs w =
     rebind uri old_server_id (hget (manager w) old_server_id) new_server_id (resolve_rebind_owner new_server_id rs w) w"

text \<open>The check after the subscribe was answered; it rebinds when the recorded owner is not the published one.\<close>

definition subscribe_heal :: "string \<Rightarrow> router_state \<Rightarrow> registry \<Rightarrow> outcome option \<times> registry" where
  "subscribe_heal uri rs w =
     (case (case owner_snapshot uri w of Some (Some o') \<Rightarrow> Some o' | _ \<Rightarrow> None, hget (resource_routes rs) uri) of
        (Some owner, Some route) \<Rightarrow>
          if owner \<noteq> route
          then (case rebind_subscription_route uri owner route rs w of (out, w') \<Rightarrow> (Some out, w'))
          else (None, w)
      | _ \<Rightarrow> (None, w))"

text \<open>The hook a confirmed subscribe runs in a task of its own; it does not wait for the rebind it starts.\<close>

definition post_confirm_heal :: "string \<Rightarrow> string \<Rightarrow> router_state \<Rightarrow> registry \<Rightarrow> registry" where
  "post_confirm_heal uri confirmed_owner rs w =
     (case hget (resource_routes rs) uri of
        None \<Rightarrow> w
      | Some new_server_id \<Rightarrow>
          if new_server_id = confirmed_owner then w
          else snd (rebind_subscription_route uri confirmed_owner new_server_id rs w))"

text \<open>And what the client is told; \<open>published\<close> is the route the check saw, \<open>healed\<close> the result of its rebind.\<close>

definition subscribe_verify ::
  "string \<Rightarrow> notification_target \<Rightarrow> string option \<Rightarrow> string option \<Rightarrow> mcp_result option \<Rightarrow> router_state \<Rightarrow> registry \<Rightarrow>
   (subscribe_error + unit) \<times> router_state" where
  "subscribe_verify uri target client_key published healed rs w =
     (let tracked = tracks_member uri target w;
          confirmed = (case published of
             Some route \<Rightarrow> member_active_on_owner uri target route w
           | None \<Rightarrow> member_is_active uri target w)
      in if confirmed
         then (Inr (), case client_key of
                         Some key \<Rightarrow> rs \<lparr>subscriber_client_keys := hinsert target key (subscriber_client_keys rs)\<rparr>
                       | None \<Rightarrow> rs)
         else if tracked \<or> (case healed of Some r \<Rightarrow> isl r | None \<Rightarrow> False) \<or> \<not> has_entry uri w
         then (Inl (SubscriptionLost uri), rs)
         else (Inr (), rs))"

definition unsubscribe_resource ::
  "string \<Rightarrow> notification_target \<Rightarrow> router_state \<Rightarrow> registry \<Rightarrow> (subscribe_error + unit) \<times> registry" where
  "unsubscribe_resource uri target rs w =
     (let route = hget (resource_routes rs) uri
      in if route = None \<and> \<not> has_entry uri w then (Inl (ResourceNotFound uri), w)
         else (Inr (), unsubscribe uri target (case route of Some s \<Rightarrow> hget (manager w) s | None \<Rightarrow> None) w))"

definition cleanup_subscriptions_for_target ::
  "notification_target \<Rightarrow> router_state \<Rightarrow> registry \<Rightarrow> router_state \<times> registry" where
  "cleanup_subscriptions_for_target target rs w =
     (rs \<lparr>subscriber_client_keys := hremove target (subscriber_client_keys rs)\<rparr>,
      cleanup_target target (\<lambda>uri. case hget (resource_routes rs) uri of Some s \<Rightarrow> hget (manager w) s | None \<Rightarrow> None) w)"

text \<open>The clients an update of the resource is sent to.\<close>

definition route_upstream_resource_updated :: "string \<Rightarrow> router_state \<Rightarrow> registry \<Rightarrow> notification_target list" where
  "route_upstream_resource_updated uri rs w =
     (case members_snapshot uri w of
        None \<Rightarrow> []
      | Some subscribers \<Rightarrow>
          (let server_id = (case owner_snapshot uri w of Some (Some o') \<Rightarrow> Some o' | _ \<Rightarrow> hget (resource_routes rs) uri)
           in filter (\<lambda>target. \<not> (case (server_id, hget (subscriber_client_keys rs) target) of
                 (Some s, Some key) \<Rightarrow> \<not> client_may_use_all_of_server (access_rules rs) (Some key) s
               | _ \<Rightarrow> False)) subscribers))"

text \<open>
  A route refresh: the decisions of a pass are executed, prunes before the new routes are published and
  rebinds after.
\<close>

definition execute_prune :: "route_reconciliation \<Rightarrow> registry \<Rightarrow> registry" where
  "execute_prune r w =
     (case r of
        Prune uri old_server_id \<Rightarrow>
          snd (prune uri old_server_id (case old_server_id of Some s \<Rightarrow> hget (manager w) s | None \<Rightarrow> None) w)
      | _ \<Rightarrow> w)"

definition execute_rebind :: "router_state \<Rightarrow> route_reconciliation \<Rightarrow> registry \<Rightarrow> registry" where
  "execute_rebind rs r w =
     (case r of
        Rebind uri old_server_id new_server_id \<Rightarrow> snd (rebind_subscription_route uri old_server_id new_server_id rs w)
      | Resubscribe uri server_id \<Rightarrow> snd (resubscribe uri server_id (resolve_rebind_owner server_id rs w) w)
      | Prune _ _ \<Rightarrow> w)"

definition sweep_subscription_routes :: "router_state \<Rightarrow> registry \<Rightarrow> registry" where
  "sweep_subscription_routes rs w =
     fold (execute_rebind rs) (classify_route_changes (resource_routes rs) (resource_routes rs) w) w"

subsection \<open>What a client is told is true\<close>



text \<open>A refresh that finds nothing to do has left nothing behind: every confirmed entry is on the published owner's present connection.\<close>

lemma classified_clean:
  assumes "classify_route_changes old_routes new_routes w = []" "owner_resolver_set w"
    "hget (sub_entries w) uri = Some e" "entry_state e = Active" "owner_server_id e = Some owner"
  shows "hget new_routes uri = Some owner \<and>
    (\<forall>up g. hget (manager w) owner = Some up \<longrightarrow> owner_connection_generation e = Some g \<longrightarrow> connection_generation up w = g)"
proof -
  have "classify_entry old_routes new_routes w uri e = []"
    using assms(1) map_of_SomeD [OF assms(3)] by (auto simp: classify_route_changes_def)
  then show ?thesis
    using assms(2,4,5) by (auto simp: classify_entry_def owner_connection_is_stale_def drain_handle_def split: option.splits if_splits)
qed

text \<open>A client that the rules keep from the server hears nothing of its resources.\<close>

lemma blocked_client_hears_nothing:
  assumes "hget (subscriber_client_keys rs) target = Some key" "owner_snapshot uri w = Some (Some owner)"
    "\<not> client_may_use_all_of_server (access_rules rs) (Some key) owner"
  shows "target \<notin> set (route_upstream_resource_updated uri rs w)"
  using assms by (auto simp: route_upstream_resource_updated_def Let_def split: option.splits)

end
