(* ===== verification/Oauth_Clients.thy ===== *)
theory Oauth_Clients
  imports Rust_Strings
begin

section \<open>Which OAuth clients are accepted (\<open>downstream_oauth/mod.rs\<close>)\<close>

text \<open>
  The rules for client registrations, redirect addresses, scopes and client metadata documents.
  \<^item> IP addresses as the standard library has them: octets and segments as words, the
    parser of \<open>core::net\<close> as recursive descent on the text, and the predicates on
    them.
  \<^item> \<open>forbidden_metadata_ip\<close> and the fetch of a metadata document, with the name lookup
    and the HTTP exchange as inputs.
  \<^item> Redirect addresses: the \<open>url\<close> crate's parser is a parameter, from text to the parts of
    a URL; equality of URLs is equality of all parts.
  The theorems show that the address filter is exactly the list of special-purpose blocks, that no
  IPv6 notation of an IPv4 address escapes it, that a document is only ever read from addresses that
  pass it, and that a redirect address that is accepted differs from a registered one at most in
  the port of a loopback address.
\<close>

type_synonym u16 = "16 word"

subsection \<open>IP addresses\<close>

datatype ip_addr =
    V4 u8 u8 u8 u8
  | V6 u16 u16 u16 u16 u16 u16 u16 u16

fun is_ipv4_loopback :: "ip_addr \<Rightarrow> bool" where
  "is_ipv4_loopback (V4 a b c d) \<longleftrightarrow> a = 127"
| "is_ipv4_loopback (V6 _ _ _ _ _ _ _ _) \<longleftrightarrow> False"

fun is_v6_loopback :: "ip_addr \<Rightarrow> bool" where
  "is_v6_loopback (V6 a b c d e f g h) \<longleftrightarrow> a = 0 \<and> b = 0 \<and> c = 0 \<and> d = 0 \<and> e = 0 \<and> f = 0 \<and> g = 0 \<and> h = 1"
| "is_v6_loopback (V4 _ _ _ _) \<longleftrightarrow> False"

fun is_v6_unspecified :: "ip_addr \<Rightarrow> bool" where
  "is_v6_unspecified (V6 a b c d e f g h) \<longleftrightarrow> a = 0 \<and> b = 0 \<and> c = 0 \<and> d = 0 \<and> e = 0 \<and> f = 0 \<and> g = 0 \<and> h = 0"
| "is_v6_unspecified (V4 _ _ _ _) \<longleftrightarrow> False"

definition ip_is_loopback :: "ip_addr \<Rightarrow> bool" where
  "ip_is_loopback ip \<longleftrightarrow> is_ipv4_loopback ip \<or> is_v6_loopback ip"

text \<open>\<open>Ipv6Addr::to_canonical\<close>: the IPv4-mapped form becomes the IPv4 address it carries.\<close>

fun to_canonical :: "ip_addr \<Rightarrow> ip_addr" where
  "to_canonical (V6 a b c d e f g h) =
     (if a = 0 \<and> b = 0 \<and> c = 0 \<and> d = 0 \<and> e = 0 \<and> f = 0xffff
      then V4 (ucast (drop_bit 8 g)) (ucast g) (ucast (drop_bit 8 h)) (ucast h)
      else V6 a b c d e f g h)"
| "to_canonical (V4 a b c d) = V4 a b c d"

fun is_ipv4_bearing_ipv6 :: "ip_addr \<Rightarrow> bool" where
  "is_ipv4_bearing_ipv6 (V6 a b c d e f g h) \<longleftrightarrow>
     (a = 0 \<and> b = 0 \<and> c = 0 \<and> d = 0 \<and> e = 0 \<and> f = 0 \<and>
        \<not> is_v6_unspecified (V6 a b c d e f g h) \<and> \<not> is_v6_loopback (V6 a b c d e f g h)) \<or>
     a = 0x2002 \<or>
     (a = 0x0064 \<and> b = 0xff9b \<and> c = 0 \<and> d = 0 \<and> e = 0 \<and> f = 0) \<or>
     (a = 0x0064 \<and> b = 0xff9b \<and> c = 0x0001)"
| "is_ipv4_bearing_ipv6 (V4 _ _ _ _) \<longleftrightarrow> False"

unbundle bit_operations_syntax

fun forbidden_canonical :: "ip_addr \<Rightarrow> bool" where
  "forbidden_canonical (V4 a b c d) \<longleftrightarrow>
     a = 10 \<or> (a = 172 \<and> 16 \<le> b \<and> b \<le> 31) \<or> (a = 192 \<and> b = 168) \<or>
     a = 127 \<or>
     (a = 169 \<and> b = 254) \<or>
     (a = 255 \<and> b = 255 \<and> c = 255 \<and> d = 255) \<or>
     (a = 192 \<and> b = 0 \<and> c = 2) \<or> (a = 198 \<and> b = 51 \<and> c = 100) \<or> (a = 203 \<and> b = 0 \<and> c = 113) \<or>
     (a = 0 \<and> b = 0 \<and> c = 0 \<and> d = 0) \<or>
     (224 \<le> a \<and> a \<le> 239) \<or>
     a = 0 \<or>
     (a = 100 \<and> 64 \<le> b \<and> b \<le> 127) \<or>
     (a = 198 \<and> (b = 18 \<or> b = 19)) \<or>
     240 \<le> a"
| "forbidden_canonical (V6 a b c d e f g h) \<longleftrightarrow>
     is_v6_loopback (V6 a b c d e f g h) \<or> is_v6_unspecified (V6 a b c d e f g h) \<or>
     a AND 0xfe00 = 0xfc00 \<or> a AND 0xffc0 = 0xfe80 \<or> drop_bit 8 a = 0xff"

definition forbidden_metadata_ip :: "ip_addr \<Rightarrow> bool" where
  "forbidden_metadata_ip ip \<longleftrightarrow>
     (if is_ipv4_bearing_ipv6 ip then True else forbidden_canonical (to_canonical ip))"

subsection \<open>Reading IP addresses\<close>

text \<open>
  The parser of \<open>core::net\<close>: every reader returns what it read and the rest of the text,
  or \<open>None\<close> with nothing consumed.
\<close>

definition hex_val :: "char \<Rightarrow> nat option" where
  "hex_val c =
     (if is_digit c then Some (code c - 48)
      else if 97 \<le> code c \<and> code c \<le> 102 then Some (code c - 87)
      else if 65 \<le> code c \<and> code c \<le> 70 then Some (code c - 55)
      else None)"

definition in_radix :: "nat \<Rightarrow> char \<Rightarrow> nat option" where
  "in_radix radix c = (case hex_val c of Some v \<Rightarrow> if v < radix then Some v else None | None \<Rightarrow> None)"

definition number_val :: "nat \<Rightarrow> string \<Rightarrow> nat" where
  "number_val radix ds = foldl (\<lambda>n c. n * radix + the (in_radix radix c)) 0 ds"

text \<open>\<open>read_number\<close>: more digits than allowed, a value out of range or a forbidden leading zero is no number.\<close>

definition read_number :: "nat \<Rightarrow> nat \<Rightarrow> nat \<Rightarrow> bool \<Rightarrow> string \<Rightarrow> (nat \<times> string) option" where
  "read_number radix max_digits bound zero_prefix s =
     (let ds = takeWhile (\<lambda>c. in_radix radix c \<noteq> None) s; n = number_val radix ds
      in if ds = [] \<or> max_digits < length ds \<or> bound \<le> n \<or> (\<not> zero_prefix \<and> hd ds = CHR ''0'' \<and> 1 < length ds)
         then None else Some (n, drop (length ds) s))"

definition read_given_char :: "char \<Rightarrow> string \<Rightarrow> string option" where
  "read_given_char c s = (case s of x # xs \<Rightarrow> if x = c then Some xs else None | [] \<Rightarrow> None)"

text \<open>\<open>read_separator\<close>: no separator before the first element.\<close>

definition read_separator :: "char \<Rightarrow> nat \<Rightarrow> (string \<Rightarrow> ('a \<times> string) option) \<Rightarrow> string \<Rightarrow> ('a \<times> string) option" where
  "read_separator sep i p s =
     (if i = 0 then p s else case read_given_char sep s of None \<Rightarrow> None | Some rest \<Rightarrow> p rest)"

definition read_octet :: "nat \<Rightarrow> string \<Rightarrow> (nat \<times> string) option" where
  "read_octet i = read_separator (CHR ''.'') i (read_number 10 3 256 False)"

definition read_ipv4_addr :: "string \<Rightarrow> ((nat \<times> nat \<times> nat \<times> nat) \<times> string) option" where
  "read_ipv4_addr s =
     (case read_octet 0 s of None \<Rightarrow> None | Some (a, s1) \<Rightarrow>
      (case read_octet 1 s1 of None \<Rightarrow> None | Some (b, s2) \<Rightarrow>
      (case read_octet 2 s2 of None \<Rightarrow> None | Some (c, s3) \<Rightarrow>
      (case read_octet 3 s3 of None \<Rightarrow> None | Some (d, s4) \<Rightarrow> Some ((a, b, c, d), s4)))))"

text \<open>
  The groups read, whether the last two came from an IPv4 tail, and the rest; \<open>i\<close> counts the groups
  so far and \<open>left\<close> those that still fit.
\<close>

fun read_groups :: "nat \<Rightarrow> nat \<Rightarrow> string \<Rightarrow> nat list \<times> bool \<times> string" where
  "read_groups i 0 s = ([], False, s)"
| "read_groups i (Suc left) s =
     (case (if left = 0 then None else read_separator (CHR '':'') i read_ipv4_addr s) of
        Some ((a, b, c, d), rest) \<Rightarrow> ([a * 256 + b, c * 256 + d], True, rest)
      | None \<Rightarrow>
          (case read_separator (CHR '':'') i (read_number 16 4 65536 True) s of
             None \<Rightarrow> ([], False, s)
           | Some (g, rest) \<Rightarrow>
               (case read_groups (Suc i) left rest of (gs, tail4, rest') \<Rightarrow> (g # gs, tail4, rest'))))"

definition v6_of :: "nat list \<Rightarrow> ip_addr" where
  "v6_of gs = V6 (of_nat (gs ! 0)) (of_nat (gs ! 1)) (of_nat (gs ! 2)) (of_nat (gs ! 3))
     (of_nat (gs ! 4)) (of_nat (gs ! 5)) (of_nat (gs ! 6)) (of_nat (gs ! 7))"

definition read_ipv6_addr :: "string \<Rightarrow> (ip_addr \<times> string) option" where
  "read_ipv6_addr s =
     (case read_groups 0 8 s of (head, head4, s1) \<Rightarrow>
        if length head = 8 then Some (v6_of head, s1)
        else if head4 then None
        else case read_given_char (CHR '':'') s1 of
          None \<Rightarrow> None
        | Some s2 \<Rightarrow>
            (case read_given_char (CHR '':'') s2 of
               None \<Rightarrow> None
             | Some s3 \<Rightarrow>
                 (case read_groups 0 (7 - length head) s3 of (rest, _, s4) \<Rightarrow>
                    Some (v6_of (head @ replicate (8 - length head - length rest) 0 @ rest), s4))))"

definition parse_ip :: "string \<Rightarrow> ip_addr option" where
  "parse_ip s =
     (case (case read_ipv4_addr s of
              Some ((a, b, c, d), rest) \<Rightarrow> Some (V4 (of_nat a) (of_nat b) (of_nat c) (of_nat d), rest)
            | None \<Rightarrow> read_ipv6_addr s) of
        Some (ip, []) \<Rightarrow> Some ip
      | _ \<Rightarrow> None)"

definition is_loopback_host :: "string \<Rightarrow> bool" where
  "is_loopback_host host \<longleftrightarrow>
     map to_lower host = ''localhost'' \<or>
     (case parse_ip (rev (dropWhile (\<lambda>c. c = CHR ''['' \<or> c = CHR '']'')
              (rev (dropWhile (\<lambda>c. c = CHR ''['' \<or> c = CHR '']'') host)))) of
        Some ip \<Rightarrow> ip_is_loopback ip
      | None \<Rightarrow> False)"

subsection \<open>Redirect addresses\<close>

record url =
  url_scheme :: string
  url_username :: string
  url_password :: "string option"
  url_host :: "string option"
  url_port :: "u16 option"
  url_path :: string
  url_query :: "string option"
  url_fragment :: "string option"

type_synonym url_parser = "string \<Rightarrow> url option"

definition CURSOR_NATIVE_REDIRECT :: string where
  "CURSOR_NATIVE_REDIRECT = ''cursor://anysphere.cursor-mcp/oauth/callback''"

definition host_is_loopback :: "url \<Rightarrow> bool" where
  "host_is_loopback u \<longleftrightarrow> (case url_host u of Some h \<Rightarrow> is_loopback_host h | None \<Rightarrow> False)"

definition valid_redirect_uri :: "url_parser \<Rightarrow> string \<Rightarrow> bool" where
  "valid_redirect_uri parse uri \<longleftrightarrow>
     (if uri = CURSOR_NATIVE_REDIRECT then True
      else case parse uri of
        None \<Rightarrow> False
      | Some u \<Rightarrow>
          if url_username u \<noteq> [] \<or> url_password u \<noteq> None \<or> url_fragment u \<noteq> None \<or> url_host u = None then False
          else if url_scheme u = ''https'' then True
          else if url_scheme u = ''http'' then host_is_loopback u
          else False)"

text \<open>\<open>Url::set_port(None)\<close>, which refuses a URL without a host and a file URL.\<close>

definition without_port :: "url \<Rightarrow> url option" where
  "without_port u =
     (if url_host u = None \<or> url_host u = Some [] \<or> url_scheme u = ''file'' then None else Some (u \<lparr>url_port := None\<rparr>))"

definition registered_redirect_matches :: "url_parser \<Rightarrow> string \<Rightarrow> string \<Rightarrow> bool" where
  "registered_redirect_matches parse registered requested \<longleftrightarrow>
     (if registered = requested then True
      else if \<not> valid_redirect_uri parse registered \<or> \<not> valid_redirect_uri parse requested then False
      else case (parse registered, parse requested) of
        (Some u, Some v) \<Rightarrow>
          if url_scheme u \<noteq> ''http'' \<or> url_scheme v \<noteq> ''http'' \<or> \<not> host_is_loopback u \<or> \<not> host_is_loopback v then False
          else (case (without_port u, without_port v) of
                  (Some u', Some v') \<Rightarrow> u' = v'
                | _ \<Rightarrow> False)
      | _ \<Rightarrow> False)"

subsection \<open>Registrations and metadata documents\<close>

datatype oauth_error =
    InvalidClient
  | InvalidClientMetadata
  | InvalidRedirectUri
  | InvalidAuthorizationRequest
  | AuthorizationExpired string string
  | AccessDenied
  | InvalidGrant
  | PkceVerificationFailed
  | UnsupportedGrantType
  | UnsupportedClientAuthMethod
  | RateLimited
  | RegistrationQuotaExceeded
  | InvalidScope
  | InvalidResource
  | Persistence
  | MetadataFetch
  | OwnerNotEnrolled
  | InvalidOwnerBootstrap
  | OwnerChallengeExpired
  | InvalidOwnerAssertion
  | OwnerCredentialLimit
  | OwnerCredentialNotFound

record registration_request =
  rr_redirect_uris :: "string list"
  rr_client_name :: "string option"
  rr_auth_method :: "string option"
  rr_grant_types :: "string list option"
  rr_response_types :: "string list option"

definition or_none :: "string option \<Rightarrow> string" where
  "or_none m = (case m of Some v \<Rightarrow> v | None \<Rightarrow> ''none'')"

definition validate_registration_request :: "url_parser \<Rightarrow> registration_request \<Rightarrow> oauth_error + unit" where
  "validate_registration_request parse r =
     (if rr_redirect_uris r = [] \<or> 10 < length (rr_redirect_uris r) \<or>
         list_ex (\<lambda>uri. \<not> valid_redirect_uri parse uri) (rr_redirect_uris r) \<or>
         or_none (rr_auth_method r) \<noteq> ''none'' \<or>
         (case rr_grant_types r of
            Some items \<Rightarrow> list_ex (\<lambda>i. i \<noteq> ''authorization_code'' \<and> i \<noteq> ''refresh_token'') items
          | None \<Rightarrow> False) \<or>
         (case rr_response_types r of Some items \<Rightarrow> list_ex (\<lambda>i. i \<noteq> ''code'') items | None \<Rightarrow> False)
      then Inl InvalidClientMetadata else Inr ())"

text \<open>The clean-up \<open>register_client\<close> does first: invalid addresses dropped, the rest sorted, repetitions removed.\<close>

definition clean_redirects :: "url_parser \<Rightarrow> registration_request \<Rightarrow> registration_request" where
  "clean_redirects parse r =
     r \<lparr>rr_redirect_uris := remdups_adj (sort (filter (valid_redirect_uri parse) (rr_redirect_uris r)))\<rparr>"

definition trim :: "string \<Rightarrow> string" where
  "trim s = rev (dropWhile is_whitespace (rev (dropWhile is_whitespace s)))"

definition is_control :: "char \<Rightarrow> bool" where
  "is_control c \<longleftrightarrow> code c < 32 \<or> code c = 127"

definition safe_client_name :: "string option \<Rightarrow> string" where
  "safe_client_name v =
     (let sanitized = take 120 (filter (\<lambda>c. \<not> is_control c) (trim (case v of Some s \<Rightarrow> s | None \<Rightarrow> [])))
      in if sanitized = [] then ''MCP client'' else sanitized)"

record metadata_document =
  md_client_id :: string
  md_client_name :: "string option"
  md_redirect_uris :: "string list"
  md_auth_method :: "string option"
  md_auth_methods_supported :: "string list option"
  md_grant_types :: "string list option"
  md_response_types :: "string list option"

definition validate_metadata_document :: "url_parser \<Rightarrow> string \<Rightarrow> metadata_document \<Rightarrow> oauth_error + unit" where
  "validate_metadata_document parse expected d =
     (let public = (case md_auth_methods_supported d of
            Some methods \<Rightarrow> list_ex (\<lambda>m. m = ''none'') methods
          | None \<Rightarrow> or_none (md_auth_method d) = ''none'');
          secret = list_ex (starts_with ''client_secret_'')
            ((case md_auth_method d of Some m \<Rightarrow> [m] | None \<Rightarrow> []) @
             (case md_auth_methods_supported d of Some ms \<Rightarrow> ms | None \<Rightarrow> []))
      in if md_client_id d \<noteq> expected \<or> md_redirect_uris d = [] \<or> 10 < length (md_redirect_uris d) \<or>
            list_ex (\<lambda>uri. \<not> valid_redirect_uri parse uri) (md_redirect_uris d) \<or> \<not> public \<or> secret \<or>
            (case md_grant_types d of Some items \<Rightarrow> \<not> list_ex (\<lambda>i. i = ''authorization_code'') items | None \<Rightarrow> False) \<or>
            (case md_response_types d of Some items \<Rightarrow> \<not> list_ex (\<lambda>i. i = ''code'') items | None \<Rightarrow> False)
         then Inl InvalidClientMetadata else Inr ())"

subsection \<open>Fetching a metadata document\<close>

definition MAX_METADATA_DOCUMENT_BYTES :: nat where
  "MAX_METADATA_DOCUMENT_BYTES = 64 * 1024"

text \<open>
  What the network does during one fetch: the addresses of a name (\<open>None\<close> when the lookup
  fails), the answer of the pinned address (\<open>None\<close> when the exchange fails) and its body,
  chunk by chunk (\<open>None\<close> for a read that fails).
\<close>

record http_response =
  hr_success :: bool
  hr_content_length :: "nat option"
  hr_chunks :: "string option list"

record network =
  nw_lookup :: "string \<Rightarrow> u16 \<Rightarrow> ip_addr list option"
  nw_get :: "ip_addr \<Rightarrow> string \<Rightarrow> http_response option"

fun read_capped_body :: "nat \<Rightarrow> string \<Rightarrow> string option list \<Rightarrow> oauth_error + string" where
  "read_capped_body cap body [] = Inr body"
| "read_capped_body cap body (None # _) = Inl MetadataFetch"
| "read_capped_body cap body (Some chunk # chunks) =
     (if cap < length body + length chunk then Inl MetadataFetch else read_capped_body cap (body @ chunk) chunks)"

definition port_or_known_default :: "url \<Rightarrow> u16" where
  "port_or_known_default u =
     (case url_port u of Some p \<Rightarrow> p | None \<Rightarrow> if url_scheme u = ''http'' then 80 else 443)"

text \<open>\<open>decode\<close> stands for \<open>serde_json\<close> reading the document. The second component lists the addresses that were contacted.\<close>

definition fetch_client_metadata_document ::
  "url_parser \<Rightarrow> (string \<Rightarrow> metadata_document option) \<Rightarrow> network \<Rightarrow> string \<Rightarrow> (oauth_error + metadata_document) \<times> ip_addr list" where
  "fetch_client_metadata_document parse decode net client_id =
     (case parse client_id of
        None \<Rightarrow> (Inl InvalidClient, [])
      | Some u \<Rightarrow>
          if url_scheme u \<noteq> ''https'' \<or> url_username u \<noteq> [] \<or> url_password u \<noteq> None \<or> url_query u \<noteq> None \<or> url_fragment u \<noteq> None
          then (Inl InvalidClient, [])
          else case url_host u of
            None \<Rightarrow> (Inl InvalidClient, [])
          | Some host \<Rightarrow>
              (case nw_lookup net host (port_or_known_default u) of
                 None \<Rightarrow> (Inl MetadataFetch, [])
               | Some resolved \<Rightarrow>
                   if resolved = [] \<or> list_ex forbidden_metadata_ip resolved then (Inl MetadataFetch, [])
                   else
                     ((case nw_get net (hd resolved) client_id of
                         None \<Rightarrow> Inl MetadataFetch
                       | Some response \<Rightarrow>
                           if \<not> hr_success response \<or>
                              (case hr_content_length response of Some n \<Rightarrow> MAX_METADATA_DOCUMENT_BYTES < n | None \<Rightarrow> False)
                           then Inl MetadataFetch
                           else case read_capped_body MAX_METADATA_DOCUMENT_BYTES [] (hr_chunks response) of
                             Inl e \<Rightarrow> Inl e
                           | Inr bytes \<Rightarrow> (case decode bytes of Some d \<Rightarrow> Inr d | None \<Rightarrow> Inl InvalidClientMetadata)),
                      [hd resolved])))"

subsection \<open>Scopes\<close>

definition validate_scopes :: "string list \<Rightarrow> string option \<Rightarrow> oauth_error + string list" where
  "validate_scopes allowed requested =
     (let scopes = (case requested of Some v \<Rightarrow> split_whitespace v | None \<Rightarrow> allowed)
      in if scopes = [] \<or> list_ex (\<lambda>s. s \<notin> set allowed) scopes then Inl InvalidScope
         else Inr (remdups_adj (sort scopes)))"

definition resource_scopes :: "string list \<Rightarrow> string list" where
  "resource_scopes scopes = filter (\<lambda>s. s \<noteq> ''offline_access'') scopes"

subsection \<open>What the address filter lets through\<close>

definition ipv4_value :: "u8 \<Rightarrow> u8 \<Rightarrow> u8 \<Rightarrow> u8 \<Rightarrow> nat" where
  "ipv4_value a b c d = ((unat a * 256 + unat b) * 256 + unat c) * 256 + unat d"

text \<open>A block is a base address and the length of the prefix its members share with it.\<close>

definition in_block :: "nat \<Rightarrow> nat \<times> nat \<Rightarrow> bool" where
  "in_block n block = (case block of (base, len) \<Rightarrow> n div 2 ^ (32 - len) = base div 2 ^ (32 - len))"

definition special_purpose_blocks :: "(nat \<times> nat) list" where
  "special_purpose_blocks =
     [(ipv4_value 0 0 0 0, 8), (ipv4_value 10 0 0 0, 8), (ipv4_value 100 64 0 0, 10), (ipv4_value 127 0 0 0, 8),
      (ipv4_value 169 254 0 0, 16), (ipv4_value 172 16 0 0, 12), (ipv4_value 192 0 2 0, 24), (ipv4_value 192 168 0 0, 16),
      (ipv4_value 198 18 0 0, 15), (ipv4_value 198 51 100 0, 24), (ipv4_value 203 0 113 0, 24), (ipv4_value 224 0 0 0, 4),
      (ipv4_value 240 0 0 0, 4)]"

lemma div_digit: "(d :: nat) < k \<Longrightarrow> (m * k + d) div k = m"
  by simp

lemma octet_div:
  fixes a b c d :: nat
  assumes less: "b < 256" "c < 256" "d < 256"
  defines "n \<equiv> ((a * 256 + b) * 256 + c) * 256 + d"
  shows "n div 2 ^ 8 = (a * 256 + b) * 256 + c" "n div 2 ^ 16 = a * 256 + b" "n div 2 ^ 24 = a"
    "n div 2 ^ 17 = a * 128 + b div 2" "n div 2 ^ 20 = a * 16 + b div 16" "n div 2 ^ 22 = a * 4 + b div 64"
    "n div 2 ^ 28 = a div 16"
proof -
  have down: "n div 2 ^ (k + l) = n div 2 ^ k div 2 ^ l" for k l by (simp add: power_add div_mult2_eq)
  have part: "(a * (2 ^ l * k) + b) div 2 ^ l = a * k + b div 2 ^ l" for k l :: nat
    by (simp add: ac_simps flip: mult.assoc)
  show d8: "n div 2 ^ 8 = (a * 256 + b) * 256 + c" unfolding n_def using div_digit [OF less(3)] by simp
  show d16: "n div 2 ^ 16 = a * 256 + b" using down [of 8 8] div_digit [OF less(2)] d8 by simp
  show "n div 2 ^ 24 = a" using down [of 16 8] div_digit [OF less(1)] d16 by simp
  then show "n div 2 ^ 28 = a div 16" using down [of 24 4] by simp
  show "n div 2 ^ 17 = a * 128 + b div 2" using down [of 16 1] part [of 1 128] d16 by simp
  show "n div 2 ^ 20 = a * 16 + b div 16" using down [of 16 4] part [of 4 16] d16 by simp
  show "n div 2 ^ 22 = a * 4 + b div 64" using down [of 16 6] part [of 6 4] d16 by simp
qed

lemma unat_u8_less: "unat (x :: u8) < 256"
  using unsigned_less [of x, where ?'a = nat] by simp

lemma block_cases:
  fixes a b c d :: u8
  shows "in_block (ipv4_value a b c d) (base, 8) \<longleftrightarrow> unat a = base div 2 ^ 24"
    "in_block (ipv4_value a b c d) (base, 16) \<longleftrightarrow> unat a * 256 + unat b = base div 2 ^ 16"
    "in_block (ipv4_value a b c d) (base, 24) \<longleftrightarrow> (unat a * 256 + unat b) * 256 + unat c = base div 2 ^ 8"
    "in_block (ipv4_value a b c d) (base, 10) \<longleftrightarrow> unat a * 4 + unat b div 64 = base div 2 ^ 22"
    "in_block (ipv4_value a b c d) (base, 12) \<longleftrightarrow> unat a * 16 + unat b div 16 = base div 2 ^ 20"
    "in_block (ipv4_value a b c d) (base, 15) \<longleftrightarrow> unat a * 128 + unat b div 2 = base div 2 ^ 17"
    "in_block (ipv4_value a b c d) (base, 4) \<longleftrightarrow> unat a div 16 = base div 2 ^ 28"
proof -
  note div = octet_div [OF unat_u8_less [of b] unat_u8_less [of c] unat_u8_less [of d], of "unat a"]
  have len: "(32 :: nat) - 8 = 24" "(32 :: nat) - 16 = 16" "(32 :: nat) - 24 = 8" "(32 :: nat) - 10 = 22"
    "(32 :: nat) - 12 = 20" "(32 :: nat) - 15 = 17" "(32 :: nat) - 4 = 28" by simp_all
  show "in_block (ipv4_value a b c d) (base, 8) \<longleftrightarrow> unat a = base div 2 ^ 24"
    "in_block (ipv4_value a b c d) (base, 16) \<longleftrightarrow> unat a * 256 + unat b = base div 2 ^ 16"
    "in_block (ipv4_value a b c d) (base, 24) \<longleftrightarrow> (unat a * 256 + unat b) * 256 + unat c = base div 2 ^ 8"
    "in_block (ipv4_value a b c d) (base, 10) \<longleftrightarrow> unat a * 4 + unat b div 64 = base div 2 ^ 22"
    "in_block (ipv4_value a b c d) (base, 12) \<longleftrightarrow> unat a * 16 + unat b div 16 = base div 2 ^ 20"
    "in_block (ipv4_value a b c d) (base, 15) \<longleftrightarrow> unat a * 128 + unat b div 2 = base div 2 ^ 17"
    "in_block (ipv4_value a b c d) (base, 4) \<longleftrightarrow> unat a div 16 = base div 2 ^ 28"
    by (simp_all only: in_block_def ipv4_value_def prod.case len div)
qed

lemma u8_numeral:
  fixes x :: u8
  shows "x = numeral k \<longleftrightarrow> unat x = unat (numeral k :: u8)" "x = 0 \<longleftrightarrow> unat x = 0"
    "numeral k \<le> x \<longleftrightarrow> unat (numeral k :: u8) \<le> unat x" "x \<le> numeral k \<longleftrightarrow> unat x \<le> unat (numeral k :: u8)"
  by (simp_all only: word_unat_eq_iff word_le_nat_alt unsigned_0)

text \<open>
  The tests on the octets of an IPv4 address are exactly membership in the thirteen special-purpose blocks,
  each given by a base address and a prefix length: this-network, private, shared, loopback,
  link-local, documentation, benchmarking, multicast and reserved addresses, and no others.
\<close>

theorem forbidden_blocks_exact:
  "forbidden_metadata_ip (V4 a b c d) \<longleftrightarrow> list_ex (in_block (ipv4_value a b c d)) special_purpose_blocks"
proof -
  have less: "unat a < 256" "unat b < 256" "unat c < 256" by (rule unat_u8_less)+
  have ranges: "64 \<le> unat b \<and> unat b \<le> 127 \<longleftrightarrow> unat b div 64 = 1" "16 \<le> unat b \<and> unat b \<le> 31 \<longleftrightarrow> unat b div 16 = 1"
    "unat b = 18 \<or> unat b = 19 \<longleftrightarrow> unat b div 2 = 9" "224 \<le> unat a \<and> unat a \<le> 239 \<longleftrightarrow> unat a div 16 = 14"
    "240 \<le> unat a \<longleftrightarrow> unat a div 16 = 15"
    using less by linarith+
  have split2: "unat a * k + unat b div m = p * k + q \<longleftrightarrow> unat a = p \<and> unat b div m = q"
    if "unat b div m < k" "q < k" for k m p q
    using that by (metis div_digit add_left_cancel)
  have split3: "(unat a * 256 + unat b) * 256 + unat c = (p * 256 + q) * 256 + r \<longleftrightarrow> unat a = p \<and> unat b = q \<and> unat c = r"
    if "q < 256" "r < 256" for p q r
    using that less by (metis div_digit add_left_cancel)
  have s: "unat a * 4 + unat b div 64 = 100 * 4 + 1 \<longleftrightarrow> unat a = 100 \<and> unat b div 64 = 1"
    "unat a * 256 + unat b div 1 = 169 * 256 + 254 \<longleftrightarrow> unat a = 169 \<and> unat b div 1 = 254"
    "unat a * 16 + unat b div 16 = 172 * 16 + 1 \<longleftrightarrow> unat a = 172 \<and> unat b div 16 = 1"
    "unat a * 256 + unat b div 1 = 192 * 256 + 168 \<longleftrightarrow> unat a = 192 \<and> unat b div 1 = 168"
    "unat a * 128 + unat b div 2 = 198 * 128 + 9 \<longleftrightarrow> unat a = 198 \<and> unat b div 2 = 9"
    "(unat a * 256 + unat b) * 256 + unat c = (192 * 256 + 0) * 256 + 2 \<longleftrightarrow> unat a = 192 \<and> unat b = 0 \<and> unat c = 2"
    "(unat a * 256 + unat b) * 256 + unat c = (198 * 256 + 51) * 256 + 100 \<longleftrightarrow> unat a = 198 \<and> unat b = 51 \<and> unat c = 100"
    "(unat a * 256 + unat b) * 256 + unat c = (203 * 256 + 0) * 256 + 113 \<longleftrightarrow> unat a = 203 \<and> unat b = 0 \<and> unat c = 113"
    by (rule split2 split3; insert less, (linarith | simp))+
  have "list_ex (in_block (ipv4_value a b c d)) special_purpose_blocks \<longleftrightarrow>
      unat a = 0 \<or> unat a = 10 \<or> unat a * 4 + unat b div 64 = 100 * 4 + 1 \<or> unat a = 127 \<or>
      unat a * 256 + unat b div 1 = 169 * 256 + 254 \<or> unat a * 16 + unat b div 16 = 172 * 16 + 1 \<or>
      (unat a * 256 + unat b) * 256 + unat c = (192 * 256 + 0) * 256 + 2 \<or> unat a * 256 + unat b div 1 = 192 * 256 + 168 \<or>
      unat a * 128 + unat b div 2 = 198 * 128 + 9 \<or> (unat a * 256 + unat b) * 256 + unat c = (198 * 256 + 51) * 256 + 100 \<or>
      (unat a * 256 + unat b) * 256 + unat c = (203 * 256 + 0) * 256 + 113 \<or> unat a div 16 = 14 \<or> unat a div 16 = 15"
    unfolding special_purpose_blocks_def list_ex_iff list.set Set.ball_simps Set.bex_simps block_cases by (simp add: ipv4_value_def)
  also have "\<dots> \<longleftrightarrow>
      unat a = 0 \<or> unat a = 10 \<or> (unat a = 100 \<and> 64 \<le> unat b \<and> unat b \<le> 127) \<or> unat a = 127 \<or> (unat a = 169 \<and> unat b = 254) \<or>
      (unat a = 172 \<and> 16 \<le> unat b \<and> unat b \<le> 31) \<or> (unat a = 192 \<and> unat b = 0 \<and> unat c = 2) \<or> (unat a = 192 \<and> unat b = 168) \<or>
      (unat a = 198 \<and> (unat b = 18 \<or> unat b = 19)) \<or> (unat a = 198 \<and> unat b = 51 \<and> unat c = 100) \<or>
      (unat a = 203 \<and> unat b = 0 \<and> unat c = 113) \<or> (224 \<le> unat a \<and> unat a \<le> 239) \<or> 240 \<le> unat a"
    unfolding ranges s by simp
  also have "\<dots> \<longleftrightarrow> forbidden_metadata_ip (V4 a b c d)"
    unfolding forbidden_metadata_ip_def is_ipv4_bearing_ipv6.simps to_canonical.simps forbidden_canonical.simps u8_numeral
    by (rule iffI; (simp only: if_False)?; elim disjE conjE; simp)
  finally show ?thesis by simp
qed

text \<open>The IPv6 notations that carry an IPv4 address: mapped, compatible, 6to4 and the two NAT64 prefixes.\<close>

definition octet_pair :: "u8 \<Rightarrow> u8 \<Rightarrow> u16" where
  "octet_pair a b = push_bit 8 (ucast a) OR ucast b"

lemma octet_pair_parts: "ucast (drop_bit 8 (octet_pair a b)) = a" "ucast (octet_pair a b) = b"
  unfolding octet_pair_def
  by (rule bit_word_eqI; auto simp: bit_simps dest: bit_imp_le_length)+

lemma octet_pair_0: "octet_pair a b = 0 \<longleftrightarrow> a = 0 \<and> b = 0"
  using octet_pair_parts [of a b] by (auto simp: octet_pair_def)

text \<open>
  No IPv6 notation of an IPv4 address escapes the filter: the mapped notation is refused exactly when the
  address itself is, and the compatible, 6to4 and NAT64 notations are always refused, whatever the
  remaining segments hold.
\<close>

theorem ipv4_in_ipv6_filtered:
  "forbidden_metadata_ip (V6 0 0 0 0 0 0xffff (octet_pair a b) (octet_pair c d)) = forbidden_metadata_ip (V4 a b c d) \<and>
   forbidden_metadata_ip (V6 0 0 0 0 0 0 (octet_pair a b) (octet_pair c d)) \<and>
   forbidden_metadata_ip (V6 0x2002 (octet_pair a b) (octet_pair c d) s3 s4 s5 s6 s7) \<and>
   forbidden_metadata_ip (V6 0x64 0xff9b 0 0 0 0 (octet_pair a b) (octet_pair c d)) \<and>
   forbidden_metadata_ip (V6 0x64 0xff9b 1 s3 s4 s5 s6 s7)"
  by (auto simp: forbidden_metadata_ip_def octet_pair_parts octet_pair_0)

subsection \<open>What is fetched and accepted\<close>

lemma read_capped_body_bound:
  "read_capped_body cap body chunks = Inr bytes \<Longrightarrow> length body \<le> cap \<Longrightarrow>
     length bytes \<le> cap \<and> bytes = body @ concat (map the chunks) \<and> None \<notin> set chunks"
  by (induction cap body chunks rule: read_capped_body.induct) (auto split: if_splits)


definition demo_url :: url where
  "demo_url = \<lparr>url_scheme = ''https'', url_username = [], url_password = None, url_host = Some ''app.test'', url_port = None,
     url_path = ''/client'', url_query = None, url_fragment = None\<rparr>"

definition demo_document :: metadata_document where
  "demo_document = \<lparr>md_client_id = ''c'', md_client_name = None, md_redirect_uris = [CURSOR_NATIVE_REDIRECT],
     md_auth_method = None, md_auth_methods_supported = None, md_grant_types = None, md_response_types = None\<rparr>"

definition demo_network :: network where
  "demo_network = \<lparr>nw_lookup = (\<lambda>host port. Some [V4 8 8 8 8]),
     nw_get = (\<lambda>ip url. Some \<lparr>hr_success = True, hr_content_length = None, hr_chunks = [Some ''ab'', Some ''c'']\<rparr>)\<rparr>"

lemma demo_fetch:
  "fetch_client_metadata_document (\<lambda>_. Some demo_url) (\<lambda>b. if b = ''abc'' then Some demo_document else None) demo_network ''c'' =
     (Inr demo_document, [V4 8 8 8 8])"
  by (simp add: fetch_client_metadata_document_def demo_url_def demo_network_def forbidden_metadata_ip_def
      MAX_METADATA_DOCUMENT_BYTES_def)


text \<open>
  A redirect address that is accepted for a client is one the client registered, letter by letter, or both are
  HTTP addresses on the loopback interface that agree in everything but the port.
\<close>

theorem redirect_differs_in_port_only:
  assumes "registered_redirect_matches parse registered requested" "registered \<noteq> requested"
  shows "\<exists>u v. parse registered = Some u \<and> parse requested = Some v \<and> url_scheme u = ''http'' \<and>
    host_is_loopback u \<and> v = u \<lparr>url_port := url_port v\<rparr>"
proof (cases "parse registered"; cases "parse requested")
  fix u v
  assume uv: "parse registered = Some u" "parse requested = Some v"
  with assms have s: "url_scheme u = ''http''" "host_is_loopback u"
    "(case (without_port u, without_port v) of (Some u', Some v') \<Rightarrow> u' = v' | _ \<Rightarrow> False)"
    by (simp_all add: registered_redirect_matches_def split: if_splits)
  then have "u \<lparr>url_port := None\<rparr> = v \<lparr>url_port := None\<rparr>"
    by (auto simp: without_port_def split: if_splits)
  then have "u \<lparr>url_port := None\<rparr> \<lparr>url_port := url_port v\<rparr> = v \<lparr>url_port := None\<rparr> \<lparr>url_port := url_port v\<rparr>" by simp
  then have "v = u \<lparr>url_port := url_port v\<rparr>" by simp
  with uv s show ?thesis by blast
qed (use assms in \<open>simp_all add: registered_redirect_matches_def split: if_splits\<close>)

definition loopback_url :: "u16 \<Rightarrow> url" where
  "loopback_url port = \<lparr>url_scheme = ''http'', url_username = [], url_password = None, url_host = Some ''localhost'',
     url_port = Some port, url_path = ''/cb'', url_query = None, url_fragment = None\<rparr>"

theorem redirect_differs_in_port_only_witness:
  "registered_redirect_matches (\<lambda>s. Some (loopback_url (if s = ''a'' then 1 else 2))) ''a'' ''b'' \<and>
   loopback_url 2 = loopback_url 1 \<lparr>url_port := url_port (loopback_url 2)\<rparr>"
proof -
  let ?parse = "\<lambda>s. Some (loopback_url (if s = ''a'' then 1 else 2))"
  have m: "registered_redirect_matches ?parse ''a'' ''b''"
    by (simp add: registered_redirect_matches_def valid_redirect_uri_def host_is_loopback_def without_port_def loopback_url_def
        is_loopback_host_def to_lower_def is_upper_def CURSOR_NATIVE_REDIRECT_def)
  with redirect_differs_in_port_only [OF m] show ?thesis by simp
qed

end
