(* ===== verification/Oauth_State.thy ===== *)
theory Oauth_State
  imports Oauth_Clients
begin

section \<open>The authorization server's records (\<open>downstream_oauth/mod.rs\<close>, \<open>owner.rs\<close>)\<close>

text \<open>
  What the downstream OAuth server keeps, and the functions on it that touch neither the disk nor the
  locks: expiry, removal of a client, the end of a consent, the issue of authorization codes and token
  pairs, and the end of a token family. Times are seconds since the epoch, so far
  below \<open>2 ^ 64\<close> that adding a lifetime cannot overflow; random values are arguments.
  The WebAuthn library, SHA-256, PKCE and the encoders are fields of the record \<open>oauth_env\<close>; a
  passkey is what the code reads of it, the id and the counter, and the rest as one value.
\<close>

definition STATE_VERSION :: nat where "STATE_VERSION = 3"
definition AUTH_REQUEST_LIFETIME_SECS :: nat where "AUTH_REQUEST_LIFETIME_SECS = 300"
definition AUTH_CODE_LIFETIME_SECS :: nat where "AUTH_CODE_LIFETIME_SECS = 300"
definition ACCESS_TOKEN_LIFETIME_SECS :: nat where "ACCESS_TOKEN_LIFETIME_SECS = 3600"
definition REFRESH_TOKEN_LIFETIME_SECS :: nat where "REFRESH_TOKEN_LIFETIME_SECS = 30 * 24 * 3600"
definition REFRESH_REUSE_LEEWAY_SECS :: nat where "REFRESH_REUSE_LEEWAY_SECS = REFRESH_TOKEN_LIFETIME_SECS"
definition REGISTRATION_LIFETIME_SECS :: nat where "REGISTRATION_LIFETIME_SECS = 90 * 24 * 3600"
definition UNACTIVATED_REGISTRATION_LIFETIME_SECS :: nat where "UNACTIVATED_REGISTRATION_LIFETIME_SECS = 3600"
definition MAX_REGISTRATIONS :: nat where "MAX_REGISTRATIONS = 100"
definition REGISTRATION_RATE_WINDOW_SECS :: nat where "REGISTRATION_RATE_WINDOW_SECS = 3600"
definition MAX_REGISTRATIONS_PER_WINDOW :: nat where "MAX_REGISTRATIONS_PER_WINDOW = 10"
definition MAX_PENDING_CONSENTS :: nat where "MAX_PENDING_CONSENTS = 200"
definition MAX_PENDING_CONSENTS_PER_CLIENT :: nat where "MAX_PENDING_CONSENTS_PER_CLIENT = 5"
definition MAX_ACCESS_TOKENS_PER_CLIENT :: nat where "MAX_ACCESS_TOKENS_PER_CLIENT = 10"
definition MAX_REGISTRATION_RATE_KEYS :: nat where "MAX_REGISTRATION_RATE_KEYS = 10000"
definition MAX_OWNER_CREDENTIALS :: nat where "MAX_OWNER_CREDENTIALS = 5"
definition MAX_OWNER_CHALLENGES :: nat where "MAX_OWNER_CHALLENGES = 10"
definition OWNER_CEREMONY_LIFETIME_SECS :: nat where "OWNER_CEREMONY_LIFETIME_SECS = 300"

lemmas oauth_limits = MAX_REGISTRATIONS_def MAX_PENDING_CONSENTS_def MAX_PENDING_CONSENTS_PER_CLIENT_def
  MAX_ACCESS_TOKENS_PER_CLIENT_def MAX_OWNER_CREDENTIALS_def MAX_OWNER_CHALLENGES_def
  MAX_REGISTRATION_RATE_KEYS_def MAX_REGISTRATIONS_PER_WINDOW_def

subsection \<open>Data\<close>

datatype client_source = DynamicRegistration | MetadataDocument

record registered_client =
  rc_client_id :: string
  rc_client_name :: string
  rc_redirect_uris :: "string list"
  rc_source :: client_source
  rc_created_at :: nat
  rc_last_used_at :: "nat option"
  rc_expires_at :: nat

record pending_consent =
  pc_client_id :: string
  pc_redirect_uri :: string
  pc_state :: string
  pc_code_challenge :: string
  pc_scopes :: "string list"
  pc_resource :: string
  pc_csrf_token :: string
  pc_expires_at :: nat

record completed_consent =
  cc_client_id :: string
  cc_redirect :: string
  cc_expires_at :: nat
  cc_approval_ceremony_ids :: "string list"

record authorization_code =
  co_client_id :: string
  co_redirect_uri :: string
  co_code_challenge :: string
  co_scopes :: "string list"
  co_resource :: string
  co_expires_at :: nat

record access_token =
  ak_client_id :: string
  ak_scopes :: "string list"
  ak_resource :: string
  ak_issued_at :: nat
  ak_expires_at :: nat
  ak_family_id :: string

record refresh_token =
  rf_client_id :: string
  rf_scopes :: "string list"
  rf_resource :: string
  rf_expires_at :: nat
  rf_family_id :: string

record consumed_token =
  ct_family_id :: string
  ct_client_id :: string
  ct_consumed_at :: nat

record passkey =
  pk_id :: string
  pk_counter :: u32
  pk_rest :: string

record owner_credential =
  oc_id :: string
  oc_label :: string
  oc_passkey :: passkey
  oc_created_at :: nat
  oc_last_used_at :: "nat option"

record owner_bootstrap =
  ob_secret_hash :: string
  ob_expires_at :: nat

record registration_ceremony =
  rg_id :: string
  rg_bootstrap_hash :: string
  rg_issuer_hash :: string
  rg_state :: string
  rg_expires_at :: nat

record authentication_ceremony =
  au_id :: string
  au_consent_id :: string
  au_issuer_hash :: string
  au_consent_binding :: string
  au_decision :: string
  au_credential_ids :: "string list"
  au_state :: string
  au_expires_at :: nat

record oauth_state =
  version :: nat
  clients :: "(string, registered_client) hmap"
  pending_consents :: "(string, pending_consent) hmap"
  completed_consents :: "(string, completed_consent) hmap"
  pending_codes :: "(string, authorization_code) hmap"
  access_tokens :: "(string, access_token) hmap"
  refresh_tokens :: "(string, refresh_token) hmap"
  consumed_refresh_tokens :: "(string, consumed_token) hmap"
  revoked_client_ids :: "string list"
  owner_credentials :: "(string, owner_credential) hmap"
  owner_bootstraps :: "(string, owner_bootstrap) hmap"
  owner_registration_ceremonies :: "(string, registration_ceremony) hmap"
  owner_authentication_ceremonies :: "(string, authentication_ceremony) hmap"

definition oauth_state_default :: oauth_state where
  "oauth_state_default =
     \<lparr>version = STATE_VERSION, clients = [], pending_consents = [], completed_consents = [], pending_codes = [],
      access_tokens = [], refresh_tokens = [], consumed_refresh_tokens = [], revoked_client_ids = [],
      owner_credentials = [], owner_bootstraps = [], owner_registration_ceremonies = [],
      owner_authentication_ceremonies = []\<rparr>"

text \<open>The configuration and the code this component only calls.\<close>

record oauth_env =
  public_base_url :: string
  oauth_scopes :: "string list"
  parse_url :: url_parser
  decode_document :: "string \<Rightarrow> metadata_document option"
  form_urlencode :: "(string \<times> string) list \<Rightarrow> string"
  sha256 :: "string \<Rightarrow> string"
  hex_encode :: "string \<Rightarrow> string"
  pkce_sha256_challenge :: "string \<Rightarrow> string"
  consent_json :: "pending_consent \<Rightarrow> string"
  start_registration :: "string \<Rightarrow> string list \<Rightarrow> string \<Rightarrow> string \<times> string"
  finish_registration :: "string \<Rightarrow> string \<Rightarrow> passkey option"
  start_authentication :: "string \<Rightarrow> passkey list \<Rightarrow> string \<Rightarrow> string \<times> string"
  asserted_credential_id :: "string \<Rightarrow> string option"
  finish_authentication :: "string \<Rightarrow> string \<Rightarrow> passkey \<Rightarrow> (u32 \<times> bool) option"

definition base_url :: "oauth_env \<Rightarrow> string" where
  "base_url env = rev (dropWhile (\<lambda>c. c = CHR ''/'') (rev (public_base_url env)))"

definition resource :: "oauth_env \<Rightarrow> string" where
  "resource env = base_url env @ ''/mcp''"

text \<open>Each part is hashed after its length, as eight bytes, most significant first.\<close>

definition be_bytes :: "nat \<Rightarrow> string" where
  "be_bytes n = map (\<lambda>i. char_of (n div 256 ^ (7 - i))) [0..<8]"

definition binding_input :: "string list \<Rightarrow> string" where
  "binding_input parts = concat (map (\<lambda>p. be_bytes (length p) @ p) parts)"

definition owner_binding_hash :: "oauth_env \<Rightarrow> string list \<Rightarrow> string" where
  "owner_binding_hash env parts = hex_encode env (sha256 env (binding_input parts))"

definition owner_user_id :: "oauth_env \<Rightarrow> string \<Rightarrow> string" where
  "owner_user_id env issuer =
     (let d = take 16 (sha256 env issuer)
      in d [6 := char_of (code (d ! 6) mod 16 + 128), 8 := char_of (code (d ! 8) mod 64 + 128)])"

definition verify_auth_token :: "string \<Rightarrow> string \<Rightarrow> bool" where
  "verify_auth_token provided expected \<longleftrightarrow>
     (if length provided \<noteq> length expected then False else list_all (\<lambda>(a, b). a = b) (zip provided expected))"

definition redirect_with_params :: "oauth_env \<Rightarrow> string \<Rightarrow> (string \<times> string) list \<Rightarrow> string" where
  "redirect_with_params env base pairs =
     base @ (if CHR ''?'' \<in> set base then ''&'' else ''?'') @ form_urlencode env pairs"

subsection \<open>Expiry\<close>

definition owner_ceremony_ids_for_consent :: "string \<Rightarrow> oauth_state \<Rightarrow> string list" where
  "owner_ceremony_ids_for_consent consent_id s =
     remdups_adj (sort (map (\<lambda>(_, c). au_id c)
       (filter (\<lambda>(_, c). au_consent_id c = consent_id) (owner_authentication_ceremonies s))))"

text \<open>The ceremony that expires last for each consent; among equals the one with the greatest id.\<close>

definition add_newest :: "string \<times> authentication_ceremony \<Rightarrow> (string, nat \<times> string) hmap \<Rightarrow> (string, nat \<times> string) hmap" where
  "add_newest e m =
     (case e of (i, c) \<Rightarrow>
        (case hget m (au_consent_id c) of
           None \<Rightarrow> hinsert (au_consent_id c) (au_expires_at c, i) m
         | Some current \<Rightarrow>
             if current < (au_expires_at c, i) then hinsert (au_consent_id c) (au_expires_at c, i) m else m))"

definition evict_expired_owner_records :: "nat \<Rightarrow> oauth_state \<Rightarrow> oauth_state" where
  "evict_expired_owner_records now s =
     (let live = hretain (\<lambda>_ c. now < au_expires_at c \<and> au_consent_id c \<in> fst ` set (pending_consents s))
            (owner_authentication_ceremonies s);
          newest = fold add_newest live []
      in s \<lparr>owner_bootstraps := hretain (\<lambda>_ b. now < ob_expires_at b) (owner_bootstraps s),
           owner_registration_ceremonies := hretain (\<lambda>_ c. now < rg_expires_at c) (owner_registration_ceremonies s),
           owner_authentication_ceremonies :=
             hretain (\<lambda>i c. case hget newest (au_consent_id c) of Some (_, n) \<Rightarrow> n = i | None \<Rightarrow> False) live\<rparr>)"

definition expired_clients :: "nat \<Rightarrow> oauth_state \<Rightarrow> string list" where
  "expired_clients now s = map fst (filter (\<lambda>(_, c). rc_expires_at c \<le> now) (clients s))"

definition evict_expired :: "nat \<Rightarrow> oauth_state \<Rightarrow> string list \<times> oauth_state" where
  "evict_expired now s =
     (let expired = expired_clients now s
      in (expired,
          evict_expired_owner_records now
            (s \<lparr>clients := hretain (\<lambda>i _. i \<notin> set expired) (clients s),
              pending_consents := hretain (\<lambda>_ c. now < pc_expires_at c) (pending_consents s),
              completed_consents := hretain (\<lambda>_ c. now < cc_expires_at c) (completed_consents s),
              pending_codes := hretain (\<lambda>_ c. now < co_expires_at c) (pending_codes s),
              access_tokens := hretain (\<lambda>_ t. now < ak_expires_at t \<and> ak_client_id t \<notin> set expired) (access_tokens s),
              refresh_tokens := hretain (\<lambda>_ t. now < rf_expires_at t \<and> rf_client_id t \<notin> set expired) (refresh_tokens s)\<rparr>)))"

definition prune_consumed_refresh_tokens :: "nat \<Rightarrow> oauth_state \<Rightarrow> oauth_state" where
  "prune_consumed_refresh_tokens now s =
     s \<lparr>consumed_refresh_tokens :=
          hretain (\<lambda>_ t. now - ct_consumed_at t < REFRESH_TOKEN_LIFETIME_SECS) (consumed_refresh_tokens s)\<rparr>"

subsection \<open>Removals\<close>

definition remove_client_material :: "string \<Rightarrow> oauth_state \<Rightarrow> oauth_state" where
  "remove_client_material client_id s =
     s \<lparr>clients := hremove client_id (clients s),
       pending_consents := hretain (\<lambda>_ c. pc_client_id c \<noteq> client_id) (pending_consents s),
       completed_consents := hretain (\<lambda>_ c. cc_client_id c \<noteq> client_id) (completed_consents s),
       pending_codes := hretain (\<lambda>_ c. co_client_id c \<noteq> client_id) (pending_codes s),
       access_tokens := hretain (\<lambda>_ t. ak_client_id t \<noteq> client_id) (access_tokens s),
       refresh_tokens := hretain (\<lambda>_ t. rf_client_id t \<noteq> client_id) (refresh_tokens s)\<rparr>"

definition drop_ceremonies_of :: "string \<Rightarrow> oauth_state \<Rightarrow> oauth_state" where
  "drop_ceremonies_of consent_id s =
     s \<lparr>owner_authentication_ceremonies := hretain (\<lambda>_ c. au_consent_id c \<noteq> consent_id) (owner_authentication_ceremonies s)\<rparr>"

definition expire_consent :: "string \<Rightarrow> pending_consent \<Rightarrow> oauth_state \<Rightarrow> oauth_error \<times> oauth_state" where
  "expire_consent consent_id consent s =
     (AuthorizationExpired (pc_redirect_uri consent) (pc_state consent),
      drop_ceremonies_of consent_id (s \<lparr>pending_consents := hremove consent_id (pending_consents s)\<rparr>))"

text \<open>The records removed are counted; an empty family id is none.\<close>

definition revoke_token_family :: "string \<Rightarrow> oauth_state \<Rightarrow> nat \<times> oauth_state" where
  "revoke_token_family family_id s =
     (if family_id = [] then (0, s)
      else
        let count0 = length (access_tokens s) + length (refresh_tokens s) + length (consumed_refresh_tokens s);
            s' = s \<lparr>access_tokens := hretain (\<lambda>_ t. ak_family_id t \<noteq> family_id) (access_tokens s),
                   refresh_tokens := hretain (\<lambda>_ t. rf_family_id t \<noteq> family_id) (refresh_tokens s),
                   consumed_refresh_tokens := hretain (\<lambda>_ t. ct_family_id t \<noteq> family_id) (consumed_refresh_tokens s)\<rparr>
        in (count0 - (length (access_tokens s') + length (refresh_tokens s') + length (consumed_refresh_tokens s')), s'))"

subsection \<open>Issuing codes and tokens\<close>

definition extend_registration :: "string \<Rightarrow> nat \<Rightarrow> oauth_state \<Rightarrow> oauth_state" where
  "extend_registration client_id now s =
     (case hget (clients s) client_id of
        None \<Rightarrow> s
      | Some c \<Rightarrow>
          s \<lparr>clients := hinsert client_id
               (c \<lparr>rc_last_used_at := Some now, rc_expires_at := now + REGISTRATION_LIFETIME_SECS\<rparr>) (clients s)\<rparr>)"

definition complete_consent ::
  "string \<Rightarrow> string \<Rightarrow> string \<Rightarrow> string list \<Rightarrow> nat \<Rightarrow> oauth_state \<Rightarrow> oauth_state" where
  "complete_consent consent_id client_id redirect ceremony_ids now s =
     s \<lparr>completed_consents := hinsert consent_id
          \<lparr>cc_client_id = client_id, cc_redirect = redirect, cc_expires_at = now + AUTH_CODE_LIFETIME_SECS,
           cc_approval_ceremony_ids = ceremony_ids\<rparr> (completed_consents s)\<rparr>"

definition code_of_consent :: "pending_consent \<Rightarrow> nat \<Rightarrow> authorization_code" where
  "code_of_consent consent now =
     \<lparr>co_client_id = pc_client_id consent, co_redirect_uri = pc_redirect_uri consent,
      co_code_challenge = pc_code_challenge consent, co_scopes = pc_scopes consent,
      co_resource = pc_resource consent, co_expires_at = now + AUTH_CODE_LIFETIME_SECS\<rparr>"

definition issue_code_for_consent ::
  "oauth_env \<Rightarrow> string \<Rightarrow> string \<Rightarrow> pending_consent \<Rightarrow> string list \<Rightarrow> nat \<Rightarrow> oauth_state \<Rightarrow> string \<times> oauth_state" where
  "issue_code_for_consent env new_code consent_id consent ceremony_ids now s =
     (let s1 = drop_ceremonies_of consent_id (s \<lparr>pending_consents := hremove consent_id (pending_consents s)\<rparr>);
          s2 = s1 \<lparr>pending_codes := hinsert new_code (code_of_consent consent now) (pending_codes s1)\<rparr>;
          s3 = extend_registration (pc_client_id consent) now s2;
          redirect = redirect_with_params env (pc_redirect_uri consent) [(''code'', new_code), (''state'', pc_state consent)]
      in (redirect, complete_consent consent_id (pc_client_id consent) redirect ceremony_ids now s3))"

record token_response =
  tr_access_token :: string
  tr_refresh_token :: "string option"
  tr_expires_in :: nat
  tr_scope :: "string option"

text \<open>The client's oldest access tokens make room: at most nine stay beside the new one.\<close>

definition surplus_access_tokens :: "string \<Rightarrow> oauth_state \<Rightarrow> string list" where
  "surplus_access_tokens client_id s =
     (let existing = map (\<lambda>(v, t). (v, ak_issued_at t)) (filter (\<lambda>(_, t). ak_client_id t = client_id) (access_tokens s))
      in map fst (take (length existing - (MAX_ACCESS_TOKENS_PER_CLIENT - 1)) (sort_key snd existing)))"

definition issue_token_pair ::
  "string \<Rightarrow> string \<Rightarrow> nat \<Rightarrow> string \<Rightarrow> string list \<Rightarrow> string \<Rightarrow> string \<Rightarrow> oauth_state \<Rightarrow> token_response \<times> oauth_state" where
  "issue_token_pair new_access new_refresh now client_id scopes res family_id s =
     (let kept = fold hremove (surplus_access_tokens client_id s) (access_tokens s)
      in (\<lparr>tr_access_token = new_access, tr_refresh_token = Some new_refresh, tr_expires_in = ACCESS_TOKEN_LIFETIME_SECS,
           tr_scope = (if scopes \<noteq> [] then Some (join '' '' scopes) else None)\<rparr>,
          s \<lparr>access_tokens := hinsert new_access
               \<lparr>ak_client_id = client_id, ak_scopes = scopes, ak_resource = res, ak_issued_at = now,
                ak_expires_at = now + ACCESS_TOKEN_LIFETIME_SECS, ak_family_id = family_id\<rparr> kept,
             refresh_tokens := hinsert new_refresh
               \<lparr>rf_client_id = client_id, rf_scopes = scopes, rf_resource = res,
                rf_expires_at = now + REFRESH_TOKEN_LIFETIME_SECS, rf_family_id = family_id\<rparr> (refresh_tokens s)\<rparr>))"

end
