(* ===== verification/Oauth.thy ===== *)
theory Oauth
  imports Oauth_State
begin

section \<open>The downstream OAuth manager (\<open>downstream_oauth/mod.rs\<close>)\<close>

text \<open>
  Every operation of \<open>DownstreamOauthManager\<close>. The world holds the state behind the mutex, the lifecycle flags
  that leases point to, the sign-ins, the rate table, the durability flag, and the disk.
  \<^item> An operation is a check of durability followed by one section under the state lock, named
    \<open>..._locked\<close>; the public function is the composition. \<open>begin_authorization\<close> has three
    sections, because the client is looked up and stored before the request itself is.
  \<^item> Each call gets the successive readings of the clock as \<open>clk\<close> (no order is assumed: a wall clock
    may be set back), its random values, and what the file system does.
  \<^item> \<open>disk\<close> lists the files a restart may find, newest first: one after a durable write, more when
    a rename happened whose directory entry may not have reached the disk. \<open>None\<close> is no file.
  \<^item> A lifecycle lease points into \<open>lifecycle_heap\<close>, which stands for the shared \<open>Arc\<close>s; the
    sign-in entries are never removed, so a lease names them by family.
\<close>

type_synonym clock = "nat \<Rightarrow> nat"

record lifecycle =
  lc_generation :: u64
  lc_active :: bool

definition lifecycle_new :: lifecycle where
  "lifecycle_new = \<lparr>lc_generation = 1, lc_active = True\<rparr>"

definition deactivate :: "lifecycle \<Rightarrow> lifecycle" where
  "deactivate l = \<lparr>lc_generation = lc_generation l + 1, lc_active = False\<rparr>"

record sign_in =
  si_ended :: bool
  si_until :: nat

definition sign_in_default :: sign_in where
  "sign_in_default = \<lparr>si_ended = False, si_until = 0\<rparr>"

definition is_over :: "nat \<Rightarrow> sign_in \<Rightarrow> bool" where
  "is_over now si \<longleftrightarrow> si_ended si \<or> si_until si \<le> now"

definition lasts_until :: "nat \<Rightarrow> sign_in \<Rightarrow> sign_in" where
  "lasts_until t si = si \<lparr>si_until := max (si_until si) t\<rparr>"

record lifecycle_lease =
  ll_state :: nat
  ll_generation :: u64
  ll_family :: "string option"

record oauth_world =
  state :: oauth_state
  principal_lifecycles :: "(string, nat) hmap"
  lifecycle_heap :: "lifecycle list"
  family_ended :: "(string, sign_in) hmap"
  registration_rate :: "(string, nat list) hmap"
  durability_degraded :: bool
  disk :: "oauth_state option list"

definition lease_is_active :: "nat \<Rightarrow> lifecycle_lease \<Rightarrow> oauth_world \<Rightarrow> bool" where
  "lease_is_active now lease w \<longleftrightarrow>
     lc_active (lifecycle_heap w ! ll_state lease) \<and>
     lc_generation (lifecycle_heap w ! ll_state lease) = ll_generation lease \<and>
     \<not> (case ll_family lease of
          None \<Rightarrow> False
        | Some f \<Rightarrow> (case hget (family_ended w) f of Some si \<Rightarrow> is_over now si | None \<Rightarrow> False))"

subsection \<open>Persistence\<close>

definition PARENT_DIR_SYNC_ATTEMPTS :: nat where "PARENT_DIR_SYNC_ATTEMPTS = 3"

text \<open>How the file system answers during one save; \<open>fs_syncs\<close> are the attempts to sync the directory.\<close>

record fs_outcome =
  fs_dir :: bool
  fs_open :: bool
  fs_write :: bool
  fs_chmod :: bool
  fs_rename :: bool
  fs_syncs :: "bool list"

definition sync_parent_dir_with_retry :: "bool list \<Rightarrow> bool" where
  "sync_parent_dir_with_retry attempts = list_ex (\<lambda>ok. ok) (take PARENT_DIR_SYNC_ATTEMPTS attempts)"

datatype persist_outcome = Durable | CommittedDurabilityUncertain

definition persist_bytes :: "fs_outcome \<Rightarrow> oauth_error + persist_outcome" where
  "persist_bytes fs =
     (if \<not> fs_dir fs then Inl Persistence
      else if \<not> fs_open fs then Inl Persistence
      else if \<not> fs_write fs then Inl Persistence
      else if \<not> fs_chmod fs then Inl Persistence
      else if \<not> fs_rename fs then Inl Persistence
      else if sync_parent_dir_with_retry (fs_syncs fs) then Inr Durable
      else Inr CommittedDurabilityUncertain)"

text \<open>One call's dealings with the disk: the sync of the first durability check, that of the commit, and the save.\<close>

record oauth_io =
  io_sync_first :: bool
  io_sync_commit :: bool
  io_fs :: fs_outcome

definition ensure_durable :: "bool \<Rightarrow> oauth_world \<Rightarrow> (oauth_error + unit) \<times> oauth_world" where
  "ensure_durable sync_ok w =
     (let w' = (if durability_degraded w \<and> sync_ok then w \<lparr>durability_degraded := False, disk := take 1 (disk w)\<rparr> else w)
      in if durability_degraded w' then (Inl Persistence, w') else (Inr (), w'))"

definition commit_state :: "oauth_io \<Rightarrow> oauth_state \<Rightarrow> oauth_world \<Rightarrow> (oauth_error + unit) \<times> oauth_world" where
  "commit_state io nxt w =
     (case ensure_durable (io_sync_commit io) w of
        (Inl e, w1) \<Rightarrow> (Inl e, w1)
      | (Inr _, w1) \<Rightarrow>
          (case persist_bytes (io_fs io) of
             Inl e \<Rightarrow> (Inl e, w1)
           | Inr Durable \<Rightarrow> (Inr (), w1 \<lparr>state := nxt, disk := [Some nxt]\<rparr>)
           | Inr CommittedDurabilityUncertain \<Rightarrow>
               (Inl Persistence, w1 \<lparr>state := nxt, disk := Some nxt # disk w1, durability_degraded := True\<rparr>)))"

definition commit_then :: "oauth_io \<Rightarrow> oauth_state \<Rightarrow> (oauth_error + 'a) \<Rightarrow> oauth_world \<Rightarrow> (oauth_error + 'a) \<times> oauth_world" where
  "commit_then io nxt result w =
     (case commit_state io nxt w of (Inl e, w') \<Rightarrow> (Inl e, w') | (Inr _, w') \<Rightarrow> (result, w'))"

definition guarded ::
  "oauth_io \<Rightarrow> (oauth_world \<Rightarrow> (oauth_error + 'a) \<times> oauth_world) \<Rightarrow> oauth_world \<Rightarrow> (oauth_error + 'a) \<times> oauth_world" where
  "guarded io body w =
     (case ensure_durable (io_sync_first io) w of (Inl e, w1) \<Rightarrow> (Inl e, w1) | (Inr _, w1) \<Rightarrow> body w1)"

definition load_persisted_state :: "nat \<Rightarrow> oauth_state option \<Rightarrow> oauth_error + oauth_state" where
  "load_persisted_state now file =
     (case file of
        None \<Rightarrow> Inr oauth_state_default
      | Some s \<Rightarrow> if version s \<noteq> STATE_VERSION then Inl Persistence else Inr (snd (evict_expired now s)))"

text \<open>
  A start of the process that finds \<open>file\<close>; the directory is synced before the file is read. The
  lock file and the checks of \<open>OwnerSecurity::new\<close> decide only whether there is a manager at all.
\<close>

definition oauth_start :: "clock \<Rightarrow> bool list \<Rightarrow> oauth_state option \<Rightarrow> oauth_error + oauth_world" where
  "oauth_start clk syncs file =
     (if \<not> sync_parent_dir_with_retry syncs then Inl Persistence
      else case load_persisted_state (clk 0) file of
        Inl e \<Rightarrow> Inl e
      | Inr s \<Rightarrow>
          (let s' = prune_consumed_refresh_tokens (clk 1) s
           in Inr \<lparr>state = s',
                principal_lifecycles = map (\<lambda>(i, (c, _)). (c, i)) (enumerate 0 (clients s')),
                lifecycle_heap = replicate (length (clients s')) lifecycle_new,
                family_ended = [], registration_rate = [], durability_degraded = False, disk = [file]\<rparr>))"

subsection \<open>Lifecycles\<close>

definition deactivate_lifecycle :: "string \<Rightarrow> oauth_world \<Rightarrow> oauth_world" where
  "deactivate_lifecycle client_id w =
     (case hget (principal_lifecycles w) client_id of
        None \<Rightarrow> w
      | Some i \<Rightarrow> w \<lparr>lifecycle_heap := (lifecycle_heap w) [i := deactivate (lifecycle_heap w ! i)]\<rparr>)"

definition deactivate_principal_lifecycles :: "string list \<Rightarrow> oauth_world \<Rightarrow> oauth_world" where
  "deactivate_principal_lifecycles ids w = fold deactivate_lifecycle ids w"

definition remove_principal_lifecycles :: "string list \<Rightarrow> oauth_world \<Rightarrow> oauth_world" where
  "remove_principal_lifecycles ids w = w \<lparr>principal_lifecycles := fold hremove ids (principal_lifecycles w)\<rparr>"

definition insert_lifecycle :: "string \<Rightarrow> oauth_world \<Rightarrow> oauth_world" where
  "insert_lifecycle client_id w =
     w \<lparr>principal_lifecycles := hinsert client_id (length (lifecycle_heap w)) (principal_lifecycles w),
       lifecycle_heap := lifecycle_heap w @ [lifecycle_new]\<rparr>"

subsection \<open>The owner's passkeys\<close>

definition create_owner_bootstrap_locked ::
  "oauth_env \<Rightarrow> oauth_io \<Rightarrow> clock \<Rightarrow> string \<Rightarrow> oauth_world \<Rightarrow> (oauth_error + string) \<times> oauth_world" where
  "create_owner_bootstrap_locked env io clk secret w =
     (let secret_hash = owner_binding_hash env [''owner-bootstrap'', secret];
          nxt = evict_expired_owner_records (clk 0) (state w)
      in commit_then io
           (nxt \<lparr>owner_bootstraps :=
              [(secret_hash, \<lparr>ob_secret_hash = secret_hash, ob_expires_at = clk 1 + OWNER_CEREMONY_LIFETIME_SECS\<rparr>)]\<rparr>)
           (Inr secret) w)"

definition create_owner_bootstrap where
  "create_owner_bootstrap env io clk secret = guarded io (create_owner_bootstrap_locked env io clk secret)"

definition start_owner_registration_locked ::
  "oauth_env \<Rightarrow> oauth_io \<Rightarrow> nat \<Rightarrow> string \<Rightarrow> string \<Rightarrow> string \<Rightarrow> oauth_world \<Rightarrow>
   (oauth_error + (string \<times> string)) \<times> oauth_world" where
  "start_owner_registration_locked env io now bootstrap ceremony_id entropy w =
     (let bootstrap_hash = owner_binding_hash env [''owner-bootstrap'', bootstrap];
          issuer_hash = owner_binding_hash env [base_url env];
          nxt = evict_expired_owner_records now (state w)
      in if \<not> list_ex (\<lambda>(_, r). now < ob_expires_at r \<and> verify_auth_token bootstrap_hash (ob_secret_hash r)) (owner_bootstraps nxt)
         then (Inl InvalidOwnerBootstrap, w)
         else if MAX_OWNER_CREDENTIALS \<le> length (owner_credentials nxt) then (Inl OwnerCredentialLimit, w)
         else if MAX_OWNER_CHALLENGES \<le> length (owner_registration_ceremonies nxt) then (Inl RateLimited, w)
         else
           case start_registration env (owner_user_id env (base_url env))
               (map (\<lambda>(_, c). pk_id (oc_passkey c)) (owner_credentials nxt)) entropy of
             (public_key, registration_state) \<Rightarrow>
               commit_then io
                 (nxt \<lparr>owner_bootstraps := [],
                    owner_registration_ceremonies := hinsert ceremony_id
                      \<lparr>rg_id = ceremony_id, rg_bootstrap_hash = bootstrap_hash, rg_issuer_hash = issuer_hash,
                       rg_state = registration_state, rg_expires_at = now + OWNER_CEREMONY_LIFETIME_SECS\<rparr>
                      (owner_registration_ceremonies nxt)\<rparr>)
                 (Inr (ceremony_id, public_key)) w)"

definition start_owner_registration where
  "start_owner_registration env io now bootstrap ceremony_id entropy =
     guarded io (start_owner_registration_locked env io now bootstrap ceremony_id entropy)"

record credential_summary =
  cs_credential_id :: string
  cs_label :: string
  cs_created_at :: nat
  cs_last_used_at :: "nat option"

definition credential_summary_of :: "owner_credential \<Rightarrow> credential_summary" where
  "credential_summary_of c =
     \<lparr>cs_credential_id = oc_id c, cs_label = oc_label c, cs_created_at = oc_created_at c, cs_last_used_at = oc_last_used_at c\<rparr>"

definition finish_owner_registration_locked ::
  "oauth_env \<Rightarrow> oauth_io \<Rightarrow> nat \<Rightarrow> string \<Rightarrow> string \<Rightarrow> oauth_world \<Rightarrow> (oauth_error + credential_summary) \<times> oauth_world" where
  "finish_owner_registration_locked env io now ceremony_id response w =
     (case hget (owner_registration_ceremonies (state w)) ceremony_id of
        None \<Rightarrow> (Inl InvalidOwnerAssertion, w)
      | Some ceremony \<Rightarrow>
          (let nxt = (state w) \<lparr>owner_registration_ceremonies := hremove ceremony_id (owner_registration_ceremonies (state w))\<rparr>
           in if rg_expires_at ceremony \<le> now then commit_then io nxt (Inl OwnerChallengeExpired) w
              else if \<not> verify_auth_token (owner_binding_hash env [base_url env]) (rg_issuer_hash ceremony)
              then commit_then io nxt (Inl InvalidOwnerAssertion) w
              else case finish_registration env (rg_state ceremony) response of
                None \<Rightarrow> commit_then io nxt (Inl InvalidOwnerAssertion) w
              | Some pk \<Rightarrow>
                  if hget (owner_credentials nxt) (pk_id pk) \<noteq> None then commit_then io nxt (Inl InvalidOwnerAssertion) w
                  else if MAX_OWNER_CREDENTIALS \<le> length (owner_credentials nxt)
                  then commit_then io nxt (Inl OwnerCredentialLimit) w
                  else
                    let credential = \<lparr>oc_id = pk_id pk, oc_label = ''Passkey '' @ show_nat (length (owner_credentials nxt) + 1),
                          oc_passkey = pk, oc_created_at = now, oc_last_used_at = None\<rparr>
                    in commit_then io (nxt \<lparr>owner_credentials := hinsert (pk_id pk) credential (owner_credentials nxt)\<rparr>)
                         (Inr (credential_summary_of credential)) w))"

definition finish_owner_registration where
  "finish_owner_registration env io now ceremony_id response =
     guarded io (finish_owner_registration_locked env io now ceremony_id response)"

definition consent_binding :: "oauth_env \<Rightarrow> string \<Rightarrow> pending_consent \<Rightarrow> string" where
  "consent_binding env consent_id consent =
     owner_binding_hash env [base_url env, ''approve'', consent_id, consent_json env consent]"

definition start_owner_approval_locked ::
  "oauth_env \<Rightarrow> oauth_io \<Rightarrow> nat \<Rightarrow> string \<Rightarrow> string \<Rightarrow> string \<Rightarrow> oauth_world \<Rightarrow>
   (oauth_error + (string \<times> string)) \<times> oauth_world" where
  "start_owner_approval_locked env io now consent_id ceremony_id entropy w =
     (let nxt = evict_expired_owner_records now (state w)
      in if owner_credentials nxt = [] then (Inl OwnerNotEnrolled, w)
         else case hget (pending_consents nxt) consent_id of
           None \<Rightarrow> (Inl InvalidAuthorizationRequest, w)
         | Some consent \<Rightarrow>
             if pc_expires_at consent \<le> now
             then (case expire_consent consent_id consent nxt of (expired, nxt') \<Rightarrow> commit_then io nxt' (Inl expired) w)
             else
               let nxt1 = drop_ceremonies_of consent_id nxt
               in case start_authentication env (owner_user_id env (base_url env))
                      (map (\<lambda>(_, c). oc_passkey c) (owner_credentials nxt1)) entropy of
                    (public_key, authentication_state) \<Rightarrow>
                      commit_then io
                        (nxt1 \<lparr>owner_authentication_ceremonies := hinsert ceremony_id
                           \<lparr>au_id = ceremony_id, au_consent_id = consent_id, au_issuer_hash = owner_binding_hash env [base_url env],
                            au_consent_binding = consent_binding env consent_id consent, au_decision = ''approve'',
                            au_credential_ids = map fst (owner_credentials nxt1), au_state = authentication_state,
                            au_expires_at = now + OWNER_CEREMONY_LIFETIME_SECS\<rparr>
                           (owner_authentication_ceremonies nxt1)\<rparr>)
                        (Inr (ceremony_id, public_key)) w)"

definition start_owner_approval where
  "start_owner_approval env io now consent_id ceremony_id entropy =
     guarded io (start_owner_approval_locked env io now consent_id ceremony_id entropy)"

text \<open>
  \<open>asserted_credential_id\<close> decodes the credential id of the response; \<open>finish_authentication\<close>
  checks the signature with the stored passkey and gives the new counter and whether the user was verified.
\<close>

definition finish_owner_approval_locked ::
  "oauth_env \<Rightarrow> oauth_io \<Rightarrow> nat \<Rightarrow> string \<Rightarrow> string \<Rightarrow> string \<Rightarrow> oauth_world \<Rightarrow> (oauth_error + string) \<times> oauth_world" where
  "finish_owner_approval_locked env io now ceremony_id response new_code w =
     (case hget (owner_authentication_ceremonies (state w)) ceremony_id of
        None \<Rightarrow>
          (case find (\<lambda>(_, c). now < cc_expires_at c \<and> ceremony_id \<in> set (cc_approval_ceremony_ids c)) (completed_consents (state w)) of
             Some (_, c) \<Rightarrow> (Inr (cc_redirect c), w)
           | None \<Rightarrow> (Inl InvalidOwnerAssertion, w))
      | Some ceremony \<Rightarrow>
          (let consent_id = au_consent_id ceremony;
               ceremony_ids = owner_ceremony_ids_for_consent consent_id (state w);
               nxt = (state w) \<lparr>completed_consents := hretain (\<lambda>_ c. now < cc_expires_at c) (completed_consents (state w)),
                      owner_authentication_ceremonies := hremove ceremony_id (owner_authentication_ceremonies (state w))\<rparr>
           in if au_expires_at ceremony \<le> now then commit_then io nxt (Inl OwnerChallengeExpired) w
              else case hget (pending_consents nxt) consent_id of
                None \<Rightarrow> commit_then io nxt (Inl InvalidOwnerAssertion) w
              | Some consent \<Rightarrow>
                  if pc_expires_at consent \<le> now
                  then (case expire_consent consent_id consent nxt of (expired, nxt') \<Rightarrow> commit_then io nxt' (Inl expired) w)
                  else if au_decision ceremony \<noteq> ''approve'' \<or>
                      \<not> verify_auth_token (owner_binding_hash env [base_url env]) (au_issuer_hash ceremony) \<or>
                      \<not> verify_auth_token (consent_binding env consent_id consent) (au_consent_binding ceremony)
                  then commit_then io nxt (Inl InvalidOwnerAssertion) w
                  else case asserted_credential_id env response of
                    None \<Rightarrow> commit_then io nxt (Inl InvalidOwnerAssertion) w
                  | Some asserted \<Rightarrow>
                      if asserted \<notin> set (au_credential_ids ceremony) then commit_then io nxt (Inl InvalidOwnerAssertion) w
                      else case hget (owner_credentials nxt) asserted of
                        None \<Rightarrow> commit_then io nxt (Inl OwnerCredentialNotFound) w
                      | Some stored \<Rightarrow>
                          (case finish_authentication env (au_state ceremony) response (oc_passkey stored) of
                             Some (new_counter, True) \<Rightarrow>
                               (let used = stored \<lparr>oc_passkey := (oc_passkey stored) \<lparr>pk_counter := new_counter\<rparr>, oc_last_used_at := Some now\<rparr>;
                                    nxt1 = nxt \<lparr>owner_credentials := hinsert asserted used (owner_credentials nxt)\<rparr>
                                in case issue_code_for_consent env new_code consent_id consent ceremony_ids now nxt1 of
                                     (redirect, nxt2) \<Rightarrow> commit_then io nxt2 (Inr redirect) w)
                           | _ \<Rightarrow> commit_then io nxt (Inl InvalidOwnerAssertion) w)))"

definition finish_owner_approval where
  "finish_owner_approval env io now ceremony_id response new_code =
     guarded io (finish_owner_approval_locked env io now ceremony_id response new_code)"

definition deny_consent_locked ::
  "oauth_env \<Rightarrow> oauth_io \<Rightarrow> nat \<Rightarrow> string \<Rightarrow> string \<Rightarrow> oauth_world \<Rightarrow> (oauth_error + string) \<times> oauth_world" where
  "deny_consent_locked env io now consent_id csrf_token w =
     (case (case hget (completed_consents (state w)) consent_id of
              Some c \<Rightarrow> if now < cc_expires_at c then Some c else None
            | None \<Rightarrow> None) of
        Some c \<Rightarrow> (Inr (cc_redirect c), w)
      | None \<Rightarrow>
          (case hget (pending_consents (state w)) consent_id of
             None \<Rightarrow> (Inl InvalidAuthorizationRequest, w)
           | Some consent \<Rightarrow>
               if pc_expires_at consent \<le> now
               then (case expire_consent consent_id consent (state w) of (expired, nxt) \<Rightarrow> commit_then io nxt (Inl expired) w)
               else if \<not> verify_auth_token csrf_token (pc_csrf_token consent) then (Inl InvalidAuthorizationRequest, w)
               else
                 let redirect = redirect_with_params env (pc_redirect_uri consent) [(''error'', ''access_denied''), (''state'', pc_state consent)];
                     ceremony_ids = owner_ceremony_ids_for_consent consent_id (state w);
                     nxt = drop_ceremonies_of consent_id
                       ((state w) \<lparr>completed_consents := hretain (\<lambda>_ c. now < cc_expires_at c) (completed_consents (state w)),
                          pending_consents := hremove consent_id (pending_consents (state w))\<rparr>)
                 in commit_then io (complete_consent consent_id (pc_client_id consent) redirect ceremony_ids now nxt) (Inr redirect) w))"

definition deny_consent where
  "deny_consent env io now consent_id csrf_token = guarded io (deny_consent_locked env io now consent_id csrf_token)"

definition list_owner_credentials :: "oauth_world \<Rightarrow> credential_summary list" where
  "list_owner_credentials w =
     sort_key (\<lambda>c. (cs_created_at c, cs_credential_id c)) (map (\<lambda>(_, c). credential_summary_of c) (owner_credentials (state w)))"

datatype remove_owner_outcome = Removed | NotFound | FinalCredentialConfirmationRequired

definition remove_owner_credential_locked ::
  "oauth_io \<Rightarrow> string \<Rightarrow> bool \<Rightarrow> oauth_world \<Rightarrow> (oauth_error + remove_owner_outcome) \<times> oauth_world" where
  "remove_owner_credential_locked io credential_id allow_empty w =
     (if hget (owner_credentials (state w)) credential_id = None then (Inr NotFound, w)
      else if length (owner_credentials (state w)) = 1 \<and> \<not> allow_empty then (Inr FinalCredentialConfirmationRequired, w)
      else commit_then io
        ((state w) \<lparr>owner_credentials := hremove credential_id (owner_credentials (state w)),
           owner_authentication_ceremonies :=
             hretain (\<lambda>_ c. credential_id \<notin> set (au_credential_ids c)) (owner_authentication_ceremonies (state w))\<rparr>)
        (Inr Removed) w)"

definition remove_owner_credential where
  "remove_owner_credential io credential_id allow_empty = guarded io (remove_owner_credential_locked io credential_id allow_empty)"

definition owner_enrolled :: "oauth_world \<Rightarrow> bool" where
  "owner_enrolled w \<longleftrightarrow> owner_credentials (state w) \<noteq> []"

subsection \<open>Clients\<close>

definition check_registration_rate :: "nat \<Rightarrow> string \<Rightarrow> oauth_world \<Rightarrow> (oauth_error + unit) \<times> oauth_world" where
  "check_registration_rate now key w =
     (let aged = map (\<lambda>(k, seen). (k, dropWhile (\<lambda>t. t + REGISTRATION_RATE_WINDOW_SECS \<le> now) seen)) (registration_rate w);
          rate = filter (\<lambda>(_, seen). seen \<noteq> []) aged
      in if hget rate key = None \<and> MAX_REGISTRATION_RATE_KEYS \<le> length rate
         then (Inl RateLimited, w \<lparr>registration_rate := rate\<rparr>)
         else
           let seen = (case hget rate key of Some s \<Rightarrow> s | None \<Rightarrow> [])
           in if MAX_REGISTRATIONS_PER_WINDOW \<le> length seen
              then (Inl RateLimited, w \<lparr>registration_rate := hinsert key seen rate\<rparr>)
              else (Inr (), w \<lparr>registration_rate := hinsert key (seen @ [now]) rate\<rparr>))"

record registration_response =
  rs_client_id :: string
  rs_issued_at :: nat
  rs_redirect_uris :: "string list"
  rs_client_name :: string
  rs_auth_method :: string
  rs_grant_types :: "string list"
  rs_response_types :: "string list"

definition register_client_locked ::
  "oauth_io \<Rightarrow> nat \<Rightarrow> string \<Rightarrow> registration_request \<Rightarrow> oauth_world \<Rightarrow> (oauth_error + registration_response) \<times> oauth_world" where
  "register_client_locked io now fresh request w =
     (case evict_expired now (state w) of (expired, nxt) \<Rightarrow>
        if MAX_REGISTRATIONS \<le> length (clients nxt) then (Inl RegistrationQuotaExceeded, w)
        else
          let client_id = ''plug_'' @ fresh;
              name = safe_client_name (rr_client_name request);
              client = \<lparr>rc_client_id = client_id, rc_client_name = name, rc_redirect_uris = rr_redirect_uris request,
                 rc_source = DynamicRegistration, rc_created_at = now, rc_last_used_at = None,
                 rc_expires_at = now + UNACTIVATED_REGISTRATION_LIFETIME_SECS\<rparr>
          in case commit_state io (nxt \<lparr>clients := hinsert client_id client (clients nxt)\<rparr>)
                 (deactivate_principal_lifecycles expired w) of
               (Inl e, w1) \<Rightarrow> (Inl e, w1)
             | (Inr _, w1) \<Rightarrow>
                 (Inr \<lparr>rs_client_id = client_id, rs_issued_at = now, rs_redirect_uris = rr_redirect_uris request,
                    rs_client_name = name, rs_auth_method = ''none'', rs_grant_types = [''authorization_code'', ''refresh_token''],
                    rs_response_types = [''code'']\<rparr>,
                  remove_principal_lifecycles expired (insert_lifecycle client_id w1)))"

definition register_client ::
  "oauth_env \<Rightarrow> oauth_io \<Rightarrow> clock \<Rightarrow> string \<Rightarrow> string \<Rightarrow> registration_request \<Rightarrow> oauth_world \<Rightarrow>
   (oauth_error + registration_response) \<times> oauth_world" where
  "register_client env io clk fresh rate_key request =
     guarded io (\<lambda>w.
       let request' = clean_redirects (parse_url env) request
       in case validate_registration_request (parse_url env) request' of
            Inl e \<Rightarrow> (Inl e, w)
          | Inr _ \<Rightarrow>
              (case check_registration_rate (clk 0) rate_key w of
                 (Inl e, w1) \<Rightarrow> (Inl e, w1)
               | (Inr _, w1) \<Rightarrow> register_client_locked io (clk 1) fresh request' w1))"

record client_summary =
  sm_client :: registered_client
  sm_signed_in :: bool

definition list_clients :: "nat \<Rightarrow> oauth_world \<Rightarrow> client_summary list" where
  "list_clients now w =
     sort_key (\<lambda>m. (rc_client_name (sm_client m), rc_client_id (sm_client m)))
       (map (\<lambda>(_, c). \<lparr>sm_client = c,
          sm_signed_in =
            list_ex (\<lambda>(_, t). rf_client_id t = rc_client_id c \<and> now < rf_expires_at t) (refresh_tokens (state w)) \<or>
            list_ex (\<lambda>(_, t). ak_client_id t = rc_client_id c \<and> now < ak_expires_at t) (access_tokens (state w))\<rparr>)
          (clients (state w)))"

definition permits_event_delivery :: "oauth_env \<Rightarrow> nat \<Rightarrow> string \<Rightarrow> string \<Rightarrow> oauth_world \<Rightarrow> bool" where
  "permits_event_delivery env now client_id scope w \<longleftrightarrow>
     (if durability_degraded w then False
      else if client_id \<in> set (revoked_client_ids (state w)) \<or>
         \<not> (case hget (clients (state w)) client_id of Some c \<Rightarrow> now < rc_expires_at c | None \<Rightarrow> False) \<or>
         \<not> (case hget (principal_lifecycles w) client_id of Some i \<Rightarrow> lc_active (lifecycle_heap w ! i) | None \<Rightarrow> False)
      then False
      else
        list_ex (\<lambda>(_, t). ak_client_id t = client_id \<and> now < ak_expires_at t \<and> ak_resource t = resource env \<and> scope \<in> set (ak_scopes t))
          (access_tokens (state w)) \<or>
        list_ex (\<lambda>(_, t). rf_client_id t = client_id \<and> now < rf_expires_at t \<and> rf_resource t = resource env \<and> scope \<in> set (rf_scopes t))
          (refresh_tokens (state w)))"

definition revoke_client_locked :: "oauth_io \<Rightarrow> string \<Rightarrow> oauth_world \<Rightarrow> (oauth_error + bool) \<times> oauth_world" where
  "revoke_client_locked io client_id w =
     (if hget (clients (state w)) client_id = None then (Inr False, w)
      else
        let nxt = remove_client_material client_id (state w)
        in case commit_state io (nxt \<lparr>revoked_client_ids := List.insert client_id (revoked_client_ids nxt)\<rparr>)
               (deactivate_lifecycle client_id w) of
             (Inl e, w1) \<Rightarrow> (Inl e, w1)
           | (Inr _, w1) \<Rightarrow> (Inr True, remove_principal_lifecycles [client_id] w1))"

definition revoke_client where
  "revoke_client io client_id = guarded io (revoke_client_locked io client_id)"

text \<open>\<open>ensure_client\<close>, first under the lock: settled at once, or the source of the registration there is.\<close>

definition ensure_client_lookup ::
  "nat \<Rightarrow> string \<Rightarrow> oauth_world \<Rightarrow> (oauth_error + client_source option)" where
  "ensure_client_lookup now client_id w =
     (if client_id \<in> set (revoked_client_ids (state w)) then Inl InvalidClient
      else Inr (case hget (clients (state w)) client_id of
                  Some c \<Rightarrow> if now < rc_expires_at c then Some (rc_source c) else None
                | None \<Rightarrow> None))"

text \<open>And again, with the document.\<close>

definition ensure_client_store ::
  "oauth_io \<Rightarrow> nat \<Rightarrow> string \<Rightarrow> metadata_document \<Rightarrow> oauth_world \<Rightarrow> (oauth_error + unit) \<times> oauth_world" where
  "ensure_client_store io now client_id document w =
     (let client = \<lparr>rc_client_id = client_id, rc_client_name = safe_client_name (md_client_name document),
            rc_redirect_uris = md_redirect_uris document, rc_source = MetadataDocument, rc_created_at = now,
            rc_last_used_at = None, rc_expires_at = now + REGISTRATION_LIFETIME_SECS\<rparr>
      in if client_id \<in> set (revoked_client_ids (state w)) then (Inl InvalidClient, w)
         else case evict_expired now (state w) of (expired, nxt) \<Rightarrow>
           if hget (clients nxt) client_id = None \<and> MAX_REGISTRATIONS \<le> length (clients nxt)
           then (Inl RegistrationQuotaExceeded, w)
           else case commit_state io (nxt \<lparr>clients := hinsert client_id client (clients nxt)\<rparr>)
                  (deactivate_principal_lifecycles expired w) of
                (Inl e, w1) \<Rightarrow> (Inl e, w1)
              | (Inr _, w1) \<Rightarrow>
                  (let w2 = remove_principal_lifecycles expired w1
                   in (Inr (), if hget (principal_lifecycles w2) client_id = None then insert_lifecycle client_id w2 else w2)))"

definition ensure_client ::
  "oauth_env \<Rightarrow> oauth_io \<Rightarrow> clock \<Rightarrow> network \<Rightarrow> string \<Rightarrow> oauth_world \<Rightarrow> (oauth_error + unit) \<times> oauth_world" where
  "ensure_client env io clk net client_id w =
     (case ensure_client_lookup (clk 0) client_id w of
        Inl e \<Rightarrow> (Inl e, w)
      | Inr (Some DynamicRegistration) \<Rightarrow> (Inr (), w)
      | Inr existing \<Rightarrow>
          (case fst (fetch_client_metadata_document (parse_url env) (decode_document env) net client_id) of
             Inl e \<Rightarrow> if existing = Some MetadataDocument then (Inr (), w) else (Inl e, w)
           | Inr document \<Rightarrow>
               (case validate_metadata_document (parse_url env) client_id document of
                  Inl e \<Rightarrow> (Inl e, w)
                | Inr _ \<Rightarrow> ensure_client_store io (clk 1) client_id document w)))"

subsection \<open>Authorization requests\<close>

record authorization_request =
  rq_response_type :: string
  rq_client_id :: string
  rq_redirect_uri :: string
  rq_state :: string
  rq_code_challenge :: string
  rq_code_challenge_method :: string
  rq_scope :: "string option"
  rq_resource :: string

record consent_request =
  cr_consent_id :: string
  cr_client_id :: string
  cr_client_name :: string
  cr_client_source :: client_source
  cr_redirect_uri :: string
  cr_redirect_host :: string
  cr_scopes :: "string list"
  cr_resource :: string
  cr_csrf_token :: string
  cr_expires_at :: nat

definition consents_of :: "string \<Rightarrow> oauth_state \<Rightarrow> nat" where
  "consents_of client_id s =
     length (filter (\<lambda>c. c = client_id)
       (map (\<lambda>(_, p). pc_client_id p) (pending_consents s) @ map (\<lambda>(_, c). cc_client_id c) (completed_consents s)))"

definition begin_authorization_locked ::
  "oauth_env \<Rightarrow> oauth_io \<Rightarrow> nat \<Rightarrow> string \<Rightarrow> string \<Rightarrow> authorization_request \<Rightarrow> oauth_world \<Rightarrow>
   (oauth_error + consent_request) \<times> oauth_world" where
  "begin_authorization_locked env io now consent_id csrf_token request w =
     (case evict_expired now (state w) of (expired, nxt) \<Rightarrow>
        (case hget (clients nxt) (rq_client_id request) of
           None \<Rightarrow> (Inl InvalidClient, w)
         | Some client \<Rightarrow>
             if \<not> list_ex (\<lambda>uri. registered_redirect_matches (parse_url env) uri (rq_redirect_uri request)) (rc_redirect_uris client)
             then (Inl InvalidRedirectUri, w)
             else if rq_resource request \<noteq> resource env then (Inl InvalidResource, w)
             else case validate_scopes (oauth_scopes env) (rq_scope request) of
               Inl e \<Rightarrow> (Inl e, w)
             | Inr scopes \<Rightarrow>
                 if MAX_PENDING_CONSENTS \<le> length (pending_consents nxt) + length (completed_consents nxt) \<or>
                    MAX_PENDING_CONSENTS_PER_CLIENT \<le> consents_of (rq_client_id request) nxt
                 then (Inl RateLimited, w)
                 else case (case parse_url env (rq_redirect_uri request) of Some u \<Rightarrow> url_host u | None \<Rightarrow> None) of
                   None \<Rightarrow> (Inl InvalidRedirectUri, w)
                 | Some host \<Rightarrow>
                     let pending = \<lparr>pc_client_id = rq_client_id request, pc_redirect_uri = rq_redirect_uri request,
                            pc_state = rq_state request, pc_code_challenge = rq_code_challenge request, pc_scopes = scopes,
                            pc_resource = rq_resource request, pc_csrf_token = csrf_token,
                            pc_expires_at = now + AUTH_REQUEST_LIFETIME_SECS\<rparr>
                     in case commit_state io (nxt \<lparr>pending_consents := hinsert consent_id pending (pending_consents nxt)\<rparr>)
                            (deactivate_principal_lifecycles expired w) of
                          (Inl e, w1) \<Rightarrow> (Inl e, w1)
                        | (Inr _, w1) \<Rightarrow>
                            (Inr \<lparr>cr_consent_id = consent_id, cr_client_id = rq_client_id request,
                               cr_client_name = rc_client_name client, cr_client_source = rc_source client,
                               cr_redirect_uri = rq_redirect_uri request, cr_redirect_host = host, cr_scopes = scopes,
                               cr_resource = rq_resource request, cr_csrf_token = csrf_token,
                               cr_expires_at = now + AUTH_REQUEST_LIFETIME_SECS\<rparr>,
                             remove_principal_lifecycles expired w1)))"

definition begin_authorization ::
  "oauth_env \<Rightarrow> oauth_io \<Rightarrow> oauth_io \<Rightarrow> clock \<Rightarrow> network \<Rightarrow> string \<Rightarrow> string \<Rightarrow> authorization_request \<Rightarrow> oauth_world \<Rightarrow>
   (oauth_error + consent_request) \<times> oauth_world" where
  "begin_authorization env io io' clk net consent_id csrf_token request =
     guarded io (\<lambda>w.
       if rq_response_type request \<noteq> ''code'' \<or> rq_state request = [] \<or> rq_code_challenge request = [] \<or>
          rq_code_challenge_method request \<noteq> ''S256''
       then (Inl InvalidAuthorizationRequest, w)
       else case ensure_client env io clk net (rq_client_id request) w of
         (Inl e, w1) \<Rightarrow> (Inl e, w1)
       | (Inr _, w1) \<Rightarrow> begin_authorization_locked env io' (clk 2) consent_id csrf_token request w1)"

subsection \<open>Tokens\<close>

definition validate_public_client :: "nat \<Rightarrow> string \<Rightarrow> oauth_world \<Rightarrow> oauth_error + unit" where
  "validate_public_client now client_id w =
     (case hget (clients (state w)) client_id of
        Some c \<Rightarrow> if now < rc_expires_at c then Inr () else Inl InvalidClient
      | None \<Rightarrow> Inl InvalidClient)"

definition exchange_code_locked ::
  "oauth_env \<Rightarrow> oauth_io \<Rightarrow> clock \<Rightarrow> string \<Rightarrow> string \<Rightarrow> string \<Rightarrow> string \<Rightarrow> string \<Rightarrow> string \<Rightarrow> string \<Rightarrow> string \<Rightarrow>
   oauth_world \<Rightarrow> (oauth_error + token_response) \<times> oauth_world" where
  "exchange_code_locked env io clk new_family new_access new_refresh client_id auth_code redirect_uri code_verifier res w =
     (case hget (pending_codes (state w)) auth_code of
        None \<Rightarrow> (Inl InvalidGrant, w)
      | Some pending \<Rightarrow>
          if co_client_id pending \<noteq> client_id \<or> co_redirect_uri pending \<noteq> redirect_uri \<or> co_resource pending \<noteq> res \<or>
             co_expires_at pending \<le> clk 0
          then (Inl InvalidGrant, w)
          else if pkce_sha256_challenge env code_verifier \<noteq> co_code_challenge pending then (Inl PkceVerificationFailed, w)
          else
            let nxt = (state w) \<lparr>pending_codes := hremove auth_code (pending_codes (state w))\<rparr>
            in case issue_token_pair new_access new_refresh (clk 1) client_id (co_scopes pending) res new_family nxt of
                 (token, nxt') \<Rightarrow> commit_then io nxt' (Inr token) w)"

definition exchange_authorization_code ::
  "oauth_env \<Rightarrow> oauth_io \<Rightarrow> clock \<Rightarrow> string \<Rightarrow> string \<Rightarrow> string \<Rightarrow> string \<Rightarrow> string \<Rightarrow> string \<Rightarrow> string \<Rightarrow> string \<Rightarrow>
   oauth_world \<Rightarrow> (oauth_error + token_response) \<times> oauth_world" where
  "exchange_authorization_code env io clk new_family new_access new_refresh client_id auth_code redirect_uri code_verifier res =
     guarded io (\<lambda>w.
       case validate_public_client (clk 0) client_id w of
         Inl e \<Rightarrow> (Inl e, w)
       | Inr _ \<Rightarrow>
           if res \<noteq> resource env then (Inl InvalidResource, w)
           else exchange_code_locked env io (\<lambda>i. clk (i + 1)) new_family new_access new_refresh client_id auth_code
                  redirect_uri code_verifier res w)"

definition end_sign_in :: "string \<Rightarrow> oauth_world \<Rightarrow> oauth_world" where
  "end_sign_in family w =
     (case hget (family_ended w) family of
        None \<Rightarrow> w
      | Some si \<Rightarrow> w \<lparr>family_ended := hinsert family (si \<lparr>si_ended := True\<rparr>) (family_ended w)\<rparr>)"

definition prolong_sign_in :: "string \<Rightarrow> nat \<Rightarrow> oauth_world \<Rightarrow> oauth_world" where
  "prolong_sign_in family t w =
     (case hget (family_ended w) family of
        None \<Rightarrow> w
      | Some si \<Rightarrow> w \<lparr>family_ended := hinsert family (lasts_until t si) (family_ended w)\<rparr>)"

text \<open>A refresh token that is not live: unknown, or spent before.\<close>

definition reuse_refresh_token ::
  "oauth_io \<Rightarrow> clock \<Rightarrow> string \<Rightarrow> string \<Rightarrow> string \<Rightarrow> string \<Rightarrow> string \<Rightarrow> oauth_world \<Rightarrow>
   (oauth_error + token_response) \<times> oauth_world" where
  "reuse_refresh_token io clk new_access new_refresh client_id token res w =
     (case hget (consumed_refresh_tokens (state w)) token of
        None \<Rightarrow> (Inl InvalidGrant, w)
      | Some consumed \<Rightarrow>
          (case find (\<lambda>(_, live). ct_family_id consumed \<noteq> [] \<and> rf_family_id live = ct_family_id consumed \<and>
                   rf_client_id live = client_id \<and> rf_resource live = res) (refresh_tokens (state w)) of
             Some (_, sibling) \<Rightarrow>
               if ct_client_id consumed = client_id \<and> clk 0 - ct_consumed_at consumed \<le> REFRESH_REUSE_LEEWAY_SECS
               then (case issue_token_pair new_access new_refresh (clk 1) client_id (rf_scopes sibling) res (ct_family_id consumed)
                            (state w) of
                       (pair, nxt) \<Rightarrow> commit_then io nxt (Inr pair) w)
               else commit_then io (snd (revoke_token_family (ct_family_id consumed) (state w))) (Inl InvalidGrant)
                      (end_sign_in (ct_family_id consumed) w)
           | None \<Rightarrow>
               commit_then io (snd (revoke_token_family (ct_family_id consumed) (state w))) (Inl InvalidGrant)
                 (end_sign_in (ct_family_id consumed) w)))"

definition exchange_refresh_locked ::
  "oauth_io \<Rightarrow> clock \<Rightarrow> string \<Rightarrow> string \<Rightarrow> string \<Rightarrow> string \<Rightarrow> string \<Rightarrow> oauth_world \<Rightarrow>
   (oauth_error + token_response) \<times> oauth_world" where
  "exchange_refresh_locked io clk new_access new_refresh client_id token res w =
     (case hget (refresh_tokens (state w)) token of
        None \<Rightarrow> reuse_refresh_token io clk new_access new_refresh client_id token res w
      | Some refresh \<Rightarrow>
          if rf_client_id refresh \<noteq> client_id \<or> rf_resource refresh \<noteq> res \<or> rf_expires_at refresh \<le> clk 0
          then (Inl InvalidGrant, w)
          else
            let nxt1 = (state w) \<lparr>refresh_tokens := hremove token (refresh_tokens (state w)),
                   consumed_refresh_tokens := hinsert token
                     \<lparr>ct_family_id = rf_family_id refresh, ct_client_id = rf_client_id refresh, ct_consumed_at = clk 1\<rparr>
                     (consumed_refresh_tokens (state w))\<rparr>
            in case issue_token_pair new_access new_refresh (clk 3) client_id (rf_scopes refresh) res (rf_family_id refresh)
                   (prune_consumed_refresh_tokens (clk 2) nxt1) of
                 (pair, nxt2) \<Rightarrow>
                   (case commit_state io (extend_registration client_id (clk 4) nxt2) w of
                      (Inl e, w1) \<Rightarrow> (Inl e, w1)
                    | (Inr _, w1) \<Rightarrow>
                        (Inr pair, prolong_sign_in (rf_family_id refresh) (clk 5 + REFRESH_TOKEN_LIFETIME_SECS) w1)))"

definition exchange_refresh_token ::
  "oauth_env \<Rightarrow> oauth_io \<Rightarrow> clock \<Rightarrow> string \<Rightarrow> string \<Rightarrow> string \<Rightarrow> string \<Rightarrow> string \<Rightarrow> oauth_world \<Rightarrow>
   (oauth_error + token_response) \<times> oauth_world" where
  "exchange_refresh_token env io clk new_access new_refresh client_id token res =
     guarded io (\<lambda>w.
       case validate_public_client (clk 0) client_id w of
         Inl e \<Rightarrow> (Inl e, w)
       | Inr _ \<Rightarrow>
           if res \<noteq> resource env then (Inl InvalidResource, w)
           else exchange_refresh_locked io (\<lambda>i. clk (i + 1)) new_access new_refresh client_id token res w)"

record access_claims =
  cl_client_id :: string
  cl_scopes :: "string list"
  cl_resource :: string
  cl_lease :: lifecycle_lease

datatype access_validation = Valid access_claims | Invalid | InsufficientScope

definition sign_in_end :: "access_token \<Rightarrow> oauth_state \<Rightarrow> nat" where
  "sign_in_end r s =
     foldl max (ak_expires_at r)
       (map (\<lambda>(_, t). rf_expires_at t) (filter (\<lambda>(_, t). rf_family_id t = ak_family_id r) (refresh_tokens s)))"

text \<open>The sign-in of the token's family, created when it is not known yet.\<close>

definition enter_sign_in :: "access_token \<Rightarrow> oauth_world \<Rightarrow> oauth_world" where
  "enter_sign_in r w =
     (if ak_family_id r = [] then w
      else w \<lparr>family_ended := hinsert (ak_family_id r)
             (lasts_until (sign_in_end r (state w))
               (case hget (family_ended w) (ak_family_id r) of Some si \<Rightarrow> si | None \<Rightarrow> sign_in_default)) (family_ended w)\<rparr>)"

text \<open>
  The validation proper, under the lock. The public function reads the durability flag before it takes the
  lock, so this section may run although the state became uncertain in between.
\<close>

definition validate_token_locked ::
  "clock \<Rightarrow> string \<Rightarrow> string list \<Rightarrow> string \<Rightarrow> oauth_world \<Rightarrow> access_validation \<times> oauth_world" where
  "validate_token_locked clk token required_scopes res w =
     (case hget (access_tokens (state w)) token of
        None \<Rightarrow> (Invalid, w)
      | Some r \<Rightarrow>
          if ak_expires_at r \<le> clk 0 \<or> ak_resource r \<noteq> res \<or> hget (clients (state w)) (ak_client_id r) = None then (Invalid, w)
          else if list_ex (\<lambda>s. s \<notin> set (ak_scopes r)) required_scopes then (InsufficientScope, w)
          else case hget (principal_lifecycles w) (ak_client_id r) of
            None \<Rightarrow> (Invalid, w)
          | Some i \<Rightarrow>
              (let lease = \<lparr>ll_state = i, ll_generation = lc_generation (lifecycle_heap w ! i),
                     ll_family = (if ak_family_id r = [] then None else Some (ak_family_id r))\<rparr>;
                   w1 = enter_sign_in r w
               in if \<not> lease_is_active (clk 1) lease w1 then (Invalid, w1)
                  else (Valid \<lparr>cl_client_id = ak_client_id r, cl_scopes = ak_scopes r, cl_resource = ak_resource r, cl_lease = lease\<rparr>, w1)))"

definition validate_access_token_for ::
  "clock \<Rightarrow> string \<Rightarrow> string list \<Rightarrow> string \<Rightarrow> oauth_world \<Rightarrow> access_validation \<times> oauth_world" where
  "validate_access_token_for clk token required_scopes res w =
     (if durability_degraded w then (Invalid, w) else validate_token_locked clk token required_scopes res w)"

definition client_redirect_allowed :: "nat \<Rightarrow> string \<Rightarrow> string \<Rightarrow> oauth_world \<Rightarrow> bool" where
  "client_redirect_allowed now client_id redirect_uri w \<longleftrightarrow>
     (if durability_degraded w then False
      else case hget (clients (state w)) client_id of
        None \<Rightarrow> False
      | Some c \<Rightarrow> now < rc_expires_at c \<and> list_ex (\<lambda>uri. uri = redirect_uri) (rc_redirect_uris c))"

subsection \<open>Runs\<close>

text \<open>
  A run interleaves the sections of any number of calls. The second section of a call may happen at any
  time and even without its first, so runs include every interleaving of the public functions.
  \<open>Restart\<close> is a crash or a shutdown followed by a start that finds one of the files the disk may hold; a
  start that fails leaves no manager, so nothing happens until one succeeds.
\<close>

datatype oauth_step =
    EnsureDurable bool
  | CreateBootstrap oauth_io clock string
  | StartRegistration oauth_io nat string string string
  | FinishRegistration oauth_io nat string string
  | StartApproval oauth_io nat string string string
  | FinishApproval oauth_io nat string string string
  | DenyConsent oauth_io nat string string
  | RemoveOwnerCredential oauth_io string bool
  | CheckRate nat string
  | RegisterClient oauth_io nat string registration_request
  | RevokeClient oauth_io string
  | StoreClient oauth_io nat string metadata_document
  | BeginAuthorization oauth_io nat string string authorization_request
  | ExchangeCode oauth_io clock string string string string string string string string
  | ExchangeRefresh oauth_io clock string string string string string
  | ValidateToken clock string "string list" string
  | Restart clock "bool list" nat

fun oauth_exec :: "oauth_env \<Rightarrow> oauth_step \<Rightarrow> oauth_world \<Rightarrow> oauth_world" where
  "oauth_exec env (EnsureDurable ok) w = snd (ensure_durable ok w)"
| "oauth_exec env (CreateBootstrap io clk secret) w = snd (create_owner_bootstrap_locked env io clk secret w)"
| "oauth_exec env (StartRegistration io now b i e) w = snd (start_owner_registration_locked env io now b i e w)"
| "oauth_exec env (FinishRegistration io now i r) w = snd (finish_owner_registration_locked env io now i r w)"
| "oauth_exec env (StartApproval io now c i e) w = snd (start_owner_approval_locked env io now c i e w)"
| "oauth_exec env (FinishApproval io now i r ac) w = snd (finish_owner_approval_locked env io now i r ac w)"
| "oauth_exec env (DenyConsent io now c csrf) w = snd (deny_consent_locked env io now c csrf w)"
| "oauth_exec env (RemoveOwnerCredential io i allow) w = snd (remove_owner_credential_locked io i allow w)"
| "oauth_exec env (CheckRate now key) w = snd (check_registration_rate now key w)"
| "oauth_exec env (RegisterClient io now fresh request) w = snd (register_client_locked io now fresh request w)"
| "oauth_exec env (RevokeClient io c) w = snd (revoke_client_locked io c w)"
| "oauth_exec env (StoreClient io now c d) w = snd (ensure_client_store io now c d w)"
| "oauth_exec env (BeginAuthorization io now c csrf request) w = snd (begin_authorization_locked env io now c csrf request w)"
| "oauth_exec env (ExchangeCode io clk f a r c ac uri v res) w = snd (exchange_code_locked env io clk f a r c ac uri v res w)"
| "oauth_exec env (ExchangeRefresh io clk a r c t res) w = snd (exchange_refresh_locked io clk a r c t res w)"
| "oauth_exec env (ValidateToken clk t sc res) w = snd (validate_token_locked clk t sc res w)"
| "oauth_exec env (Restart clk syncs i) w =
     (if i < length (disk w)
      then (case oauth_start clk syncs (disk w ! i) of Inl _ \<Rightarrow> w | Inr w' \<Rightarrow> w')
      else w)"

definition oauth_new :: oauth_world where
  "oauth_new =
     \<lparr>state = oauth_state_default, principal_lifecycles = [], lifecycle_heap = [], family_ended = [], registration_rate = [],
      durability_degraded = False, disk = [None]\<rparr>"

definition oauth_run :: "oauth_env \<Rightarrow> oauth_step list \<Rightarrow> oauth_world" where
  "oauth_run env steps = fold (oauth_exec env) steps oauth_new"

end
