(* ===== verification/Oauth_Invariant.thy ===== *)
theory Oauth_Invariant
  imports Oauth
begin

section \<open>What the authorization server's records obey\<close>

text \<open>
  Every section commits at most one new state, computed from the live one. Two facts about that
  state carry the rest of the development: it is well formed and within the limits
  (\<open>state_ok\<close>), and it differs from the live state by one of the few changes that \<open>grants_step\<close>
  lists. Both are proved once per operation. \<open>in_play\<close> are the states that matter at a moment: the live
  one and those a restart may find on the disk; what holds of all of them survives crashes.
\<close>

subsection \<open>Well-formed states\<close>

definition maps_ok :: "oauth_state \<Rightarrow> bool" where
  "maps_ok s \<longleftrightarrow>
     hmap_ok (clients s) \<and> hmap_ok (pending_consents s) \<and> hmap_ok (completed_consents s) \<and> hmap_ok (pending_codes s) \<and>
     hmap_ok (access_tokens s) \<and> hmap_ok (refresh_tokens s) \<and> hmap_ok (consumed_refresh_tokens s) \<and>
     hmap_ok (owner_credentials s) \<and> hmap_ok (owner_registration_ceremonies s) \<and> hmap_ok (owner_authentication_ceremonies s)"

definition tokens_of :: "string \<Rightarrow> (string, access_token) hmap \<Rightarrow> nat" where
  "tokens_of c m = length (filter (\<lambda>(_, t). ak_client_id t = c) m)"

definition within_limits :: "oauth_state \<Rightarrow> bool" where
  "within_limits s \<longleftrightarrow>
     length (clients s) \<le> MAX_REGISTRATIONS \<and>
     length (pending_consents s) + length (completed_consents s) \<le> MAX_PENDING_CONSENTS \<and>
     (\<forall>c. consents_of c s \<le> MAX_PENDING_CONSENTS_PER_CLIENT) \<and>
     (\<forall>c. tokens_of c (access_tokens s) \<le> MAX_ACCESS_TOKENS_PER_CLIENT) \<and>
     length (owner_credentials s) \<le> MAX_OWNER_CREDENTIALS \<and>
     length (owner_bootstraps s) \<le> 1 \<and>
     length (owner_registration_ceremonies s) \<le> MAX_OWNER_CHALLENGES \<and>
     length (owner_authentication_ceremonies s) \<le> MAX_PENDING_CONSENTS"

definition state_ok :: "oauth_state \<Rightarrow> bool" where
  "state_ok s \<longleftrightarrow> version s = STATE_VERSION \<and> maps_ok s \<and> within_limits s"

lemma state_okD:
  assumes "state_ok s"
  shows "maps_ok s" "within_limits s" "version s = STATE_VERSION"
  using assms by (simp_all add: state_ok_def)

subsection \<open>Fewer grants\<close>

text \<open>No consent, code or token of \<open>s'\<close> is new, and every client of it was there with the same redirect addresses.\<close>

definition same_redirects :: "(string, registered_client) hmap \<Rightarrow> (string, registered_client) hmap \<Rightarrow> bool" where
  "same_redirects m m' \<longleftrightarrow>
     (\<forall>k c'. hget m' k = Some c' \<longrightarrow> (\<exists>c. hget m k = Some c \<and> rc_redirect_uris c = rc_redirect_uris c'))"

definition shrinks :: "oauth_state \<Rightarrow> oauth_state \<Rightarrow> bool" where
  "shrinks s s' \<longleftrightarrow>
     same_redirects (clients s) (clients s') \<and>
     map_of (pending_consents s') \<subseteq>\<^sub>m map_of (pending_consents s) \<and>
     map_of (pending_codes s') \<subseteq>\<^sub>m map_of (pending_codes s) \<and>
     map_of (access_tokens s') \<subseteq>\<^sub>m map_of (access_tokens s) \<and>
     map_of (refresh_tokens s') \<subseteq>\<^sub>m map_of (refresh_tokens s) \<and>
     map_of (consumed_refresh_tokens s') \<subseteq>\<^sub>m map_of (consumed_refresh_tokens s) \<and>
     set (revoked_client_ids s) \<subseteq> set (revoked_client_ids s')"

lemma same_redirects_refl [simp]: "same_redirects m m"
  by (simp add: same_redirects_def)

lemma same_redirects_trans: "same_redirects m m' \<Longrightarrow> same_redirects m' m'' \<Longrightarrow> same_redirects m m''"
  unfolding same_redirects_def by metis

lemma shrinks_refl [simp]: "shrinks s s"
  by (simp add: shrinks_def)

lemma shrinks_trans: "shrinks s s' \<Longrightarrow> shrinks s' s'' \<Longrightarrow> shrinks s s''"
  unfolding shrinks_def by (intro conjI; elim conjE; (rule same_redirects_trans map_le_trans subset_trans; assumption))

lemma retain_le: "hmap_ok m \<Longrightarrow> map_of (hretain P m) \<subseteq>\<^sub>m map_of m"
  by (auto simp: map_le_def hm.get_retain split: option.splits if_splits)

lemma remove_le: "map_of (hremove k m) \<subseteq>\<^sub>m map_of m"
  by (simp add: hm.get_del map_le_def)

lemma fold_remove_le: "map_of (fold hremove ks m) \<subseteq>\<^sub>m map_of m"
  by (induction ks arbitrary: m) (auto intro: map_le_trans remove_le)

lemma same_redirects_le: "map_of m' \<subseteq>\<^sub>m map_of m \<Longrightarrow> same_redirects m m'"
  unfolding same_redirects_def map_le_def by (metis domI)

lemmas le_intros = retain_le remove_le fold_remove_le same_redirects_le

subsection \<open>The changes a section can make\<close>

text \<open>
  The client, scopes and resource that a consent, a code or a token stands for.
\<close>

type_synonym grant = "string \<times> string list \<times> string"

definition consent_grant :: "pending_consent \<Rightarrow> grant" where
  "consent_grant p = (pc_client_id p, pc_scopes p, pc_resource p)"

definition code_grant :: "authorization_code \<Rightarrow> grant" where
  "code_grant c = (co_client_id c, co_scopes c, co_resource c)"

definition access_grant :: "access_token \<Rightarrow> grant" where
  "access_grant t = (ak_client_id t, ak_scopes t, ak_resource t)"

definition refresh_grant :: "refresh_token \<Rightarrow> grant" where
  "refresh_grant t = (rf_client_id t, rf_scopes t, rf_resource t)"

text \<open>The owner approves a pending consent: a live ceremony bound to it, answered with a registered passkey and user verification.\<close>

definition owner_approves :: "oauth_env \<Rightarrow> oauth_step \<Rightarrow> oauth_state \<Rightarrow> pending_consent \<Rightarrow> bool" where
  "owner_approves env step s p \<longleftrightarrow>
     (\<exists>io now i response ac ceremony asserted stored counter.
        step = FinishApproval io now i response ac \<and>
        hget (owner_authentication_ceremonies s) i = Some ceremony \<and> now < au_expires_at ceremony \<and>
        hget (pending_consents s) (au_consent_id ceremony) = Some p \<and> now < pc_expires_at p \<and>
        au_consent_binding ceremony = consent_binding env (au_consent_id ceremony) p \<and>
        asserted_credential_id env response = Some asserted \<and> asserted \<in> set (au_credential_ids ceremony) \<and>
        hget (owner_credentials s) asserted = Some stored \<and>
        finish_authentication env (au_state ceremony) response (oc_passkey stored) = Some (counter, True))"

inductive grants_step :: "oauth_env \<Rightarrow> oauth_step \<Rightarrow> oauth_state \<Rightarrow> oauth_state \<Rightarrow> bool" for env step s where
  Keep: "shrinks s s' \<Longrightarrow> grants_step env step s s'"
| AddClient:
    "shrinks s s1 \<Longrightarrow> s' = s1 \<lparr>clients := hinsert k c (clients s1)\<rparr> \<Longrightarrow>
     (\<exists>io now v r. step = RegisterClient io now v r \<and> k = ''plug_'' @ v) \<or> k \<notin> set (revoked_client_ids s) \<Longrightarrow>
     grants_step env step s s'"
| AddConsent:
    "shrinks s s1 \<Longrightarrow> s' = s1 \<lparr>pending_consents := hinsert k p (pending_consents s1)\<rparr> \<Longrightarrow>
     hget (clients s) (pc_client_id p) = Some c \<Longrightarrow>
     list_ex (\<lambda>uri. registered_redirect_matches (parse_url env) uri (pc_redirect_uri p)) (rc_redirect_uris c) \<Longrightarrow>
     set (pc_scopes p) \<subseteq> set (oauth_scopes env) \<Longrightarrow> pc_scopes p \<noteq> [] \<Longrightarrow> pc_resource p = resource env \<Longrightarrow>
     grants_step env step s s'"
| AddCode:
    "shrinks s s1 \<Longrightarrow> same_redirects (clients s) (clients s') \<Longrightarrow> pending_consents s' = pending_consents s1 \<Longrightarrow>
     pending_codes s' = hinsert k c (pending_codes s1) \<Longrightarrow>
     access_tokens s' = access_tokens s1 \<Longrightarrow> refresh_tokens s' = refresh_tokens s1 \<Longrightarrow>
     consumed_refresh_tokens s' = consumed_refresh_tokens s1 \<Longrightarrow> revoked_client_ids s' = revoked_client_ids s1 \<Longrightarrow>
     step = FinishApproval io now i response k \<Longrightarrow>
     owner_approves env step s p \<Longrightarrow> code_grant c = consent_grant p \<Longrightarrow> co_redirect_uri c = pc_redirect_uri p \<Longrightarrow>
     co_code_challenge c = pc_code_challenge p \<Longrightarrow>
     grants_step env step s s'"
| AddPair:
    "shrinks s s1 \<Longrightarrow> same_redirects (clients s) (clients s') \<Longrightarrow> pending_consents s' = pending_consents s1 \<Longrightarrow>
     pending_codes s' = pending_codes s1 \<Longrightarrow>
     access_tokens s' = hinsert ka a (access_tokens s1) \<Longrightarrow> refresh_tokens s' = hinsert kr r (refresh_tokens s1) \<Longrightarrow>
     (\<And>kc d. hget (consumed_refresh_tokens s') kc = Some d \<Longrightarrow>
        hget (consumed_refresh_tokens s) kc = Some d \<or>
        (\<exists>t. hget (refresh_tokens s) kc = Some t \<and> rf_family_id t = ct_family_id d)) \<Longrightarrow>
     revoked_client_ids s' = revoked_client_ids s1 \<Longrightarrow>
     access_grant a = g \<Longrightarrow> refresh_grant r = g \<Longrightarrow> ak_family_id a = f \<Longrightarrow> rf_family_id r = f \<Longrightarrow>
     (\<exists>io clk ar rr ci uri v res ac c. step = ExchangeCode io clk f ar rr ci ac uri v res \<and>
        hget (pending_codes s) ac = Some c \<and> code_grant c = g \<and> hget (pending_codes s') ac = None) \<or>
     (\<exists>kt t. hget (refresh_tokens s) kt = Some t \<and> refresh_grant t = g \<and> rf_family_id t = f) \<Longrightarrow>
     grants_step env step s s'"

subsection \<open>Thinner states\<close>

text \<open>Nothing but removals: every map is a subsequence of what it was.\<close>

definition thins :: "oauth_state \<Rightarrow> oauth_state \<Rightarrow> bool" where
  "thins s s' \<longleftrightarrow>
     version s' = version s \<and> subseq (clients s') (clients s) \<and> subseq (pending_consents s') (pending_consents s) \<and>
     subseq (completed_consents s') (completed_consents s) \<and> subseq (pending_codes s') (pending_codes s) \<and>
     subseq (access_tokens s') (access_tokens s) \<and> subseq (refresh_tokens s') (refresh_tokens s) \<and>
     subseq (consumed_refresh_tokens s') (consumed_refresh_tokens s) \<and> subseq (owner_credentials s') (owner_credentials s) \<and>
     subseq (owner_bootstraps s') (owner_bootstraps s) \<and>
     subseq (owner_registration_ceremonies s') (owner_registration_ceremonies s) \<and>
     subseq (owner_authentication_ceremonies s') (owner_authentication_ceremonies s) \<and>
     set (revoked_client_ids s) \<subseteq> set (revoked_client_ids s')"

lemma thins_refl [simp]: "thins s s"
  by (simp add: thins_def)

lemma thins_trans: "thins s s' \<Longrightarrow> thins s' s'' \<Longrightarrow> thins s s''"
  unfolding thins_def by (elim conjE; intro conjI; (rule subseq_order.trans subset_trans; assumption)?) simp_all

lemma subseq_subset: "subseq xs ys \<Longrightarrow> set xs \<subseteq> set ys"
  by (auto elim: list_emb_set)

lemma subseq_hmap_ok: "subseq m' m \<Longrightarrow> hmap_ok m \<Longrightarrow> hmap_ok m'"
proof (unfold hmap_ok_def, induction rule: list_emb.induct)
  case (list_emb_Cons2 x y xs ys)
  then show ?case using subseq_subset [of xs ys] by auto
qed auto

lemma subseq_map_le: "subseq m' m \<Longrightarrow> hmap_ok m \<Longrightarrow> map_of m' \<subseteq>\<^sub>m map_of m"
  using subseq_hmap_ok [of m' m] subseq_subset [of m' m]
  unfolding map_le_def by (metis domIff hmap_mem_iff not_None_eq subset_iff)

lemma subseq_filter_len: "subseq m' m \<Longrightarrow> length (filter P m') \<le> length (filter P m)"
  by (rule list_emb_length [OF subseq_filter])

lemma thins_maps_ok: "thins s s' \<Longrightarrow> maps_ok s \<Longrightarrow> maps_ok s'"
  unfolding thins_def maps_ok_def by (elim conjE; intro conjI; (erule (1) subseq_hmap_ok))

lemma consents_of_alt:
  "consents_of c s = length (filter (\<lambda>(_, p). pc_client_id p = c) (pending_consents s)) +
     length (filter (\<lambda>(_, p). cc_client_id p = c) (completed_consents s))"
  by (simp add: consents_of_def filter_map comp_def case_prod_beta')

lemma thins_counts:
  assumes "thins s s'"
  shows "consents_of c s' \<le> consents_of c s" "tokens_of c (access_tokens s') \<le> tokens_of c (access_tokens s)"
  using assms unfolding thins_def consents_of_alt tokens_of_def
  by (auto intro!: add_mono subseq_filter_len)

lemma thins_lengths:
  assumes "thins s s'"
  shows "length (clients s') \<le> length (clients s)" "length (pending_consents s') \<le> length (pending_consents s)"
    "length (completed_consents s') \<le> length (completed_consents s)" "length (owner_credentials s') \<le> length (owner_credentials s)"
    "length (owner_bootstraps s') \<le> length (owner_bootstraps s)"
    "length (owner_registration_ceremonies s') \<le> length (owner_registration_ceremonies s)"
    "length (owner_authentication_ceremonies s') \<le> length (owner_authentication_ceremonies s)"
  using assms unfolding thins_def by (auto intro: list_emb_length)

lemma thins_within_limits: "thins s s' \<Longrightarrow> within_limits s \<Longrightarrow> within_limits s'"
  unfolding within_limits_def
  using thins_lengths [of s s'] thins_counts [of s s'] by (meson add_mono order_trans)

lemma thins_state_ok: "thins s s' \<Longrightarrow> state_ok s \<Longrightarrow> state_ok s'"
  unfolding state_ok_def by (metis thins_maps_ok thins_within_limits thins_def)

lemma thins_shrinks: "thins s s' \<Longrightarrow> maps_ok s \<Longrightarrow> shrinks s s'"
  unfolding thins_def maps_ok_def shrinks_def by (auto intro: subseq_map_le same_redirects_le)

lemma thins_evict_owner [simp]: "thins s (evict_expired_owner_records now s)"
  by (simp add: evict_expired_owner_records_def Let_def thins_def hretain_def del: filter_filter)
    (rule subseq_order.trans [OF subseq_filter_left subseq_filter_left])

lemma thins_evict [simp]: "thins s (snd (evict_expired now s))"
proof -
  have "thins s (s \<lparr>clients := hretain P1 (clients s), pending_consents := hretain P2 (pending_consents s),
      completed_consents := hretain P3 (completed_consents s), pending_codes := hretain P4 (pending_codes s),
      access_tokens := hretain P5 (access_tokens s), refresh_tokens := hretain P6 (refresh_tokens s)\<rparr>)" for P1 P2 P3 P4 P5 P6
    by (simp add: thins_def hretain_def)
  then show ?thesis unfolding evict_expired_def Let_def snd_conv by (rule thins_trans) (rule thins_evict_owner)
qed

lemma thins_prune [simp]: "thins s (prune_consumed_refresh_tokens now s)"
  by (simp add: prune_consumed_refresh_tokens_def thins_def hretain_def)

lemma thins_remove_client: "thins s (remove_client_material c s)"
  by (simp add: remove_client_material_def thins_def hretain_def hremove_def)

lemma thins_drop_ceremonies: "thins s (drop_ceremonies_of c s)"
  by (simp add: drop_ceremonies_of_def thins_def hretain_def)

lemma thins_expire_consent: "thins s (snd (expire_consent i c s))"
  by (simp add: expire_consent_def drop_ceremonies_of_def thins_def hretain_def hremove_def)

lemma thins_revoke_family: "thins s (snd (revoke_token_family f s))"
  by (simp add: revoke_token_family_def thins_def hretain_def Let_def)

lemmas thins_ops = thins_evict_owner thins_evict thins_prune thins_remove_client thins_drop_ceremonies
  thins_expire_consent thins_revoke_family

subsection \<open>Additions within the limits\<close>

lemma filter_hinsert_le: "length (filter P (hinsert k v m)) \<le> length (filter P m) + (if P (k, v) then 1 else 0)"
  unfolding hinsert_def by (induction m) auto

lemma length_hinsert_le: "length (hinsert k v m) \<le> Suc (length m)"
  using filter_hinsert_le [of "\<lambda>_. True" k v m] by simp

lemma filter_hremove_present:
  "hmap_ok m \<Longrightarrow> hget m k = Some v \<Longrightarrow>
     length (filter P m) = length (filter P (hremove k m)) + (if P (k, v) then 1 else 0)"
proof (induction m)
  case (Cons e m)
  show ?case
  proof (cases "fst e = k")
    case True
    with Cons.prems have "hremove k m = m" by (intro hremove_absent) (auto simp: hmap_ok_def map_of_eq_None_iff)
    with True Cons.prems show ?thesis by (cases e) (simp add: hremove_def)
  next
    case False
    with Cons.prems have "length (filter P m) = length (filter P (hremove k m)) + (if P (k, v) then 1 else 0)"
      by (intro Cons.IH) (auto simp: hmap_ok_def split: if_splits)
    with False show ?thesis by (simp add: hremove_def)
  qed
qed simp

lemma ok_add_client:
  assumes "state_ok s" "length (clients s) < MAX_REGISTRATIONS \<or> hget (clients s) k \<noteq> None"
  shows "state_ok (s \<lparr>clients := hinsert k c (clients s)\<rparr>)"
proof -
  have "length (hinsert k c (clients s)) \<le> MAX_REGISTRATIONS"
    using assms length_hinsert_le [of k c "clients s"] length_hinsert_old [of "clients s" k]
    by (auto simp: state_ok_def within_limits_def)
  with assms(1) show ?thesis
    by (auto simp: state_ok_def maps_ok_def within_limits_def consents_of_alt)
qed

lemma ok_add_consent:
  assumes "state_ok s" "length (pending_consents s) + length (completed_consents s) < MAX_PENDING_CONSENTS"
    "consents_of (pc_client_id p) s < MAX_PENDING_CONSENTS_PER_CLIENT"
  shows "state_ok (s \<lparr>pending_consents := hinsert k p (pending_consents s)\<rparr>)"
proof -
  have "length (hinsert k p (pending_consents s)) + length (completed_consents s) \<le> MAX_PENDING_CONSENTS"
    using assms(2) length_hinsert_le [of k p "pending_consents s"] by simp
  moreover have "consents_of c (s \<lparr>pending_consents := hinsert k p (pending_consents s)\<rparr>) \<le> MAX_PENDING_CONSENTS_PER_CLIENT" for c
  proof -
    have "consents_of c s \<le> MAX_PENDING_CONSENTS_PER_CLIENT" using assms(1) by (simp add: state_ok_def within_limits_def)
    then show ?thesis
      using assms(3) filter_hinsert_le [of "\<lambda>(_, p). pc_client_id p = c" k p "pending_consents s"]
      by (cases "pc_client_id p = c") (simp_all add: consents_of_alt)
  qed
  ultimately show ?thesis
    using assms(1) by (auto simp: state_ok_def maps_ok_def within_limits_def)
qed

lemma ok_move_consent:
  assumes ok: "state_ok s" and p: "hget (pending_consents s) k = Some p" and cc: "cc_client_id cc = pc_client_id p"
  shows "state_ok (s \<lparr>pending_consents := hremove k (pending_consents s), completed_consents := hinsert k cc (completed_consents s)\<rparr>)"
    (is "state_ok ?s")
proof -
  have m: "hmap_ok (pending_consents s)" using ok by (simp add: state_ok_def maps_ok_def)
  have "length (pending_consents ?s) + length (completed_consents ?s) \<le> length (pending_consents s) + length (completed_consents s)"
    using length_hinsert_le [of k cc "completed_consents s"] length_hremove_present [OF m p] by simp
  moreover have "consents_of c ?s \<le> consents_of c s" for c
    using filter_hinsert_le [of "\<lambda>(_, p). cc_client_id p = c" k cc "completed_consents s"]
      filter_hremove_present [OF m p, of "\<lambda>(_, p). pc_client_id p = c"] cc
    by (auto simp: consents_of_alt split: if_splits)
  ultimately show ?thesis
    using ok by (auto simp: state_ok_def maps_ok_def within_limits_def intro: order_trans)
qed

lemma ok_other_fields:
  assumes "state_ok s" "hmap_ok codes" "hmap_ok refresh" "hmap_ok consumed"
  shows "state_ok (s \<lparr>pending_codes := codes, refresh_tokens := refresh, consumed_refresh_tokens := consumed\<rparr>)"
  using assms by (simp add: state_ok_def maps_ok_def within_limits_def consents_of_alt)

lemma extend_registration_frame [simp]:
  "pending_consents (extend_registration c now s) = pending_consents s"
  "completed_consents (extend_registration c now s) = completed_consents s"
  "pending_codes (extend_registration c now s) = pending_codes s"
  "access_tokens (extend_registration c now s) = access_tokens s"
  "refresh_tokens (extend_registration c now s) = refresh_tokens s"
  "consumed_refresh_tokens (extend_registration c now s) = consumed_refresh_tokens s"
  "revoked_client_ids (extend_registration c now s) = revoked_client_ids s"
  by (simp_all add: extend_registration_def split: option.splits)

lemma extend_registration_ok: "state_ok s \<Longrightarrow> state_ok (extend_registration c now s)"
  by (auto simp: extend_registration_def intro!: ok_add_client split: option.splits)

lemma extend_registration_redirects: "same_redirects (clients s) (clients (extend_registration c now s))"
  by (auto simp: extend_registration_def same_redirects_def hm.get_ins split: option.splits if_splits)

lemma issue_code_ok:
  assumes ok: "state_ok s" and p: "hget (pending_consents s) k = Some p"
  shows "state_ok (snd (issue_code_for_consent env ac k p ids now s))"
proof -
  let ?cc = "\<lparr>cc_client_id = pc_client_id p,
    cc_redirect = redirect_with_params env (pc_redirect_uri p) [(''code'', ac), (''state'', pc_state p)],
    cc_expires_at = now + AUTH_CODE_LIFETIME_SECS, cc_approval_ceremony_ids = ids\<rparr>"
  let ?co = "code_of_consent p now"
  let ?m = "s \<lparr>pending_consents := hremove k (pending_consents s), completed_consents := hinsert k ?cc (completed_consents s)\<rparr>"
  have m: "state_ok ?m" by (rule ok_move_consent [OF ok p]) simp
  have "state_ok ((drop_ceremonies_of k ?m) \<lparr>pending_codes := hinsert ac ?co (pending_codes s)\<rparr>)"
    using ok_other_fields [OF thins_state_ok [OF thins_drop_ceremonies [of ?m k] m], of "hinsert ac ?co (pending_codes s)"
        "refresh_tokens s" "consumed_refresh_tokens s"] ok
    by (auto simp: state_ok_def maps_ok_def drop_ceremonies_of_def)
  from extend_registration_ok [OF this, of "pc_client_id p" now] show ?thesis
    by (cases s) (simp add: issue_code_for_consent_def complete_consent_def drop_ceremonies_of_def extend_registration_def Let_def
        split: option.splits)
qed

lemma subseq_fold_remove: "subseq (fold hremove ks m) m"
proof (induction ks arbitrary: m)
  case (Cons k ks)
  have "subseq (fold hremove ks (hremove k m)) (hremove k m)" by (rule Cons.IH)
  moreover have "subseq (hremove k m) m" by (simp add: hremove_def)
  ultimately show ?case by (auto intro: subseq_order.trans)
qed simp

lemma fold_remove_tokens:
  "hmap_ok m \<Longrightarrow> distinct ks \<Longrightarrow> (\<And>k. k \<in> set ks \<Longrightarrow> \<exists>t. hget m k = Some t \<and> ak_client_id t = c) \<Longrightarrow>
     tokens_of c (fold hremove ks m) + length ks = tokens_of c m"
proof (induction ks arbitrary: m)
  case (Cons k ks)
  then obtain t where t: "hget m k = Some t" "ak_client_id t = c" by auto
  have "tokens_of c (fold hremove ks (hremove k m)) + length ks = tokens_of c (hremove k m)"
    using Cons.prems by (intro Cons.IH) (auto simp: hm.get_del)
  then show ?case using filter_hremove_present [OF Cons.prems(1) t(1), of "\<lambda>(_, t). ak_client_id t = c"] t(2)
    by (simp add: tokens_of_def)
qed simp

lemma surplus_spec:
  assumes "hmap_ok (access_tokens s)"
  shows "distinct (surplus_access_tokens c s)"
    "length (surplus_access_tokens c s) = tokens_of c (access_tokens s) - (MAX_ACCESS_TOKENS_PER_CLIENT - 1)"
    "k \<in> set (surplus_access_tokens c s) \<Longrightarrow> \<exists>t. hget (access_tokens s) k = Some t \<and> ak_client_id t = c"
proof -
  let ?ex = "map (\<lambda>(v, t). (v, ak_issued_at t)) (filter (\<lambda>(_, t). ak_client_id t = c) (access_tokens s))"
  have keys: "map fst ?ex = map fst (filter (\<lambda>(_, t). ak_client_id t = c) (access_tokens s))" by (auto simp: case_prod_beta')
  have "distinct (map fst ?ex)" unfolding keys using assms by (simp add: hmap_ok_def keys_filter_distinct)
  then have "distinct (map fst (sort_key snd ?ex))"
    by (simp only: distinct_map distinct_sort set_sort)
  then show "distinct (surplus_access_tokens c s)"
    by (simp add: surplus_access_tokens_def Let_def distinct_take flip: take_map)
  show "length (surplus_access_tokens c s) = tokens_of c (access_tokens s) - (MAX_ACCESS_TOKENS_PER_CLIENT - 1)"
    by (simp add: surplus_access_tokens_def Let_def tokens_of_def)
  show "\<exists>t. hget (access_tokens s) k = Some t \<and> ak_client_id t = c" if "k \<in> set (surplus_access_tokens c s)"
    using that assms
    by (auto simp: surplus_access_tokens_def Let_def hmap_mem_iff dest!: in_set_takeD)
qed

lemma issue_pair_ok:
  assumes ok: "state_ok s"
  shows "state_ok (snd (issue_token_pair a r now c scopes res f s))"
proof -
  let ?kept = "fold hremove (surplus_access_tokens c s) (access_tokens s)"
  have m: "hmap_ok (access_tokens s)" using ok by (simp add: state_ok_def maps_ok_def)
  have "tokens_of c ?kept + length (surplus_access_tokens c s) = tokens_of c (access_tokens s)"
    using surplus_spec(1,3) [OF m, where c = c] by (intro fold_remove_tokens m)
  then have own: "tokens_of c ?kept < MAX_ACCESS_TOKENS_PER_CLIENT"
    using surplus_spec(2) [OF m, of c] by (simp add: oauth_limits)
  note sub = subseq_fold_remove [of "surplus_access_tokens c s" "access_tokens s"]
  have kept_ok: "hmap_ok ?kept" by (rule subseq_hmap_ok [OF sub m])
  have "tokens_of c' (hinsert a t ?kept) \<le> MAX_ACCESS_TOKENS_PER_CLIENT" if "ak_client_id t = c" for c' t
  proof -
    have "tokens_of c' ?kept \<le> tokens_of c' (access_tokens s)" "tokens_of c' (access_tokens s) \<le> MAX_ACCESS_TOKENS_PER_CLIENT"
      using ok subseq_filter_len [OF sub] by (simp_all add: tokens_of_def state_ok_def within_limits_def)
    then show ?thesis
      using own that filter_hinsert_le [of "\<lambda>(_, t). ak_client_id t = c'" a t ?kept]
      by (cases "c = c'") (simp_all add: tokens_of_def)
  qed
  then show ?thesis
    using ok kept_ok by (auto simp: issue_token_pair_def Let_def state_ok_def maps_ok_def within_limits_def consents_of_alt)
qed

subsection \<open>Ceremonies\<close>

lemma evicted_ceremonies:
  fixes now :: nat
  assumes "hmap_ok (owner_authentication_ceremonies s)"
  defines "cs \<equiv> owner_authentication_ceremonies (evict_expired_owner_records now s)"
  shows "distinct (map (\<lambda>(_, c). au_consent_id c) cs)"
    "(i, c) \<in> set cs \<Longrightarrow> au_consent_id c \<in> fst ` set (pending_consents s)"
proof -
  define live where "live = hretain (\<lambda>_ c. now < au_expires_at c \<and> au_consent_id c \<in> fst ` set (pending_consents s))
    (owner_authentication_ceremonies s)"
  have n: "\<exists>t. hget (fold add_newest live []) (au_consent_id c) = Some (t, i)" if "(i, c) \<in> set cs" for i c
    using that by (auto simp: cs_def evict_expired_owner_records_def Let_def hretain_def live_def split: option.splits)
  have ok: "hmap_ok cs"
    unfolding cs_def by (rule subseq_hmap_ok [OF _ assms(1)]) (use thins_evict_owner [of s now] in \<open>simp add: thins_def\<close>)
  then have "inj_on (\<lambda>(_, c). au_consent_id c) (set cs)"
    by (intro inj_onI) (metis (no_types, lifting) n hmap_mem_iff old.prod.case option.inject prod.exhaust prod.inject)
  moreover have "distinct cs" using ok unfolding hmap_ok_def distinct_map ..
  ultimately show "distinct (map (\<lambda>(_, c). au_consent_id c) cs)" by (simp add: distinct_map)
  show "au_consent_id c \<in> fst ` set (pending_consents s)" if "(i, c) \<in> set cs"
    using that by (auto simp: cs_def evict_expired_owner_records_def Let_def hretain_def)
qed

text \<open>So a consent that asks for a challenge finds room: the others have at most one ceremony each.\<close>

lemma ceremonies_room:
  fixes now :: nat
  assumes ok: "maps_ok s" and k: "hget (pending_consents s) k = Some p"
  defines "cs \<equiv> owner_authentication_ceremonies (drop_ceremonies_of k (evict_expired_owner_records now s))"
  shows "length cs < length (pending_consents s)"
proof -
  let ?f = "\<lambda>(_ :: string, c). au_consent_id c"
  have m: "hmap_ok (owner_authentication_ceremonies s)" "hmap_ok (pending_consents s)" using ok by (simp_all add: maps_ok_def)
  note ev = evicted_ceremonies [OF m(1), where now = now]
  have cs: "cs = filter (\<lambda>e. au_consent_id (snd e) \<noteq> k) (owner_authentication_ceremonies (evict_expired_owner_records now s))"
    by (simp add: cs_def drop_ceremonies_of_def hretain_def)
  have "distinct (map ?f cs)" unfolding cs using ev(1) by (rule keys_filter_distinct)
  then have "length cs = card (?f ` set cs)" using distinct_card [of "map ?f cs"] by simp
  also have "\<dots> \<le> card (fst ` set (pending_consents s) - {k})"
    by (rule card_mono) (use ev(2) cs in auto)
  also have "\<dots> < card (fst ` set (pending_consents s))"
    using k by (intro card_Diff1_less) (auto dest: map_of_SomeD simp: rev_image_eqI)
  also have "\<dots> = length (pending_consents s)"
    using m(2) distinct_card [of "map fst (pending_consents s)"] by (simp add: hmap_ok_def)
  finally show ?thesis .
qed

subsection \<open>States in play\<close>

definition file_state :: "oauth_state option \<Rightarrow> oauth_state" where
  "file_state f = (case f of None \<Rightarrow> oauth_state_default | Some s \<Rightarrow> s)"

definition in_play :: "oauth_world \<Rightarrow> oauth_state set" where
  "in_play w = insert (state w) (file_state ` set (disk w))"

lemma state_in_play [simp]: "state w \<in> in_play w"
  by (simp add: in_play_def)

lemma lifecycle_frame [simp]:
  "state (deactivate_lifecycle c w) = state w" "disk (deactivate_lifecycle c w) = disk w"
  "state (deactivate_principal_lifecycles cs w) = state w" "disk (deactivate_principal_lifecycles cs w) = disk w"
  "state (remove_principal_lifecycles cs w) = state w" "disk (remove_principal_lifecycles cs w) = disk w"
  "state (insert_lifecycle c w) = state w" "disk (insert_lifecycle c w) = disk w"
  "state (end_sign_in f w) = state w" "disk (end_sign_in f w) = disk w"
  "state (prolong_sign_in f t w) = state w" "disk (prolong_sign_in f t w) = disk w"
  "state (enter_sign_in r w) = state w" "disk (enter_sign_in r w) = disk w"
proof -
  show d: "state (deactivate_lifecycle c w) = state w" "disk (deactivate_lifecycle c w) = disk w" for c w
    by (simp_all add: deactivate_lifecycle_def split: option.splits)
  show "state (deactivate_principal_lifecycles cs w) = state w" "disk (deactivate_principal_lifecycles cs w) = disk w"
    unfolding deactivate_principal_lifecycles_def by (induction cs arbitrary: w) (simp_all add: d)
qed (simp_all add: remove_principal_lifecycles_def insert_lifecycle_def end_sign_in_def prolong_sign_in_def enter_sign_in_def
    split: option.splits)

lemma ensure_durable_cases:
  obtains (fine) "fst (ensure_durable ok w) = Inr ()" "snd (ensure_durable ok w) = w" "\<not> durability_degraded w"
  | (settled) "fst (ensure_durable ok w) = Inr ()" "snd (ensure_durable ok w) = w \<lparr>durability_degraded := False, disk := take 1 (disk w)\<rparr>"
      "durability_degraded w"
  | (refused) "fst (ensure_durable ok w) = Inl Persistence" "snd (ensure_durable ok w) = w" "durability_degraded w"
proof (cases "durability_degraded w")
  case True
  then show ?thesis using settled refused by (cases ok) (simp_all add: ensure_durable_def)
next
  case False
  then show ?thesis using fine by (simp add: ensure_durable_def)
qed

lemma ensure_durable_state [simp]: "state (snd (ensure_durable ok w)) = state w"
  by (cases rule: ensure_durable_cases [of ok w]) simp_all

lemma ensure_durable_in_play: "in_play (snd (ensure_durable ok w)) \<subseteq> in_play w"
  by (cases rule: ensure_durable_cases [of ok w]) (auto simp: in_play_def dest: in_set_takeD)

text \<open>A commit puts the new state in play or fails; when it succeeds nothing else is left in play.\<close>

lemma commit_cases:
  obtains (failed) e where "fst (commit_state io nxt w) = Inl e" "snd (commit_state io nxt w) = snd (ensure_durable (io_sync_commit io) w)"
  | (durable) "fst (commit_state io nxt w) = Inr ()"
      "snd (commit_state io nxt w) = (snd (ensure_durable (io_sync_commit io) w)) \<lparr>state := nxt, disk := [Some nxt]\<rparr>"
      "\<not> durability_degraded (snd (commit_state io nxt w))"
  | (uncertain) "fst (commit_state io nxt w) = Inl Persistence"
      "snd (commit_state io nxt w) = (snd (ensure_durable (io_sync_commit io) w))
         \<lparr>state := nxt, disk := Some nxt # disk (snd (ensure_durable (io_sync_commit io) w)), durability_degraded := True\<rparr>"
proof -
  obtain r w1 where e: "ensure_durable (io_sync_commit io) w = (r, w1)" by fastforce
  show ?thesis
  proof (cases r)
    case (Inl e)
    with e show ?thesis by (intro failed) (simp_all add: commit_state_def)
  next
    case (Inr u)
    with e have nd: "\<not> durability_degraded w1" by (auto simp: ensure_durable_def Let_def split: if_splits)
    show ?thesis
    proof (cases "persist_bytes (io_fs io)")
      case (Inl e')
      with e Inr show ?thesis by (intro failed) (simp_all add: commit_state_def)
    next
      case p: (Inr b)
      show ?thesis
        using e Inr p nd by (cases b) (rule durable uncertain; simp add: commit_state_def)+
    qed
  qed
qed

lemma commit_in_play: "in_play (snd (commit_state io nxt w)) \<subseteq> insert nxt (in_play w)"
  using ensure_durable_in_play [of "io_sync_commit io" w]
  by (cases rule: commit_cases [of io nxt w]) (auto simp: in_play_def file_state_def)

lemma commit_ok:
  assumes "fst (commit_state io nxt w) = Inr u"
  shows "state (snd (commit_state io nxt w)) = nxt" "disk (snd (commit_state io nxt w)) = [Some nxt]"
    "\<not> durability_degraded (snd (commit_state io nxt w))" "in_play (snd (commit_state io nxt w)) = {nxt}"
  using assms by (cases rule: commit_cases [of io nxt w]; simp add: in_play_def file_state_def)+

lemma commit_then_snd [simp]: "snd (commit_then io nxt r w) = snd (commit_state io nxt w)"
  by (simp add: commit_then_def split: prod.splits sum.splits)

lemma commit_then_Inr: "fst (commit_then io nxt r w) = Inr v \<longleftrightarrow> r = Inr v \<and> fst (commit_state io nxt w) = Inr ()"
  by (auto simp: commit_then_def split: prod.splits sum.splits)

end
