(* ===== verification/Oauth_Steps.thy ===== *)
theory Oauth_Steps
  imports Oauth_Invariant
begin

section \<open>Each section makes one of the listed changes\<close>

text \<open>
  One lemma per locked section: what it puts in play is well formed, within the limits and one
  \<open>grants_step\<close> away from the live state. Together they give \<open>exec_in_play\<close>, from which every
  property of reachable worlds follows by induction over the run.
\<close>

definition good_next :: "oauth_env \<Rightarrow> oauth_step \<Rightarrow> oauth_state \<Rightarrow> oauth_state \<Rightarrow> bool" where
  "good_next env step s s' \<longleftrightarrow> state_ok s' \<and> grants_step env step s s'"

lemma good_keep: "state_ok s' \<Longrightarrow> shrinks s s' \<Longrightarrow> good_next env step s s'"
  by (simp add: good_next_def grants_step.Keep)

lemma good_thin: "state_ok s \<Longrightarrow> thins s s' \<Longrightarrow> good_next env step s s'"
  by (simp add: good_keep thins_state_ok thins_shrinks state_okD(1))

lemma thin_ok: "state_ok s \<Longrightarrow> thins s s' \<Longrightarrow> state_ok s' \<and> shrinks s s'"
  by (simp add: thins_state_ok thins_shrinks state_okD(1))

lemma shrinks_fields [simp]:
  "shrinks s (s' \<lparr>owner_bootstraps := b\<rparr>) = shrinks s s'" "shrinks s (s' \<lparr>owner_credentials := oc\<rparr>) = shrinks s s'"
  "shrinks s (s' \<lparr>owner_registration_ceremonies := rg\<rparr>) = shrinks s s'"
  "shrinks s (s' \<lparr>owner_authentication_ceremonies := au\<rparr>) = shrinks s s'"
  "shrinks s (s' \<lparr>completed_consents := cc\<rparr>) = shrinks s s'"
  by (simp_all add: shrinks_def)

abbreviation reached_by :: "oauth_env \<Rightarrow> oauth_step \<Rightarrow> oauth_world \<Rightarrow> oauth_state set" where
  "reached_by env step w \<equiv> in_play w \<union> Collect (good_next env step (state w))"

lemma in_play_cong: "state w' = state w \<Longrightarrow> disk w' = disk w \<Longrightarrow> in_play w' = in_play w"
  by (simp add: in_play_def)

lemma commit_good:
  assumes "good_next env step (state w) nxt" "in_play w' = in_play w"
  shows "in_play (snd (commit_state io nxt w')) \<subseteq> reached_by env step w"
  using commit_in_play [of io nxt w'] assms by auto

subsection \<open>The owner's passkeys\<close>

lemma create_bootstrap_good:
  assumes "state_ok (state w)"
  shows "in_play (snd (create_owner_bootstrap_locked env io clk secret w)) \<subseteq> reached_by env step w"
proof -
  let ?s = "evict_expired_owner_records (clk 0) (state w)"
  have s: "state_ok ?s" "shrinks (state w) ?s" using thin_ok [OF assms thins_evict_owner] by simp_all
  then have "good_next env step (state w) (?s \<lparr>owner_bootstraps := [b]\<rparr>)" for b
    by (intro good_keep) (simp_all add: state_ok_def maps_ok_def within_limits_def consents_of_alt)
  then show ?thesis
    unfolding create_owner_bootstrap_locked_def Let_def commit_then_snd by (intro commit_good refl)
qed

lemma start_registration_good:
  assumes "state_ok (state w)"
  shows "in_play (snd (start_owner_registration_locked env io now b i e w)) \<subseteq> reached_by env step w"
proof -
  let ?s = "evict_expired_owner_records now (state w)"
  have s: "state_ok ?s" "shrinks (state w) ?s" using thin_ok [OF assms thins_evict_owner] by simp_all
  have "good_next env step (state w)
      (?s \<lparr>owner_bootstraps := [], owner_registration_ceremonies := hinsert i c (owner_registration_ceremonies ?s)\<rparr>)"
    if "length (owner_registration_ceremonies ?s) < MAX_OWNER_CHALLENGES" for c
    using s that length_hinsert_le [of i c "owner_registration_ceremonies ?s"]
    by (intro good_keep) (auto simp: state_ok_def maps_ok_def within_limits_def consents_of_alt)
  then show ?thesis
    unfolding start_owner_registration_locked_def Let_def
    by (auto simp: not_le split: if_splits prod.splits dest!: subsetD [OF commit_in_play])
qed

lemma finish_registration_good:
  assumes ok: "state_ok (state w)"
  shows "in_play (snd (finish_owner_registration_locked env io now i r w)) \<subseteq> reached_by env step w"
proof -
  let ?s = "(state w) \<lparr>owner_registration_ceremonies := hremove i (owner_registration_ceremonies (state w))\<rparr>"
  have th: "thins (state w) ?s" by (simp add: thins_def hremove_def)
  note s = thin_ok [OF ok th]
  have "good_next env step (state w) (?s \<lparr>owner_credentials := hinsert k c (owner_credentials ?s)\<rparr>)"
    if "length (owner_credentials ?s) < MAX_OWNER_CREDENTIALS" for k c
    using s that length_hinsert_le [of k c "owner_credentials ?s"]
    by (intro good_keep) (auto simp: state_ok_def maps_ok_def within_limits_def consents_of_alt)
  then show ?thesis
    unfolding finish_owner_registration_locked_def Let_def
    using good_thin [OF ok th, of env step]
    by (auto simp: not_le split: if_splits option.splits dest!: subsetD [OF commit_in_play])
qed

lemma start_approval_good:
  assumes ok: "state_ok (state w)"
  shows "in_play (snd (start_owner_approval_locked env io now k i e w)) \<subseteq> reached_by env step w"
proof -
  let ?s = "evict_expired_owner_records now (state w)" let ?d = "drop_ceremonies_of k ?s"
  have th: "thins (state w) ?d" by (rule thins_trans [OF thins_evict_owner thins_drop_ceremonies])
  have pend: "pending_consents ?s = pending_consents (state w)" by (simp add: evict_expired_owner_records_def Let_def)
  have ex: "good_next env step (state w) (snd (expire_consent k p ?s))" for p
    by (rule good_thin [OF ok thins_trans [OF thins_evict_owner thins_expire_consent]])
  have "good_next env step (state w) (?d \<lparr>owner_authentication_ceremonies := hinsert i c (owner_authentication_ceremonies ?d)\<rparr>)"
    if "hget (pending_consents ?s) k = Some p" for c p
  proof -
    have "length (owner_authentication_ceremonies ?d) < length (pending_consents (state w))"
      using that pend by (intro ceremonies_room state_okD(1) ok) simp
    then have "length (hinsert i c (owner_authentication_ceremonies ?d)) \<le> MAX_PENDING_CONSENTS"
      using length_hinsert_le [of i c "owner_authentication_ceremonies ?d"] ok by (simp add: state_ok_def within_limits_def)
    then show ?thesis
      using thin_ok [OF ok th] by (intro good_keep) (auto simp: state_ok_def maps_ok_def within_limits_def consents_of_alt)
  qed
  with ex show ?thesis
    unfolding start_owner_approval_locked_def Let_def
    by (auto split: if_splits option.splits prod.splits dest!: subsetD [OF commit_in_play]) (metis snd_conv)+
qed

lemma remove_owner_good:
  assumes "state_ok (state w)"
  shows "in_play (snd (remove_owner_credential_locked io i allow w)) \<subseteq> reached_by env step w"
  unfolding remove_owner_credential_locked_def
  by (auto dest!: subsetD [OF commit_in_play] intro!: good_thin [OF assms] simp: thins_def hremove_def hretain_def split: if_splits)

subsection \<open>Consents\<close>

lemma verify_auth_token_eq [simp]: "verify_auth_token a b \<longleftrightarrow> a = b"
proof -
  have "length a = length b \<Longrightarrow> list_all (\<lambda>(x, y). x = y) (zip a b) \<longleftrightarrow> a = b"
    by (induction a b rule: list_induct2) auto
  then show ?thesis by (auto simp: verify_auth_token_def)
qed

lemma issue_code_fields:
  "pending_consents (snd (issue_code_for_consent env ac k p ids now s)) = hremove k (pending_consents s)"
  "pending_codes (snd (issue_code_for_consent env ac k p ids now s)) =
     hinsert ac (code_of_consent p now) (pending_codes s)"
  "access_tokens (snd (issue_code_for_consent env ac k p ids now s)) = access_tokens s"
  "refresh_tokens (snd (issue_code_for_consent env ac k p ids now s)) = refresh_tokens s"
  "consumed_refresh_tokens (snd (issue_code_for_consent env ac k p ids now s)) = consumed_refresh_tokens s"
  "revoked_client_ids (snd (issue_code_for_consent env ac k p ids now s)) = revoked_client_ids s"
  by (simp_all add: issue_code_for_consent_def complete_consent_def drop_ceremonies_of_def Let_def)

lemma issue_code_redirects: "same_redirects (clients s) (clients (snd (issue_code_for_consent env ac k p ids now s)))"
  by (auto simp: issue_code_for_consent_def complete_consent_def drop_ceremonies_of_def Let_def extend_registration_def
      same_redirects_def hm.get_ins split: option.splits if_splits)

lemma issue_code_good:
  assumes ok: "state_ok s" and th: "thins s s1" and p: "hget (pending_consents s1) k = Some p"
    and creds: "state_ok (s1 \<lparr>owner_credentials := oc\<rparr>)"
    and approves: "owner_approves env (FinishApproval io now i response ac) s p"
  shows "good_next env (FinishApproval io now i response ac) s
    (snd (issue_code_for_consent env ac k p ids now (s1 \<lparr>owner_credentials := oc\<rparr>)))" (is "good_next _ _ _ ?s'")
proof -
  let ?s1 = "s1 \<lparr>pending_consents := hremove k (pending_consents s1)\<rparr>"
  have "thins s1 ?s1" by (simp add: thins_def hremove_def)
  then have sh: "shrinks s ?s1" using thin_ok [OF ok thins_trans [OF th]] by blast
  have "same_redirects (clients s) (clients ?s')"
    using sh issue_code_redirects [of "s1 \<lparr>owner_credentials := oc\<rparr>"] same_redirects_trans by (fastforce simp: shrinks_def)
  then have "grants_step env (FinishApproval io now i response ac) s ?s'"
    by (intro grants_step.AddCode [OF sh, where p = p and c = "code_of_consent p now"])
      (simp_all add: issue_code_fields approves code_grant_def consent_grant_def code_of_consent_def)
  moreover have "state_ok ?s'" using creds p by (intro issue_code_ok) simp_all
  ultimately show ?thesis by (simp add: good_next_def)
qed

lemma finish_approval_good:
  assumes ok: "state_ok (state w)"
  shows "in_play (snd (finish_owner_approval_locked env io now i r ac w)) \<subseteq> reached_by env (FinishApproval io now i r ac) w"
proof (cases "hget (owner_authentication_ceremonies (state w)) i")
  case None
  then show ?thesis by (auto simp: finish_owner_approval_locked_def split: option.splits)
next
  case (Some ceremony)
  let ?step = "FinishApproval io now i r ac" and ?k = "au_consent_id ceremony"
  let ?s = "(state w) \<lparr>completed_consents := hretain (\<lambda>_ c. now < cc_expires_at c) (completed_consents (state w)),
      owner_authentication_ceremonies := hremove i (owner_authentication_ceremonies (state w))\<rparr>"
  have th: "thins (state w) ?s" by (simp add: thins_def hremove_def hretain_def)
  note s = thin_ok [OF ok th] and keep = good_thin [OF ok th, of env ?step]
  have ex: "good_next env ?step (state w) (snd (expire_consent ?k p ?s))" for p
    by (rule good_thin [OF ok thins_trans [OF th thins_expire_consent]])
  have creds: "state_ok (?s \<lparr>owner_credentials := hinsert a used (owner_credentials ?s)\<rparr>)"
    if "hget (owner_credentials ?s) a = Some stored" for a used stored
    using s length_hinsert_old [of "owner_credentials ?s" a stored used] that
    by (auto simp: state_ok_def maps_ok_def within_limits_def consents_of_alt)
  have issue: "good_next env ?step (state w) (snd (issue_code_for_consent env ac ?k p ids now
       (?s \<lparr>owner_credentials := hinsert a used (owner_credentials (state w))\<rparr>)))"
    if "hget (pending_consents (state w)) ?k = Some p" "now < au_expires_at ceremony" "now < pc_expires_at p"
      "consent_binding env ?k p = au_consent_binding ceremony" "asserted_credential_id env r = Some a"
      "a \<in> set (au_credential_ids ceremony)" "hget (owner_credentials (state w)) a = Some stored"
      "finish_authentication env (au_state ceremony) r (oc_passkey stored) = Some (ctr, True)" for p ids a used stored ctr
    using that Some creds [of a] by (intro issue_code_good [OF ok th]) (auto simp: owner_approves_def)
  show ?thesis
    unfolding finish_owner_approval_locked_def Let_def Some
    by (auto simp: case_prod_beta not_le split: if_splits option.splits bool.splits dest!: subsetD [OF commit_in_play]
        intro: keep ex issue)
qed

lemma complete_consent_good:
  assumes ok: "state_ok s" and p: "hget (pending_consents s) k = Some p"
  shows "good_next env step s (complete_consent k (pc_client_id p) redirect ids now
    (drop_ceremonies_of k (s \<lparr>completed_consents := hretain P (completed_consents s), pending_consents := hremove k (pending_consents s)\<rparr>)))"
    (is "good_next _ _ _ ?s'")
proof -
  let ?cc = "\<lparr>cc_client_id = pc_client_id p, cc_redirect = redirect, cc_expires_at = now + AUTH_CODE_LIFETIME_SECS,
    cc_approval_ceremony_ids = ids\<rparr>"
  let ?r = "s \<lparr>completed_consents := hretain P (completed_consents s)\<rparr>"
  let ?m = "?r \<lparr>pending_consents := hremove k (pending_consents ?r), completed_consents := hinsert k ?cc (completed_consents ?r)\<rparr>"
  have "state_ok ?r" by (rule thins_state_ok [OF _ ok]) (simp add: thins_def hretain_def)
  then have m: "state_ok ?m" using p by (intro ok_move_consent) simp_all
  have eq: "?s' = drop_ceremonies_of k ?m" by (cases s) (simp add: complete_consent_def drop_ceremonies_of_def)
  have "thins s (s \<lparr>pending_consents := hremove k (pending_consents s)\<rparr>)" by (simp add: thins_def hremove_def)
  then have "shrinks s (s \<lparr>pending_consents := hremove k (pending_consents s)\<rparr>)" using thin_ok [OF ok] by blast
  then have "shrinks s (drop_ceremonies_of k ?m)" by (simp add: drop_ceremonies_of_def shrinks_def)
  then show ?thesis
    unfolding eq by (intro good_keep thins_state_ok [OF thins_drop_ceremonies m])
qed

lemma deny_good:
  assumes ok: "state_ok (state w)"
  shows "in_play (snd (deny_consent_locked env io now k csrf w)) \<subseteq> reached_by env step w"
  unfolding deny_consent_locked_def Let_def
  by (auto simp: case_prod_beta split: if_splits option.splits dest!: subsetD [OF commit_in_play]
      intro: complete_consent_good [OF ok] good_thin [OF ok thins_expire_consent])

subsection \<open>Clients and requests\<close>

lemma commit_case_in_play:
  "in_play (snd (case commit_state io nxt w of (Inl e, w1) \<Rightarrow> (Inl e, w1) | (Inr _, w1) \<Rightarrow> (r, remove_principal_lifecycles cs w1))) =
     in_play (snd (commit_state io nxt w))"
  by (auto simp: in_play_def split: prod.splits sum.splits)

lemma add_client_good:
  assumes ok: "state_ok s" and ev: "evict_expired now s = (expired, nxt)"
    and room: "length (clients nxt) < MAX_REGISTRATIONS \<or> hget (clients nxt) k \<noteq> None"
    and name: "(\<exists>io now v r. step = RegisterClient io now v r \<and> k = ''plug_'' @ v) \<or> k \<notin> set (revoked_client_ids s)"
  shows "good_next env step s (nxt \<lparr>clients := hinsert k c (clients nxt)\<rparr>)"
proof -
  have "thins s nxt" using thins_evict [of s now] ev by simp
  with thin_ok [OF ok] have nxt: "state_ok nxt" "shrinks s nxt" by auto
  from grants_step.AddClient [OF nxt(2) refl name] ok_add_client [OF nxt(1) room] show ?thesis by (simp add: good_next_def)
qed

lemma register_good:
  assumes "state_ok (state w)"
  shows "in_play (snd (register_client_locked io now v r w)) \<subseteq> reached_by env (RegisterClient io now v r) w"
proof -
  obtain expired nxt where ev: "evict_expired now (state w) = (expired, nxt)" by fastforce
  let ?w = "deactivate_principal_lifecycles expired w"
  show ?thesis
  proof (cases "length (clients nxt) < MAX_REGISTRATIONS")
    case True
    let ?n = "nxt \<lparr>clients := hinsert (''plug_'' @ v) \<lparr>rc_client_id = ''plug_'' @ v, rc_client_name = safe_client_name (rr_client_name r),
       rc_redirect_uris = rr_redirect_uris r, rc_source = DynamicRegistration, rc_created_at = now, rc_last_used_at = None,
       rc_expires_at = now + UNACTIVATED_REGISTRATION_LIFETIME_SECS\<rparr> (clients nxt)\<rparr>"
    have "in_play (snd (register_client_locked io now v r w)) = in_play (snd (commit_state io ?n ?w))"
      using True by (auto simp: register_client_locked_def ev Let_def in_play_def split: prod.splits sum.splits)
    moreover have "in_play (snd (commit_state io ?n ?w)) \<subseteq> reached_by env (RegisterClient io now v r) w"
      using True by (intro commit_good add_client_good [OF assms ev] in_play_cong) auto
    ultimately show ?thesis by simp
  qed (simp add: register_client_locked_def ev)
qed

lemma store_client_good:
  assumes "state_ok (state w)"
  shows "in_play (snd (ensure_client_store io now k d w)) \<subseteq> reached_by env step w"
proof -
  obtain expired nxt where ev: "evict_expired now (state w) = (expired, nxt)" by fastforce
  let ?w = "deactivate_principal_lifecycles expired w"
  have commit: "in_play (snd (commit_state io (nxt \<lparr>clients := hinsert k c (clients nxt)\<rparr>) ?w)) \<subseteq> reached_by env step w"
    if "length (clients nxt) < MAX_REGISTRATIONS \<or> hget (clients nxt) k \<noteq> None" "k \<notin> set (revoked_client_ids (state w))" for c
    using that by (intro commit_good add_client_good [OF assms ev] in_play_cong) auto
  show ?thesis
  proof (cases "k \<in> set (revoked_client_ids (state w)) \<or> hget (clients nxt) k = None \<and> MAX_REGISTRATIONS \<le> length (clients nxt)")
    case True
    then show ?thesis by (auto simp: ensure_client_store_def ev)
  next
    case False
    let ?n = "nxt \<lparr>clients := hinsert k \<lparr>rc_client_id = k, rc_client_name = safe_client_name (md_client_name d),
       rc_redirect_uris = md_redirect_uris d, rc_source = MetadataDocument, rc_created_at = now, rc_last_used_at = None,
       rc_expires_at = now + REGISTRATION_LIFETIME_SECS\<rparr> (clients nxt)\<rparr>"
    have "in_play (snd (ensure_client_store io now k d w)) = in_play (snd (commit_state io ?n ?w))"
      using False by (auto simp: ensure_client_store_def ev Let_def not_le in_play_def split: prod.splits sum.splits)
    with commit False show ?thesis by (auto simp: not_le)
  qed
qed

lemma revoke_good:
  assumes ok: "state_ok (state w)"
  shows "in_play (snd (revoke_client_locked io k w)) \<subseteq> reached_by env step w"
proof -
  let ?n = "(remove_client_material k (state w)) \<lparr>revoked_client_ids :=
    List.insert k (revoked_client_ids (remove_client_material k (state w)))\<rparr>"
  have "thins (remove_client_material k (state w)) ?n" by (auto simp: thins_def)
  then have "thins (state w) ?n" by (rule thins_trans [OF thins_remove_client])
  then have "in_play (snd (commit_state io ?n (deactivate_lifecycle k w))) \<subseteq> reached_by env step w"
    by (intro commit_good good_thin ok in_play_cong) simp_all
  moreover have "in_play (snd (revoke_client_locked io k w)) =
      (if hget (clients (state w)) k = None then in_play w else in_play (snd (commit_state io ?n (deactivate_lifecycle k w))))"
    by (auto simp: revoke_client_locked_def Let_def in_play_def split: prod.splits sum.splits)
  ultimately show ?thesis by simp
qed

lemma validate_scopes_ok:
  assumes "validate_scopes allowed requested = Inr scopes"
  shows "set scopes \<subseteq> set allowed" "scopes \<noteq> []"
  using assms by (auto simp: validate_scopes_def Let_def list_ex_iff split: if_splits dest: arg_cong [where f = set])

lemma begin_good:
  assumes ok: "state_ok (state w)"
  shows "in_play (snd (begin_authorization_locked env io now k csrf rq w)) \<subseteq> reached_by env step w"
proof -
  obtain expired nxt where ev: "evict_expired now (state w) = (expired, nxt)" by fastforce
  let ?w = "deactivate_principal_lifecycles expired w"
  have "thins (state w) nxt" using thins_evict [of "state w" now] ev by simp
  with thin_ok [OF ok] have nxt: "state_ok nxt" "shrinks (state w) nxt" by auto
  let ?p = "\<lambda>sc. \<lparr>pc_client_id = rq_client_id rq, pc_redirect_uri = rq_redirect_uri rq, pc_state = rq_state rq,
    pc_code_challenge = rq_code_challenge rq, pc_scopes = sc, pc_resource = resource env, pc_csrf_token = csrf,
    pc_expires_at = now + AUTH_REQUEST_LIFETIME_SECS\<rparr>"
  have add: "good_next env step (state w) (nxt \<lparr>pending_consents := hinsert k (?p sc) (pending_consents nxt)\<rparr>)"
    if c: "hget (clients nxt) (rq_client_id rq) = Some c"
      and uri: "list_ex (\<lambda>uri. registered_redirect_matches (parse_url env) uri (rq_redirect_uri rq)) (rc_redirect_uris c)"
      and res: "rq_resource rq = resource env" and sc: "validate_scopes (oauth_scopes env) (rq_scope rq) = Inr sc"
      and room: "length (pending_consents nxt) + length (completed_consents nxt) < MAX_PENDING_CONSENTS"
         "consents_of (rq_client_id rq) nxt < MAX_PENDING_CONSENTS_PER_CLIENT" for c sc
  proof -
    from c nxt(2) obtain c0 where "hget (clients (state w)) (rq_client_id rq) = Some c0" "rc_redirect_uris c0 = rc_redirect_uris c"
      unfolding shrinks_def same_redirects_def by blast
    then have "grants_step env step (state w) (nxt \<lparr>pending_consents := hinsert k (?p sc) (pending_consents nxt)\<rparr>)"
      using uri res validate_scopes_ok [OF sc] by (intro grants_step.AddConsent [OF nxt(2) refl, where c = c0]) auto
    moreover have "state_ok (nxt \<lparr>pending_consents := hinsert k (?p sc) (pending_consents nxt)\<rparr>)"
      using room by (intro ok_add_consent nxt) simp_all
    ultimately show ?thesis by (simp add: good_next_def)
  qed
  have w: "in_play ?w = in_play w" by (rule in_play_cong) simp_all
  show ?thesis
    unfolding begin_authorization_locked_def ev prod.case Let_def
    by (auto simp: commit_case_in_play w not_le split: option.splits sum.splits if_splits dest!: subsetD [OF commit_in_play] intro: add)
qed

subsection \<open>Tokens\<close>

lemma issue_pair_fields:
  "pending_consents (snd (issue_token_pair a r now c sc res f s)) = pending_consents s"
  "pending_codes (snd (issue_token_pair a r now c sc res f s)) = pending_codes s"
  "clients (snd (issue_token_pair a r now c sc res f s)) = clients s"
  "consumed_refresh_tokens (snd (issue_token_pair a r now c sc res f s)) = consumed_refresh_tokens s"
  "revoked_client_ids (snd (issue_token_pair a r now c sc res f s)) = revoked_client_ids s"
  by (simp_all add: issue_token_pair_def Let_def)

text \<open>A token pair for the grant \<open>(c, sc, res)\<close> and the family \<open>f\<close>, on top of a shrunk state.\<close>

lemma issue_pair_step:
  assumes sh: "shrinks s s1" and consumed: "\<And>kc d. hget (consumed_refresh_tokens s2) kc = Some d \<Longrightarrow>
        hget (consumed_refresh_tokens s) kc = Some d \<or> (\<exists>t. hget (refresh_tokens s) kc = Some t \<and> rf_family_id t = ct_family_id d)"
    and s2: "pending_consents s2 = pending_consents s1" "pending_codes s2 = pending_codes s1" "access_tokens s2 = access_tokens s1"
      "refresh_tokens s2 = refresh_tokens s1" "revoked_client_ids s2 = revoked_client_ids s1" "clients s2 = clients s1"
    and fields: "pending_consents s' = pending_consents (snd (issue_token_pair a r now c sc res f s2))"
      "pending_codes s' = pending_codes (snd (issue_token_pair a r now c sc res f s2))"
      "access_tokens s' = access_tokens (snd (issue_token_pair a r now c sc res f s2))"
      "refresh_tokens s' = refresh_tokens (snd (issue_token_pair a r now c sc res f s2))"
      "consumed_refresh_tokens s' = consumed_refresh_tokens (snd (issue_token_pair a r now c sc res f s2))"
      "revoked_client_ids s' = revoked_client_ids (snd (issue_token_pair a r now c sc res f s2))"
      "same_redirects (clients s1) (clients s')"
    and source: "(\<exists>io clk ar rr ci uri v res' ac co. step = ExchangeCode io clk f ar rr ci ac uri v res' \<and>
        hget (pending_codes s) ac = Some co \<and> code_grant co = (c, sc, res) \<and> hget (pending_codes s') ac = None) \<or>
      (\<exists>kt t. hget (refresh_tokens s) kt = Some t \<and> refresh_grant t = (c, sc, res) \<and> rf_family_id t = f)"
  shows "grants_step env step s s'"
proof -
  let ?kept = "fold hremove (surplus_access_tokens c s2) (access_tokens s2)"
  let ?s1 = "s1 \<lparr>access_tokens := ?kept\<rparr>"
  have "map_of ?kept \<subseteq>\<^sub>m map_of (access_tokens s)"
    using sh s2 fold_remove_le map_le_trans by (fastforce simp: shrinks_def)
  then have sh': "shrinks s ?s1" using sh by (simp add: shrinks_def)
  have red: "same_redirects (clients s) (clients s')" using sh fields(7) same_redirects_trans by (auto simp: shrinks_def)
  show ?thesis
    by (rule grants_step.AddPair [OF sh' red, where ka = a and kr = r and f = f and g = "(c, sc, res)" and
        a = "\<lparr>ak_client_id = c, ak_scopes = sc, ak_resource = res, ak_issued_at = now,
          ak_expires_at = now + ACCESS_TOKEN_LIFETIME_SECS, ak_family_id = f\<rparr>" and
        r = "\<lparr>rf_client_id = c, rf_scopes = sc, rf_resource = res, rf_expires_at = now + REFRESH_TOKEN_LIFETIME_SECS, rf_family_id = f\<rparr>"])
      (use fields s2 consumed source in \<open>simp_all add: issue_token_pair_def Let_def access_grant_def refresh_grant_def\<close>)
qed

lemma exchange_code_good:
  assumes ok: "state_ok (state w)"
  shows "in_play (snd (exchange_code_locked env io clk f a r c ac uri v res w)) \<subseteq>
    reached_by env (ExchangeCode io clk f a r c ac uri v res) w"
proof -
  let ?step = "ExchangeCode io clk f a r c ac uri v res"
  let ?s1 = "(state w) \<lparr>pending_codes := hremove ac (pending_codes (state w))\<rparr>"
  have th: "thins (state w) ?s1" by (simp add: thins_def hremove_def)
  note s1 = thin_ok [OF ok th]
  have "good_next env ?step (state w) (snd (issue_token_pair a r (clk 1) c (co_scopes p) res f ?s1))"
    if "hget (pending_codes (state w)) ac = Some p" "co_client_id p = c" "co_resource p = res" for p
  proof -
    have "grants_step env ?step (state w) (snd (issue_token_pair a r (clk 1) c (co_scopes p) res f ?s1))"
      using that s1 by (intro issue_pair_step [where ?s1.0 = ?s1 and ?s2.0 = ?s1]) (auto simp: issue_pair_fields hm.get_del code_grant_def)
    then show ?thesis using issue_pair_ok s1 by (simp add: good_next_def)
  qed
  then show ?thesis
    unfolding exchange_code_locked_def Let_def
    by (auto simp: case_prod_beta split: option.splits if_splits dest!: subsetD [OF commit_in_play])
qed

lemma reuse_good:
  assumes ok: "state_ok (state w)"
  shows "in_play (snd (reuse_refresh_token io clk a r c t res w)) \<subseteq> reached_by env step w"
proof -
  have "good_next env step (state w) (snd (issue_token_pair a r (clk 1) c (rf_scopes live) res (ct_family_id d) (state w)))"
    if "find (\<lambda>(_, live). ct_family_id d \<noteq> [] \<and> rf_family_id live = ct_family_id d \<and> rf_client_id live = c \<and> rf_resource live = res)
      (refresh_tokens (state w)) = Some (k, live)" for d k live
  proof -
    have m: "hmap_ok (refresh_tokens (state w))" using ok by (simp add: state_ok_def maps_ok_def)
    from that have "(k, live) \<in> set (refresh_tokens (state w))" "rf_family_id live = ct_family_id d" "rf_client_id live = c"
      "rf_resource live = res" by (auto simp: find_Some_iff) (metis nth_mem)
    then have "hget (refresh_tokens (state w)) k = Some live" "refresh_grant live = (c, rf_scopes live, res)"
      "rf_family_id live = ct_family_id d" using m by (simp_all add: hmap_mem_iff refresh_grant_def)
    then have "grants_step env step (state w) (snd (issue_token_pair a r (clk 1) c (rf_scopes live) res (ct_family_id d) (state w)))"
      by (intro issue_pair_step [where ?s1.0 = "state w" and ?s2.0 = "state w"]) (auto simp: issue_pair_fields)
    then show ?thesis using issue_pair_ok ok by (simp add: good_next_def)
  qed
  moreover have "good_next env step (state w) (snd (revoke_token_family f (state w)))" for f
    by (rule good_thin [OF ok thins_revoke_family])
  moreover have "in_play (end_sign_in f w) = in_play w" for f by (rule in_play_cong) simp_all
  ultimately show ?thesis
    unfolding reuse_refresh_token_def
    by (auto simp: case_prod_beta split: option.splits if_splits dest!: subsetD [OF commit_in_play])
qed

lemma exchange_refresh_good:
  assumes ok: "state_ok (state w)"
  shows "in_play (snd (exchange_refresh_locked io clk a r c t res w)) \<subseteq> reached_by env step w"
proof (cases "hget (refresh_tokens (state w)) t")
  case None
  then show ?thesis using reuse_good [OF ok] by (simp add: exchange_refresh_locked_def)
next
  case (Some refresh)
  let ?s = "state w"
  let ?d = "\<lparr>ct_family_id = rf_family_id refresh, ct_client_id = rf_client_id refresh, ct_consumed_at = clk 1\<rparr>"
  let ?s1 = "?s \<lparr>refresh_tokens := hremove t (refresh_tokens ?s)\<rparr>"
  let ?s2 = "prune_consumed_refresh_tokens (clk 2) (?s1 \<lparr>consumed_refresh_tokens := hinsert t ?d (consumed_refresh_tokens ?s)\<rparr>)"
  let ?n = "extend_registration c (clk 4) (snd (issue_token_pair a r (clk 3) c (rf_scopes refresh) res (rf_family_id refresh) ?s2))"
  have th: "thins ?s ?s1" by (simp add: thins_def hremove_def)
  have "state_ok (?s1 \<lparr>consumed_refresh_tokens := hinsert t ?d (consumed_refresh_tokens ?s)\<rparr>)"
    using thin_ok [OF ok th] by (auto simp: state_ok_def maps_ok_def within_limits_def consents_of_alt)
  then have s2: "state_ok ?s2" by (rule thins_state_ok [OF thins_prune])
  have consumed: "hget (consumed_refresh_tokens ?s) kc = Some d \<or>
      (\<exists>t. hget (refresh_tokens ?s) kc = Some t \<and> rf_family_id t = ct_family_id d)"
    if "hget (consumed_refresh_tokens ?s2) kc = Some d" for kc d
  proof -
    have "hmap_ok (consumed_refresh_tokens ?s)" using ok by (simp add: state_ok_def maps_ok_def)
    with that Some show ?thesis
      by (auto simp: prune_consumed_refresh_tokens_def hm.get_retain_Some hm.ok_ins hm.get_ins split: if_splits)
  qed
  have good: "good_next env step ?s ?n" if "rf_client_id refresh = c" "rf_resource refresh = res"
  proof -
    have "same_redirects (clients ?s) (clients ?n)"
      using extend_registration_redirects [of "snd (issue_token_pair a r (clk 3) c (rf_scopes refresh) res (rf_family_id refresh) ?s2)" c "clk 4"]
      by (simp add: issue_pair_fields prune_consumed_refresh_tokens_def)
    then have "grants_step env step ?s ?n"
      using thin_ok [OF ok th] that Some consumed
      by (intro issue_pair_step [where ?s1.0 = ?s1 and ?s2.0 = ?s2 and now = "clk 3"])
        (auto simp: prune_consumed_refresh_tokens_def issue_pair_fields refresh_grant_def)
    then show ?thesis using s2 by (simp add: good_next_def extend_registration_ok issue_pair_ok)
  qed
  have "in_play (snd (exchange_refresh_locked io clk a r c t res w)) = in_play w \<or>
    in_play (snd (exchange_refresh_locked io clk a r c t res w)) = in_play (snd (commit_state io ?n w)) \<and>
    rf_client_id refresh = c \<and> rf_resource refresh = res"
    using Some by (auto simp: exchange_refresh_locked_def Let_def in_play_def split: prod.splits sum.splits)
  then show ?thesis using commit_good [OF good] by fastforce
qed

subsection \<open>All steps\<close>

lemma start_world:
  assumes "oauth_start clk syncs f = Inr w"
  shows "thins (file_state f) (state w)" "disk w = [f]"
  using assms
  by (auto simp: oauth_start_def load_persisted_state_def file_state_def Let_def split: if_splits option.splits
      intro: thins_trans [OF thins_evict thins_prune])

lemma exec_in_play:
  assumes ok: "state_ok (state w)"
  shows "in_play (oauth_exec env step w) \<subseteq> reached_by env step w \<union> {s'. \<exists>s \<in> in_play w. thins s s'}"
proof (cases step)
  case (Restart clk syncs i)
  have "in_play w' \<subseteq> in_play w \<union> {s'. \<exists>s \<in> in_play w. thins s s'}" if "oauth_start clk syncs (disk w ! i) = Inr w'" "i < length (disk w)" for w'
    using start_world [OF that(1)] that(2) by (auto simp: in_play_def)
  then show ?thesis by (auto simp: Restart split: sum.splits)
next
  case (ValidateToken clk t sc res)
  have "in_play (snd (validate_token_locked clk t sc res w)) = in_play w"
    by (rule in_play_cong) (auto simp: validate_token_locked_def Let_def split: option.splits)
  then show ?thesis by (auto simp: ValidateToken)
next
  case (CheckRate now key)
  have "in_play (snd (check_registration_rate now key w)) = in_play w"
    by (rule in_play_cong) (auto simp: check_registration_rate_def Let_def)
  then show ?thesis by (auto simp: CheckRate)
next
  case (EnsureDurable d)
  then show ?thesis using ensure_durable_in_play [of d w] by auto
next
  case (CreateBootstrap a b c)
  show ?thesis unfolding CreateBootstrap oauth_exec.simps by (rule le_supI1, rule create_bootstrap_good [OF ok])
next
  case (StartRegistration a b c d e)
  show ?thesis unfolding StartRegistration oauth_exec.simps by (rule le_supI1, rule start_registration_good [OF ok])
next
  case (FinishRegistration a b c d)
  show ?thesis unfolding FinishRegistration oauth_exec.simps by (rule le_supI1, rule finish_registration_good [OF ok])
next
  case (StartApproval a b c d e)
  show ?thesis unfolding StartApproval oauth_exec.simps by (rule le_supI1, rule start_approval_good [OF ok])
next
  case (FinishApproval a b c d e)
  show ?thesis unfolding FinishApproval oauth_exec.simps by (rule le_supI1, rule finish_approval_good [OF ok])
next
  case (DenyConsent a b c d)
  show ?thesis unfolding DenyConsent oauth_exec.simps by (rule le_supI1, rule deny_good [OF ok])
next
  case (RemoveOwnerCredential a b c)
  show ?thesis unfolding RemoveOwnerCredential oauth_exec.simps by (rule le_supI1, rule remove_owner_good [OF ok])
next
  case (RegisterClient a b c d)
  show ?thesis unfolding RegisterClient oauth_exec.simps by (rule le_supI1, rule register_good [OF ok])
next
  case (RevokeClient a b)
  show ?thesis unfolding RevokeClient oauth_exec.simps by (rule le_supI1, rule revoke_good [OF ok])
next
  case (StoreClient a b c d)
  show ?thesis unfolding StoreClient oauth_exec.simps by (rule le_supI1, rule store_client_good [OF ok])
next
  case (BeginAuthorization a b c d e)
  show ?thesis unfolding BeginAuthorization oauth_exec.simps by (rule le_supI1, rule begin_good [OF ok])
next
  case (ExchangeCode a b c d e f g h i j)
  show ?thesis unfolding ExchangeCode oauth_exec.simps by (rule le_supI1, rule exchange_code_good [OF ok])
next
  case (ExchangeRefresh a b c d e f g)
  show ?thesis unfolding ExchangeRefresh oauth_exec.simps by (rule le_supI1, rule exchange_refresh_good [OF ok])
qed

text \<open>A world is fine when every state in play is.\<close>

definition world_ok :: "oauth_world \<Rightarrow> bool" where
  "world_ok w \<longleftrightarrow> (\<forall>s \<in> in_play w. state_ok s)"

lemma world_ok_exec: "world_ok w \<Longrightarrow> world_ok (oauth_exec env step w)"
  using exec_in_play [of w env step] thins_state_ok unfolding world_ok_def good_next_def by (auto dest!: subsetD)

lemma state_default_ok: "state_ok oauth_state_default"
  by (simp add: state_ok_def maps_ok_def within_limits_def oauth_state_default_def consents_of_alt tokens_of_def)

lemma world_ok_new: "world_ok oauth_new"
  by (simp add: world_ok_def in_play_def oauth_new_def file_state_def state_default_ok)

interpretation oauth: run_system "oauth_exec env" world_ok
  by unfold_locales (rule world_ok_exec)

lemma world_ok_run: "world_ok (oauth_run env steps)"
  unfolding oauth_run_def by (rule oauth.run_inv [OF world_ok_new])

lemma oauth_run_snoc: "oauth_run env (steps @ [step]) = oauth_exec env step (oauth_run env steps)"
  by (simp add: oauth_run_def)

end
