(* ===== verification/Oauth_Demo.thy ===== *)
theory Oauth_Demo
  imports Oauth
begin

section \<open>A sign-in from beginning to end\<close>

text \<open>
  A concrete environment and run: the owner enrolls a passkey, a client registers and asks for
  authorization, the owner approves, the client redeems its code, and later refreshes. The
  cryptographic parameters are constant functions. The witnesses of the theorems evaluate it.
\<close>

definition demo_env :: oauth_env where
  "demo_env = \<lparr>public_base_url = ''u/'', oauth_scopes = [''s''],
     parse_url = (\<lambda>_. Some \<lparr>url_scheme = ''https'', url_username = [], url_password = None, url_host = Some ''h'', url_port = None,
       url_path = [], url_query = None, url_fragment = None\<rparr>),
     decode_document = (\<lambda>_. None), form_urlencode = (\<lambda>_. []), sha256 = (\<lambda>_. replicate 32 (CHR ''0'')), hex_encode = (\<lambda>_. ''h''),
     pkce_sha256_challenge = (\<lambda>v. ''#'' @ v), consent_json = (\<lambda>_. []),
     start_registration = (\<lambda>_ _ _. ([], [])), finish_registration = (\<lambda>_ _. Some \<lparr>pk_id = ''p'', pk_counter = 0, pk_rest = []\<rparr>),
     start_authentication = (\<lambda>_ _ _. ([], [])), asserted_credential_id = (\<lambda>_. Some ''p''),
     finish_authentication = (\<lambda>_ _ _. Some (1, True))\<rparr>"

definition demo_io :: oauth_io where
  "demo_io = \<lparr>io_sync_first = True, io_sync_commit = True,
     io_fs = \<lparr>fs_dir = True, fs_open = True, fs_write = True, fs_chmod = True, fs_rename = True, fs_syncs = [True]\<rparr>\<rparr>"

definition demo_request :: authorization_request where
  "demo_request = \<lparr>rq_response_type = ''code'', rq_client_id = ''plug_c'', rq_redirect_uri = ''r'', rq_state = ''z'',
     rq_code_challenge = ''#v'', rq_code_challenge_method = ''S256'', rq_scope = None, rq_resource = ''u/mcp''\<rparr>"

definition demo_registration :: registration_request where
  "demo_registration = \<lparr>rr_redirect_uris = [''r''], rr_client_name = Some ''n'', rr_auth_method = None, rr_grant_types = None,
     rr_response_types = None\<rparr>"

definition demo_approval :: "oauth_step list" where
  "demo_approval =
     [CreateBootstrap demo_io (\<lambda>_. 0) ''b'', StartRegistration demo_io 0 ''b'' ''g'' [], FinishRegistration demo_io 0 ''g'' [],
      RegisterClient demo_io 0 ''c'' demo_registration, BeginAuthorization demo_io 0 ''k'' ''x'' demo_request,
      StartApproval demo_io 0 ''k'' ''i'' [], FinishApproval demo_io 0 ''i'' [] ''o'']"

definition demo_redeem :: oauth_step where
  "demo_redeem = ExchangeCode demo_io (\<lambda>_. 0) ''f'' ''a'' ''t'' ''plug_c'' ''o'' ''r'' ''v'' ''u/mcp''"

definition demo_refresh :: oauth_step where
  "demo_refresh = ExchangeRefresh demo_io (\<lambda>_. 0) ''a2'' ''t2'' ''plug_c'' ''t'' ''u/mcp''"


subsection \<open>Its states\<close>

definition demo_enrolled :: oauth_state where
  "demo_enrolled = oauth_state_default \<lparr>owner_credentials := [(''p'', \<lparr>oc_id = ''p'', oc_label = ''Passkey 1'',
     oc_passkey = \<lparr>pk_id = ''p'', pk_counter = 0, pk_rest = []\<rparr>, oc_created_at = 0, oc_last_used_at = None\<rparr>)]\<rparr>"

definition demo_client :: registered_client where
  "demo_client = \<lparr>rc_client_id = ''plug_c'', rc_client_name = ''n'', rc_redirect_uris = [''r''], rc_source = DynamicRegistration,
     rc_created_at = 0, rc_last_used_at = None, rc_expires_at = 3600\<rparr>"

definition demo_consent :: pending_consent where
  "demo_consent = \<lparr>pc_client_id = ''plug_c'', pc_redirect_uri = ''r'', pc_state = ''z'', pc_code_challenge = ''#v'',
     pc_scopes = [''s''], pc_resource = ''u/mcp'', pc_csrf_token = ''x'', pc_expires_at = 300\<rparr>"

definition demo_asked :: oauth_state where
  "demo_asked = demo_enrolled \<lparr>clients := [(''plug_c'', demo_client)], pending_consents := [(''k'', demo_consent)],
     owner_authentication_ceremonies := [(''i'', \<lparr>au_id = ''i'', au_consent_id = ''k'', au_issuer_hash = ''h'',
       au_consent_binding = ''h'', au_decision = ''approve'', au_credential_ids = [''p''], au_state = [], au_expires_at = 300\<rparr>)]\<rparr>"

definition demo_approved :: oauth_state where
  "demo_approved = oauth_state_default \<lparr>
     clients := [(''plug_c'', demo_client \<lparr>rc_last_used_at := Some 0, rc_expires_at := 7776000\<rparr>)],
     completed_consents := [(''k'', \<lparr>cc_client_id = ''plug_c'', cc_redirect = ''r?'', cc_expires_at = 300,
       cc_approval_ceremony_ids = [''i'']\<rparr>)],
     pending_codes := [(''o'', \<lparr>co_client_id = ''plug_c'', co_redirect_uri = ''r'', co_code_challenge = ''#v'', co_scopes = [''s''],
       co_resource = ''u/mcp'', co_expires_at = 300\<rparr>)],
     owner_credentials := [(''p'', \<lparr>oc_id = ''p'', oc_label = ''Passkey 1'',
       oc_passkey = \<lparr>pk_id = ''p'', pk_counter = 1, pk_rest = []\<rparr>, oc_created_at = 0, oc_last_used_at = Some 0\<rparr>)]\<rparr>"

definition demo_access :: access_token where
  "demo_access = \<lparr>ak_client_id = ''plug_c'', ak_scopes = [''s''], ak_resource = ''u/mcp'', ak_issued_at = 0, ak_expires_at = 3600,
     ak_family_id = ''f''\<rparr>"

definition demo_refresh_token :: refresh_token where
  "demo_refresh_token = \<lparr>rf_client_id = ''plug_c'', rf_scopes = [''s''], rf_resource = ''u/mcp'', rf_expires_at = 2592000,
     rf_family_id = ''f''\<rparr>"

definition demo_signed_in :: oauth_state where
  "demo_signed_in = demo_approved \<lparr>pending_codes := [], access_tokens := [(''a'', demo_access)],
     refresh_tokens := [(''t'', demo_refresh_token)]\<rparr>"

definition demo_refreshed :: oauth_state where
  "demo_refreshed = demo_signed_in \<lparr>access_tokens := [(''a'', demo_access), (''a2'', demo_access)],
     refresh_tokens := [(''t2'', demo_refresh_token)],
     consumed_refresh_tokens := [(''t'', \<lparr>ct_family_id = ''f'', ct_client_id = ''plug_c'', ct_consumed_at = 0\<rparr>)]\<rparr>"

text \<open>A durable world with this state; the client's flag, if it is registered, is the only one.\<close>

definition demo_world :: "oauth_state \<Rightarrow> oauth_world" where
  "demo_world s = \<lparr>state = s, principal_lifecycles = (if clients s = [] then [] else [(''plug_c'', 0)]),
     lifecycle_heap = (if clients s = [] then [] else [lifecycle_new]), family_ended = [], registration_rate = [],
     durability_degraded = False, disk = [Some s]\<rparr>"

lemma demo_commit:
  "\<not> durability_degraded w \<Longrightarrow> commit_state demo_io nxt w = (Inr (), w \<lparr>state := nxt, disk := [Some nxt]\<rparr>)"
  "\<not> durability_degraded w \<Longrightarrow> commit_then demo_io nxt x w = (x, w \<lparr>state := nxt, disk := [Some nxt]\<rparr>)"
  by (simp_all add: commit_then_def commit_state_def ensure_durable_def persist_bytes_def demo_io_def sync_parent_dir_with_retry_def
      PARENT_DIR_SYNC_ATTEMPTS_def)

lemma demo_params [simp]:
  "owner_binding_hash demo_env parts = ''h''" "base_url demo_env = ''u''" "resource demo_env = ''u/mcp''" "oauth_scopes demo_env = [''s'']"
  "start_registration demo_env x y z = ([], [])" "start_authentication demo_env x y' z = ([], [])"
  "finish_registration demo_env x z = Some \<lparr>pk_id = ''p'', pk_counter = 0, pk_rest = []\<rparr>" "asserted_credential_id demo_env x = Some ''p''"
  "finish_authentication demo_env x z pk = Some (1, True)" "pkce_sha256_challenge demo_env x = ''#'' @ x" "form_urlencode demo_env ps = []"
  "parse_url demo_env x = Some \<lparr>url_scheme = ''https'', url_username = [], url_password = None, url_host = Some ''h'', url_port = None,
       url_path = [], url_query = None, url_fragment = None\<rparr>"
  by (simp_all add: owner_binding_hash_def base_url_def resource_def demo_env_def)

lemma verify_refl [simp]: "verify_auth_token x x"
  by (auto simp: verify_auth_token_def list_all_iff set_zip)

lemmas demo_states = demo_enrolled_def demo_client_def demo_consent_def demo_asked_def demo_approved_def demo_access_def
  demo_refresh_token_def demo_signed_in_def demo_refreshed_def demo_world_def oauth_state_default_def
lemmas demo_maps = hinsert_def hremove_def hretain_def
lemmas demo_lifetimes = AUTH_REQUEST_LIFETIME_SECS_def AUTH_CODE_LIFETIME_SECS_def ACCESS_TOKEN_LIFETIME_SECS_def
  REFRESH_TOKEN_LIFETIME_SECS_def REFRESH_REUSE_LEEWAY_SECS_def REGISTRATION_LIFETIME_SECS_def
  UNACTIVATED_REGISTRATION_LIFETIME_SECS_def OWNER_CEREMONY_LIFETIME_SECS_def

lemma demo_enroll:
  "oauth_exec demo_env (FinishRegistration demo_io 0 ''g'' []) (oauth_exec demo_env (StartRegistration demo_io 0 ''b'' ''g'' [])
     (oauth_exec demo_env (CreateBootstrap demo_io (\<lambda>_. 0) ''b'') oauth_new)) = demo_world demo_enrolled"
  by (simp add: create_owner_bootstrap_locked_def start_owner_registration_locked_def finish_owner_registration_locked_def Let_def
      demo_commit oauth_new_def demo_states demo_maps demo_lifetimes evict_expired_owner_records_def oauth_limits consent_binding_def show_nat.simps)

lemma demo_names [simp]:
  "safe_client_name (Some ''n'') = ''n''" "validate_scopes [''s''] None = Inr [''s'']" "registered_redirect_matches p x x"
  by (code_simp, simp_all add: validate_scopes_def registered_redirect_matches_def)

definition demo_registered :: oauth_state where
  "demo_registered = demo_enrolled \<lparr>clients := [(''plug_c'', demo_client)]\<rparr>"

definition demo_begun :: oauth_state where
  "demo_begun = demo_registered \<lparr>pending_consents := [(''k'', demo_consent)]\<rparr>"

lemma demo_evict:
  "evict_expired 0 demo_enrolled = ([], demo_enrolled)" "evict_expired 0 demo_registered = ([], demo_registered)"
  "evict_expired_owner_records 0 demo_begun = demo_begun"
  by (simp_all add: evict_expired_def expired_clients_def evict_expired_owner_records_def demo_maps demo_states demo_registered_def demo_begun_def Let_def)

lemma demo_register:
  "oauth_exec demo_env (RegisterClient demo_io 0 ''c'' demo_registration) (demo_world demo_enrolled) = demo_world demo_registered"
  by (simp add: register_client_locked_def demo_world_def demo_evict oauth_limits Let_def deactivate_principal_lifecycles_def demo_commit)
    (simp add: demo_states demo_registered_def demo_registration_def demo_maps demo_lifetimes remove_principal_lifecycles_def insert_lifecycle_def)

lemma demo_begin:
  "oauth_exec demo_env (BeginAuthorization demo_io 0 ''k'' ''x'' demo_request) (demo_world demo_registered) = demo_world demo_begun"
  by (simp add: begin_authorization_locked_def demo_world_def demo_evict Let_def deactivate_principal_lifecycles_def demo_commit)
    (simp add: demo_states demo_registered_def demo_begun_def demo_request_def demo_maps demo_lifetimes remove_principal_lifecycles_def
      oauth_limits consents_of_def Let_def deactivate_principal_lifecycles_def demo_commit)

lemma demo_ask: "oauth_exec demo_env (StartApproval demo_io 0 ''k'' ''i'' []) (demo_world demo_begun) = demo_world demo_asked"
  by (simp add: start_owner_approval_locked_def demo_world_def demo_evict Let_def demo_commit)
    (simp add: demo_states demo_registered_def demo_begun_def demo_maps demo_lifetimes drop_ceremonies_of_def consent_binding_def demo_commit)

lemma demo_approve: "oauth_exec demo_env (FinishApproval demo_io 0 ''i'' [] ''o'') (demo_world demo_asked) = demo_world demo_approved"
  by (simp add: finish_owner_approval_locked_def issue_code_for_consent_def extend_registration_def complete_consent_def Let_def
      demo_commit demo_states demo_maps demo_lifetimes consent_binding_def drop_ceremonies_of_def owner_ceremony_ids_for_consent_def
      code_of_consent_def redirect_with_params_def)

lemma demo_redeemed: "oauth_exec demo_env demo_redeem (demo_world demo_approved) = demo_world demo_signed_in"
  by (simp add: demo_redeem_def exchange_code_locked_def issue_token_pair_def surplus_access_tokens_def Let_def
      demo_commit demo_states demo_maps demo_lifetimes oauth_limits)

lemma demo_rotated: "oauth_exec demo_env demo_refresh (demo_world demo_signed_in) = demo_world demo_refreshed"
  by (simp add: demo_refresh_def exchange_refresh_locked_def issue_token_pair_def surplus_access_tokens_def Let_def
      extend_registration_def prune_consumed_refresh_tokens_def prolong_sign_in_def
      demo_commit demo_states demo_maps demo_lifetimes oauth_limits)

lemma demo_runs:
  "oauth_run demo_env demo_approval = demo_world demo_approved"
  "oauth_run demo_env (demo_approval @ [demo_redeem]) = demo_world demo_signed_in"
  "oauth_run demo_env (demo_approval @ [demo_redeem, demo_refresh]) = demo_world demo_refreshed"
proof -
  show a: "oauth_run demo_env demo_approval = demo_world demo_approved"
    unfolding oauth_run_def demo_approval_def by (simp only: fold_simps demo_enroll demo_register demo_begin demo_ask demo_approve)
  then show b: "oauth_run demo_env (demo_approval @ [demo_redeem]) = demo_world demo_signed_in"
    unfolding oauth_run_def fold_append by (simp only: comp_def fold_simps demo_redeemed)
  from a show "oauth_run demo_env (demo_approval @ [demo_redeem, demo_refresh]) = demo_world demo_refreshed"
    unfolding oauth_run_def fold_append by (simp only: comp_def fold_simps demo_redeemed demo_rotated)
qed

definition demo_claims :: access_claims where
  "demo_claims = \<lparr>cl_client_id = ''plug_c'', cl_scopes = [''s''], cl_resource = ''u/mcp'',
     cl_lease = \<lparr>ll_state = 0, ll_generation = 1, ll_family = Some ''f''\<rparr>\<rparr>"

lemma demo_answers:
  "fst (validate_token_locked (\<lambda>_. 5) ''a'' [''s''] ''u/mcp'' (demo_world demo_signed_in)) = Valid demo_claims"
  "fst (revoke_client_locked demo_io ''plug_c'' (demo_world demo_signed_in)) = Inr True"
  "isl (fst (exchange_code_locked demo_env demo_io (\<lambda>_. 0) ''f'' ''a'' ''t'' ''plug_c'' ''o'' ''r'' ''v'' ''u/mcp'' (demo_world demo_approved))) = False"
  "fst (exchange_refresh_locked demo_io (\<lambda>_. 0) ''a3'' ''t3'' ''other'' ''t'' ''u/mcp'' (demo_world demo_refreshed)) = Inl InvalidGrant"
  by (simp_all add: validate_token_locked_def revoke_client_locked_def exchange_code_locked_def exchange_refresh_locked_def
      reuse_refresh_token_def issue_token_pair_def surplus_access_tokens_def enter_sign_in_def sign_in_end_def sign_in_default_def
      lasts_until_def is_over_def lease_is_active_def lifecycle_new_def deactivate_lifecycle_def
      demo_claims_def end_sign_in_def Let_def demo_commit demo_states demo_maps demo_lifetimes oauth_limits)

end
