(* ===== verification/Oauth_Safety.thy ===== *)
theory Oauth_Safety
  imports Oauth_Steps Oauth_Demo
begin

section \<open>What the authorization server guarantees\<close>

text \<open>
  Every property holds over all runs: any interleaving of sections, any answers of the file system,
  any readings of the clock, and restarts that find any file the disk may hold.
  \<^item> \<open>grant_invariant\<close> is the contract of a property of states that no change listed in
    \<open>grants_step\<close> breaks; what satisfies it in all states in play does so for ever.
  \<^item> The interpretations are a client that has been revoked, a code that has been redeemed and a token
    family that has been revoked.
\<close>

locale grant_invariant =
  fixes env :: oauth_env
    and Q :: "oauth_state \<Rightarrow> bool"
    and allowed :: "oauth_step \<Rightarrow> bool"
  assumes keeps_shrunk: "state_ok s \<Longrightarrow> Q s \<Longrightarrow> shrinks s s' \<Longrightarrow> Q s'"
    and keeps_step: "allowed step \<Longrightarrow> state_ok s \<Longrightarrow> Q s \<Longrightarrow> grants_step env step s s' \<Longrightarrow> Q s'"
begin

lemma exec_keeps:
  assumes "allowed step" "world_ok w" "\<forall>s \<in> in_play w. Q s"
  shows "\<forall>s \<in> in_play (oauth_exec env step w). Q s"
proof
  fix s'
  assume "s' \<in> in_play (oauth_exec env step w)"
  moreover have ok: "\<forall>s \<in> in_play w. state_ok s" using assms(2) by (simp add: world_ok_def)
  ultimately consider "s' \<in> in_play w" | "good_next env step (state w) s'" | s where "s \<in> in_play w" "thins s s'"
    using exec_in_play [of w env step] by fastforce
  then show "Q s'"
  proof cases
    case 2
    then show ?thesis using keeps_step [OF assms(1), of "state w" s'] ok assms(3) by (simp add: good_next_def)
  next
    case (3 s)
    then show ?thesis using keeps_shrunk [of s s'] thin_ok [of s s'] ok assms(3) by blast
  qed (use assms(3) in blast)
qed

lemma run_keeps:
  "list_all allowed steps \<Longrightarrow> world_ok w \<Longrightarrow> \<forall>s \<in> in_play w. Q s \<Longrightarrow>
     \<forall>s \<in> in_play (fold (oauth_exec env) steps w). Q s"
proof (induction steps arbitrary: w)
  case (Cons step steps)
  have "world_ok (oauth_exec env step w)" by (rule world_ok_exec [OF Cons.prems(2)])
  moreover have "\<forall>s \<in> in_play (oauth_exec env step w). Q s" using Cons.prems by (intro exec_keeps) simp_all
  ultimately show ?case using Cons.IH Cons.prems(1) by simp
qed simp

end

lemma world_ok_fold: "world_ok w \<Longrightarrow> world_ok (fold (oauth_exec env) steps w)"
  by (rule oauth.run_inv)

subsection \<open>Every token goes back to the owner\<close>

text \<open>The owner approved this grant in one of the steps.\<close>

definition granted :: "oauth_env \<Rightarrow> oauth_step list \<Rightarrow> grant \<Rightarrow> bool" where
  "granted env steps g \<longleftrightarrow>
     (\<exists>pre step post p. steps = pre @ step # post \<and> owner_approves env step (state (oauth_run env pre)) p \<and> consent_grant p = g)"

fun grant_ok :: "oauth_env \<Rightarrow> grant \<Rightarrow> bool" where
  "grant_ok env (c, scopes, res) \<longleftrightarrow> set scopes \<subseteq> set (oauth_scopes env) \<and> scopes \<noteq> [] \<and> res = resource env"

definition grants_traced :: "oauth_env \<Rightarrow> oauth_step list \<Rightarrow> oauth_state \<Rightarrow> bool" where
  "grants_traced env steps s \<longleftrightarrow>
     (\<forall>k p. hget (pending_consents s) k = Some p \<longrightarrow> grant_ok env (consent_grant p)) \<and>
     (\<forall>k c. hget (pending_codes s) k = Some c \<longrightarrow> grant_ok env (code_grant c) \<and> granted env steps (code_grant c)) \<and>
     (\<forall>k t. hget (access_tokens s) k = Some t \<longrightarrow> grant_ok env (access_grant t) \<and> granted env steps (access_grant t)) \<and>
     (\<forall>k t. hget (refresh_tokens s) k = Some t \<longrightarrow> grant_ok env (refresh_grant t) \<and> granted env steps (refresh_grant t))"

lemma granted_snoc: "granted env steps g \<Longrightarrow> granted env (steps @ [step]) g"
  unfolding granted_def by (metis append.assoc append_Cons)

lemma granted_now: "owner_approves env step (state (oauth_run env steps)) p \<Longrightarrow> granted env (steps @ [step]) (consent_grant p)"
  unfolding granted_def by blast

lemma map_leD: "m \<subseteq>\<^sub>m m' \<Longrightarrow> m k = Some v \<Longrightarrow> m' k = Some v"
  by (force simp: map_le_def)

lemma redirects_None: "same_redirects m m' \<Longrightarrow> hget m c = None \<Longrightarrow> hget m' c = None"
  unfolding same_redirects_def by (metis not_None_eq)

lemma shrinksD:
  assumes "shrinks s s'"
  shows "hget (clients s) c = None \<Longrightarrow> hget (clients s') c = None"
    "hget (pending_consents s') k = Some p \<Longrightarrow> hget (pending_consents s) k = Some p"
    "hget (pending_codes s') k = Some d \<Longrightarrow> hget (pending_codes s) k = Some d"
    "hget (access_tokens s') k = Some t \<Longrightarrow> hget (access_tokens s) k = Some t"
    "hget (refresh_tokens s') k = Some u \<Longrightarrow> hget (refresh_tokens s) k = Some u"
    "hget (consumed_refresh_tokens s') k = Some e \<Longrightarrow> hget (consumed_refresh_tokens s) k = Some e"
    "c \<in> set (revoked_client_ids s) \<Longrightarrow> c \<in> set (revoked_client_ids s')"
  using assms unfolding shrinks_def by (auto intro: redirects_None map_leD)

lemma traced_mono: "grants_traced env steps s \<Longrightarrow> grants_traced env (steps @ [step]) s"
  unfolding grants_traced_def by (meson granted_snoc)

lemma traced_shrinks: "grants_traced env steps s \<Longrightarrow> shrinks s s' \<Longrightarrow> grants_traced env steps s'"
  unfolding grants_traced_def shrinks_def by (meson map_leD)

lemma traced_step:
  assumes "grants_step env step s s'" "grants_traced env steps s" and s: "s = state (oauth_run env steps)"
  shows "grants_traced env (steps @ [step]) s'"
  using assms(1)
proof cases
  case Keep
  then show ?thesis using assms(2) by (metis traced_mono traced_shrinks)
next
  case (AddClient s1 k c)
  then show ?thesis using traced_shrinks [OF traced_mono [OF assms(2)], of s1 step] by (simp add: grants_traced_def)
next
  case (AddConsent s1 k p c)
  then show ?thesis
    using traced_shrinks [OF traced_mono [OF assms(2)], of s1 step]
    by (auto simp: grants_traced_def hm.get_ins consent_grant_def split: if_splits)
next
  case (AddCode s1 k c io now i response p)
  have "grant_ok env (consent_grant p)"
    using AddCode assms(2) by (auto simp: grants_traced_def owner_approves_def)
  moreover have "granted env (steps @ [step]) (consent_grant p)" using AddCode granted_now s by blast
  ultimately show ?thesis
    using AddCode traced_shrinks [OF traced_mono [OF assms(2)], of s1 step]
    by (auto simp: grants_traced_def hm.get_ins split: if_splits)
next
  case (AddPair s1 ka a kr r g f)
  have "grant_ok env g \<and> granted env steps g"
    using AddPair(13) assms(2) by (auto simp: grants_traced_def)
  then have "grant_ok env g \<and> granted env (steps @ [step]) g" by (simp add: granted_snoc)
  then show ?thesis
    using AddPair traced_shrinks [OF traced_mono [OF assms(2)], of s1 step]
    by (auto simp: grants_traced_def hm.get_ins split: if_splits)
qed

lemma run_traced: "\<forall>s \<in> in_play (oauth_run env steps). grants_traced env steps s"
proof (induction steps rule: rev_induct)
  case Nil
  then show ?case
    by (simp add: oauth_run_def in_play_def oauth_new_def file_state_def oauth_state_default_def grants_traced_def)
next
  case (snoc step steps)
  let ?w = "oauth_run env steps"
  have ok: "\<forall>s \<in> in_play ?w. state_ok s" using world_ok_run [of env steps] by (simp add: world_ok_def)
  show ?case
  proof
    fix s'
    assume "s' \<in> in_play (oauth_run env (steps @ [step]))"
    then consider "s' \<in> in_play ?w" | "good_next env step (state ?w) s'" | s where "s \<in> in_play ?w" "thins s s'"
      using exec_in_play [of ?w env step] ok by (fastforce simp: oauth_run_snoc)
    then show "grants_traced env (steps @ [step]) s'"
    proof cases
      case 2
      then show ?thesis using traced_step [of env step "state ?w" s' steps] snoc.IH by (simp add: good_next_def)
    next
      case (3 s)
      then show ?thesis using thin_ok [of s s'] ok traced_shrinks traced_mono snoc.IH by blast
    qed (use snoc.IH traced_mono in blast)
  qed
qed

text \<open>
  C2. An access token that validates goes back to the owner: in an earlier step the owner answered, with
  a registered passkey and user verification, a challenge bound to a pending consent of exactly this client, these
  scopes and this resource. The scopes are among the configured ones and the resource is this
  server's. It holds over all interleavings, whatever the file system does, and across crashes and restarts.
\<close>

theorem tokens_trace_to_owner:
  assumes "fst (validate_token_locked clk token required res (oauth_run env steps)) = Valid claims"
  shows "\<exists>pre step post p. steps = pre @ step # post \<and> owner_approves env step (state (oauth_run env pre)) p \<and>
      pc_client_id p = cl_client_id claims \<and> pc_scopes p = cl_scopes claims \<and> pc_resource p = cl_resource claims \<and>
      cl_resource claims = resource env \<and> res = resource env \<and> set (cl_scopes claims) \<subseteq> set (oauth_scopes env) \<and>
      set required \<subseteq> set (cl_scopes claims)"
proof -
  from assms obtain t where t: "hget (access_tokens (state (oauth_run env steps))) token = Some t"
    "cl_client_id claims = ak_client_id t" "cl_scopes claims = ak_scopes t" "cl_resource claims = ak_resource t"
    "ak_resource t = res" "set required \<subseteq> set (ak_scopes t)"
    by (auto simp: validate_token_locked_def Let_def list_ex_iff subset_iff split: option.splits if_splits)
  then have "grant_ok env (access_grant t)" "granted env steps (access_grant t)"
    using run_traced [of env steps] state_in_play unfolding grants_traced_def by blast+
  then show ?thesis using t by (auto simp: granted_def access_grant_def consent_grant_def)
qed

theorem tokens_trace_to_owner_witness:
  "\<exists>pre step post p. demo_approval @ [demo_redeem] = pre @ step # post \<and>
     owner_approves demo_env step (state (oauth_run demo_env pre)) p \<and> pc_client_id p = ''plug_c'' \<and> pc_scopes p = [''s'']"
  using tokens_trace_to_owner [of "\<lambda>_. 5" "''a''" "[''s'']" "''u/mcp''" demo_env "demo_approval @ [demo_redeem]" demo_claims]
  unfolding demo_runs by (auto simp: demo_answers demo_claims_def)

subsection \<open>A revoked client stays out\<close>

definition client_gone :: "string \<Rightarrow> oauth_state \<Rightarrow> bool" where
  "client_gone c s \<longleftrightarrow>
     c \<in> set (revoked_client_ids s) \<and> hget (clients s) c = None \<and>
     (\<forall>k p. hget (pending_consents s) k = Some p \<longrightarrow> pc_client_id p \<noteq> c) \<and>
     (\<forall>k d. hget (pending_codes s) k = Some d \<longrightarrow> co_client_id d \<noteq> c) \<and>
     (\<forall>k t. hget (access_tokens s) k = Some t \<longrightarrow> ak_client_id t \<noteq> c) \<and>
     (\<forall>k t. hget (refresh_tokens s) k = Some t \<longrightarrow> rf_client_id t \<noteq> c)"

fun registers :: "oauth_step \<Rightarrow> string list" where
  "registers (RegisterClient io now v r) = [''plug_'' @ v]"
| "registers _ = []"

lemma gone_shrinks: "client_gone c s \<Longrightarrow> shrinks s s' \<Longrightarrow> client_gone c s'"
  using shrinksD [of s s'] unfolding client_gone_def by blast

interpretation gone: grant_invariant env "client_gone c" "\<lambda>step. c \<notin> set (registers step)" for env c
proof (unfold_locales, goal_cases)
  case (1 s s')
  from gone_shrinks [OF 1(2,3)] show ?case .
next
  case (2 step s s')
  note g = gone_shrinks [OF 2(3)]
  from 2(4) show ?case
  proof cases
    case Keep
    then show ?thesis by (rule g)
  next
    case (AddClient s1 k d)
    then have "k \<noteq> c" using 2(1,3) by (auto simp: client_gone_def)
    then show ?thesis using g [OF AddClient(1)] AddClient(2) by (simp add: client_gone_def hm.get_ins)
  next
    case (AddConsent s1 k p d)
    then have "pc_client_id p \<noteq> c" using 2(3) by (auto simp: client_gone_def)
    then show ?thesis using g [OF AddConsent(1)] AddConsent(2) by (auto simp: client_gone_def hm.get_ins split: if_splits)
  next
    case (AddCode s1 k d io now i response p)
    then have "co_client_id d \<noteq> c" using 2(3) by (auto simp: client_gone_def owner_approves_def code_grant_def consent_grant_def)
    then show ?thesis
      using g [OF AddCode(1)] AddCode(2-8) 2(3) by (auto simp: client_gone_def hm.get_ins redirects_None split: if_splits)
  next
    case (AddPair s1 ka a kr r g' f)
    have "fst g' \<noteq> c"
      using AddPair(13) 2(3) unfolding client_gone_def code_grant_def refresh_grant_def by fastforce
    then have "ak_client_id a \<noteq> c" "rf_client_id r \<noteq> c"
      using AddPair(9,10) by (auto simp: access_grant_def refresh_grant_def)
    then show ?thesis
      using g [OF AddPair(1)] AddPair(2-6,8) 2(3) by (auto simp: client_gone_def hm.get_ins redirects_None split: if_splits)
  qed
qed

lemma revoked_is_gone:
  assumes ok: "world_ok w" and r: "fst (revoke_client_locked io c w) = Inr True"
  shows "\<forall>s \<in> in_play (snd (revoke_client_locked io c w)). client_gone c s"
proof -
  let ?m = "remove_client_material c (state w)"
  let ?n = "?m \<lparr>revoked_client_ids := List.insert c (revoked_client_ids ?m)\<rparr>"
  let ?c = "commit_state io ?n (deactivate_lifecycle c w)"
  have maps: "maps_ok (state w)" using ok by (simp add: world_ok_def state_ok_def)
  have "fst ?c = Inr ()" and eq: "in_play (snd (revoke_client_locked io c w)) = in_play (snd ?c)"
    using r by (auto simp: revoke_client_locked_def Let_def in_play_def split: if_splits prod.splits sum.splits)
  then have "in_play (snd (revoke_client_locked io c w)) = {?n}" using commit_ok(4) by simp
  moreover have "client_gone c ?n"
    using maps by (auto simp: client_gone_def remove_client_material_def hm.get_retain_Some hm.get_del maps_ok_def)
  ultimately show ?thesis by simp
qed

text \<open>
  C3. Once the removal of a client has been acknowledged, the client is out for good, through every later step and
  restart, unless a registration draws the very same random id: none of its tokens validates, it can neither redeem
  a code nor refresh a token nor start an authorization, and it cannot come back through its metadata document.
\<close>

theorem revoked_client_locked_out:
  assumes "fst (revoke_client_locked io c (oauth_run env steps)) = Inr True" "c \<notin> set (concat (map registers later))"
  defines "w \<equiv> oauth_run env (steps @ RevokeClient io c # later)"
  shows "(\<forall>claims. fst (validate_token_locked clk token required res w) = Valid claims \<longrightarrow> cl_client_id claims \<noteq> c) \<and>
    fst (exchange_authorization_code env io' clk f a r c ac uri v res w) \<in> {Inl Persistence, Inl InvalidClient} \<and>
    fst (exchange_code_locked env io' clk f a r c ac uri v res w) = Inl InvalidGrant \<and>
    (\<exists>e. fst (exchange_refresh_locked io' clk a r c token res w) = Inl e) \<and>
    fst (ensure_client env io' clk net c w) = Inl InvalidClient \<and>
    fst (begin_authorization_locked env io' now k csrf (rq \<lparr>rq_client_id := c\<rparr>) w) = Inl InvalidClient"
proof -
  let ?w0 = "oauth_run env steps"
  have ok: "world_ok (snd (revoke_client_locked io c ?w0))" using world_ok_exec [OF world_ok_run, of env "RevokeClient io c"] by simp
  have "list_all (\<lambda>step. c \<notin> set (registers step)) later" using assms(2) by (auto simp: list_all_iff)
  from gone.run_keeps [OF this ok revoked_is_gone [OF world_ok_run assms(1)], of env]
  have gone: "client_gone c (state w)" by (simp add: w_def oauth_run_def in_play_def)
  have ok': "maps_ok (state w)" using world_ok_run [of env "steps @ RevokeClient io c # later"] by (simp add: w_def world_ok_def state_ok_def)
  have "hget (clients (snd (evict_expired now (state w)))) c = None"
    using shrinksD(1) [OF thins_shrinks [OF thins_evict ok', of now]] gone by (simp add: client_gone_def)
  then have request: "fst (begin_authorization_locked env io' now k csrf (rq \<lparr>rq_client_id := c\<rparr>) w) = Inl InvalidClient"
    by (auto simp: begin_authorization_locked_def split: prod.splits)
  have "\<exists>e. fst (reuse_refresh_token io' clk a r c token res w) = Inl e"
  proof (cases "hget (consumed_refresh_tokens (state w)) token")
    case (Some d)
    have none: "find (\<lambda>(_, live). ct_family_id d \<noteq> [] \<and> rf_family_id live = ct_family_id d \<and> rf_client_id live = c \<and>
        rf_resource live = res) (refresh_tokens (state w)) = None"
      using gone ok' by (auto simp: find_None_iff client_gone_def maps_ok_def hmap_mem_iff)
    show ?thesis
      unfolding reuse_refresh_token_def Some option.case none by (simp add: commit_then_def split: prod.splits sum.splits)
  qed (simp add: reuse_refresh_token_def)
  then have "\<exists>e. fst (exchange_refresh_locked io' clk a r c token res w) = Inl e"
    using gone by (auto simp: exchange_refresh_locked_def client_gone_def split: option.splits)
  moreover have "cl_client_id claims \<noteq> c" if "fst (validate_token_locked clk token required res w) = Valid claims" for claims
    using gone that by (auto simp: client_gone_def validate_token_locked_def Let_def split: option.splits if_splits)
  moreover have "fst (exchange_authorization_code env io' clk f a r c ac uri v res w) \<in> {Inl Persistence, Inl InvalidClient}"
    using gone by (cases rule: ensure_durable_cases [of "io_sync_first io'" w]; cases "ensure_durable (io_sync_first io') w")
      (simp_all add: exchange_authorization_code_def guarded_def validate_public_client_def client_gone_def)
  moreover have "fst (exchange_code_locked env io' clk f a r c ac uri v res w) = Inl InvalidGrant"
    using gone by (auto simp: client_gone_def exchange_code_locked_def Let_def split: option.splits)
  moreover have "fst (ensure_client env io' clk net c w) = Inl InvalidClient"
    using gone by (simp add: client_gone_def ensure_client_def ensure_client_lookup_def)
  ultimately show ?thesis using request by blast
qed

theorem revoked_client_locked_out_witness:
  "fst (exchange_code_locked demo_env demo_io (\<lambda>_. 0) ''f'' ''a'' ''t'' ''plug_c'' ''o'' ''r'' ''v'' ''u/mcp''
     (oauth_run demo_env ((demo_approval @ [demo_redeem]) @ RevokeClient demo_io ''plug_c'' # [demo_refresh]))) = Inl InvalidGrant"
  using revoked_client_locked_out [of demo_io "''plug_c''" demo_env "demo_approval @ [demo_redeem]" "[demo_refresh]"]
  unfolding demo_runs by (simp add: demo_answers demo_refresh_def)

subsection \<open>A code is redeemed once\<close>

fun issues_code :: "oauth_step \<Rightarrow> string list" where
  "issues_code (FinishApproval io now i r ac) = [ac]"
| "issues_code _ = []"

interpretation spent: grant_invariant env "\<lambda>s. hget (pending_codes s) ac = None" "\<lambda>step. ac \<notin> set (issues_code step)" for env ac
proof (unfold_locales, goal_cases)
  case (1 s s')
  then show ?case using shrinksD(3) [OF 1(3)] by (metis not_None_eq)
next
  case (2 step s s')
  have sh: "hget (pending_codes s1) ac = None" if "shrinks s s1" for s1 using shrinksD(3) [OF that] 2(3) by (metis not_None_eq)
  from 2(4) show ?case by cases (use sh 2(1) in \<open>auto simp: hm.get_ins\<close>)
qed

text \<open>
  C4. An authorization code is redeemed only by the client it was issued to, with the same redirect address and
  resource, before it expires and with a verifier whose SHA-256 challenge is the one sent at the start. Once it has been
  redeemed successfully it is never redeemed again, through every later step, crash and restart, as long
  as no later approval draws the same random code.
\<close>

theorem code_redeemed_once:
  assumes ok: "fst (exchange_code_locked env io clk f a r c ac uri v res (oauth_run env steps)) = Inr pair"
    and fresh: "ac \<notin> set (concat (map issues_code later))"
  shows "\<exists>p. hget (pending_codes (state (oauth_run env steps))) ac = Some p \<and> co_client_id p = c \<and> co_redirect_uri p = uri \<and>
      co_resource p = res \<and> clk 0 < co_expires_at p \<and> pkce_sha256_challenge env v = co_code_challenge p \<and>
      fst (exchange_code_locked env io' clk' f' a' r' c' ac uri' v' res'
        (oauth_run env (steps @ ExchangeCode io clk f a r c ac uri v res # later))) = Inl InvalidGrant"
proof -
  let ?w = "oauth_run env steps" let ?x = "exchange_code_locked env io clk f a r c ac uri v res ?w"
  from ok obtain p where p: "hget (pending_codes (state ?w)) ac = Some p" "co_client_id p = c" "co_redirect_uri p = uri"
    "co_resource p = res" "clk 0 < co_expires_at p" "pkce_sha256_challenge env v = co_code_challenge p"
    by (auto simp: exchange_code_locked_def split: option.splits if_splits)
  let ?n = "snd (issue_token_pair a r (clk 1) c (co_scopes p) res f ((state ?w) \<lparr>pending_codes := hremove ac (pending_codes (state ?w))\<rparr>))"
  have "fst (commit_state io ?n ?w) = Inr ()" "snd ?x = snd (commit_state io ?n ?w)"
    using ok p by (simp_all add: exchange_code_locked_def Let_def case_prod_beta commit_then_Inr)
  then have "in_play (snd ?x) = {?n}" using commit_ok(4) by simp
  then have gone: "\<forall>s \<in> in_play (snd ?x). hget (pending_codes s) ac = None" by (simp add: issue_pair_fields hm.get_del)
  have "world_ok (snd ?x)" using world_ok_exec [OF world_ok_run, of env "ExchangeCode io clk f a r c ac uri v res"] by simp
  moreover have "list_all (\<lambda>step. ac \<notin> set (issues_code step)) later" using fresh by (auto simp: list_all_iff)
  ultimately have "hget (pending_codes (state (fold (oauth_exec env) later (snd ?x)))) ac = None"
    using spent.run_keeps [OF _ _ gone, of later env] by auto
  then have "fst (exchange_code_locked env io' clk' f' a' r' c' ac uri' v' res'
      (oauth_run env (steps @ ExchangeCode io clk f a r c ac uri v res # later))) = Inl InvalidGrant"
    by (simp add: oauth_run_def exchange_code_locked_def)
  with p show ?thesis by blast
qed

theorem code_redeemed_once_witness:
  "fst (exchange_code_locked demo_env demo_io (\<lambda>_. 0) ''f2'' ''a2'' ''t2'' ''plug_c'' ''o'' ''r'' ''v'' ''u/mcp''
     (oauth_run demo_env (demo_approval @ [demo_redeem, demo_refresh]))) = Inl InvalidGrant"
proof -
  obtain pair where "fst (exchange_code_locked demo_env demo_io (\<lambda>_. 0) ''f'' ''a'' ''t'' ''plug_c'' ''o'' ''r'' ''v'' ''u/mcp''
      (oauth_run demo_env demo_approval)) = Inr pair"
    using demo_answers(3) unfolding demo_runs by (metis sum.collapse(2))
  from code_redeemed_once [OF this, of "[demo_refresh]" demo_io "\<lambda>_. 0" "''f2''" "''a2''" "''t2''" "''plug_c''" "''r''" "''v''" "''u/mcp''"]
  show ?thesis by (auto simp: demo_redeem_def demo_refresh_def)
qed

subsection \<open>The end of a token family\<close>

fun draws_family :: "oauth_step \<Rightarrow> string list" where
  "draws_family (ExchangeCode io clk f a r c ac uri v res) = [f]"
| "draws_family _ = []"

definition family_dead :: "string \<Rightarrow> oauth_state \<Rightarrow> bool" where
  "family_dead f s \<longleftrightarrow>
     (\<forall>k t. hget (access_tokens s) k = Some t \<longrightarrow> ak_family_id t \<noteq> f) \<and>
     (\<forall>k t. hget (refresh_tokens s) k = Some t \<longrightarrow> rf_family_id t \<noteq> f) \<and>
     (\<forall>k t. hget (consumed_refresh_tokens s) k = Some t \<longrightarrow> ct_family_id t \<noteq> f)"

lemma dead_shrinks: "family_dead f s \<Longrightarrow> shrinks s s' \<Longrightarrow> family_dead f s'"
  using shrinksD [of s s'] unfolding family_dead_def by blast

interpretation dead: grant_invariant env "family_dead f" "\<lambda>step. f \<notin> set (draws_family step)" for env f
proof (unfold_locales, goal_cases)
  case (1 s s')
  from dead_shrinks [OF 1(2,3)] show ?case .
next
  case (2 step s s')
  note g = dead_shrinks [OF 2(3)]
  from 2(4) show ?case
  proof cases
    case (AddPair s1 ka a kr r g' f')
    have "f' \<noteq> f" using AddPair(13) 2(1,3) unfolding family_dead_def by fastforce
    moreover have "ct_family_id d \<noteq> f" if "hget (consumed_refresh_tokens s') kc = Some d" for kc d
      using AddPair(7) [OF that] 2(3) unfolding family_dead_def by metis
    ultimately show ?thesis
      using g [OF AddPair(1)] AddPair(2-6,11,12) by (auto simp: family_dead_def hm.get_ins split: if_splits)
  qed (use g in \<open>auto simp: family_dead_def\<close>)
qed

text \<open>What a use of a refresh token that is not live leaves behind when it is refused.\<close>

lemma refused_reuse_dead:
  assumes w: "world_ok w" and d: "hget (consumed_refresh_tokens (state w)) t = Some d" "ct_family_id d \<noteq> []"
    and r: "fst (reuse_refresh_token io clk a r c t res w) = Inl InvalidGrant"
  shows "\<forall>s \<in> in_play (snd (reuse_refresh_token io clk a r c t res w)). family_dead (ct_family_id d) s"
proof -
  let ?n = "snd (revoke_token_family (ct_family_id d) (state w))"
  have maps: "maps_ok (state w)" using w by (simp add: world_ok_def state_ok_def)
  have not_this: "fst (commit_state io n w') \<noteq> Inl InvalidGrant" for n w'
    by (cases rule: ensure_durable_cases [of "io_sync_commit io" w']; cases "ensure_durable (io_sync_commit io) w'")
      (auto simp: commit_state_def persist_bytes_def split: persist_outcome.splits)
  have "fst (commit_then io ?n (Inl InvalidGrant :: oauth_error + token_response) (end_sign_in (ct_family_id d) w)) = Inl InvalidGrant \<and>
      snd (reuse_refresh_token io clk a r c t res w) = snd (commit_state io ?n (end_sign_in (ct_family_id d) w))"
    using r d not_this
    by (auto simp: reuse_refresh_token_def case_prod_beta commit_then_def split: option.splits if_splits sum.splits)
  then have "fst (commit_state io ?n (end_sign_in (ct_family_id d) w)) = Inr ()"
      "snd (reuse_refresh_token io clk a r c t res w) = snd (commit_state io ?n (end_sign_in (ct_family_id d) w))"
    using not_this [of ?n "end_sign_in (ct_family_id d) w"] by (auto simp: commit_then_def split: prod.splits sum.splits)
  then have "in_play (snd (reuse_refresh_token io clk a r c t res w)) = {?n}" using commit_ok(4) by simp
  moreover have "family_dead (ct_family_id d) ?n"
    using d(2) maps by (auto simp: family_dead_def revoke_token_family_def Let_def hm.get_retain_Some maps_ok_def)
  ultimately show ?thesis by simp
qed

text \<open>
  C20. When the use of a spent refresh token is answered with an invalid grant, its whole family is over: from
  then on, through every later step and restart, no access token of the family validates and there is no refresh token
  of it, live or spent, that could give a new pair, as long as no later sign-in draws the same random family id.
\<close>

theorem refused_replay_ends_family:
  assumes spent: "hget (refresh_tokens (state (oauth_run env steps))) t = None"
    "hget (consumed_refresh_tokens (state (oauth_run env steps))) t = Some d" "ct_family_id d \<noteq> []"
    and r: "fst (exchange_refresh_locked io clk a r c t res (oauth_run env steps)) = Inl InvalidGrant"
    and fresh: "ct_family_id d \<notin> set (concat (map draws_family later))"
  defines "w \<equiv> oauth_run env (steps @ ExchangeRefresh io clk a r c t res # later)"
  shows "(\<forall>claims. fst (validate_token_locked clk' token required res' w) = Valid claims \<longrightarrow>
      ll_family (cl_lease claims) \<noteq> Some (ct_family_id d)) \<and>
    (\<forall>k u. hget (refresh_tokens (state w)) k = Some u \<longrightarrow> rf_family_id u \<noteq> ct_family_id d) \<and>
    (\<forall>k e. hget (consumed_refresh_tokens (state w)) k = Some e \<longrightarrow> ct_family_id e \<noteq> ct_family_id d)"
proof -
  let ?w0 = "oauth_run env steps" and ?f = "ct_family_id d"
  let ?x = "exchange_refresh_locked io clk a r c t res ?w0"
  have x: "?x = reuse_refresh_token io clk a r c t res ?w0" using spent(1) by (simp add: exchange_refresh_locked_def)
  have "world_ok (snd ?x)" using world_ok_exec [OF world_ok_run, of env "ExchangeRefresh io clk a r c t res"] by simp
  moreover have "\<forall>s \<in> in_play (snd ?x). family_dead ?f s"
    using refused_reuse_dead [OF world_ok_run spent(2,3)] r unfolding x by blast
  moreover have "list_all (\<lambda>step. ?f \<notin> set (draws_family step)) later" using fresh by (auto simp: list_all_iff)
  ultimately have "family_dead ?f (state (fold (oauth_exec env) later (snd ?x)))" using dead.run_keeps [of ?f later "snd ?x" env] state_in_play by blast
  then have dead: "family_dead ?f (state w)" by (simp add: w_def oauth_run_def)
  have "ll_family (cl_lease claims) \<noteq> Some ?f" if "fst (validate_token_locked clk' token required res' w) = Valid claims" for claims
    using dead that by (auto simp: family_dead_def validate_token_locked_def Let_def split: option.splits if_splits)
  then show ?thesis using dead by (auto simp: family_dead_def)
qed

theorem refused_replay_ends_family_witness:
  "\<nexists>k u. hget (refresh_tokens (state (oauth_run demo_env ((demo_approval @ [demo_redeem, demo_refresh]) @
      ExchangeRefresh demo_io (\<lambda>_. 0) ''a3'' ''t3'' ''other'' ''t'' ''u/mcp'' # [])))) k = Some u \<and> rf_family_id u = ''f''"
proof -
  let ?w = "oauth_run demo_env (demo_approval @ [demo_redeem, demo_refresh])"
  have spent: "hget (refresh_tokens (state ?w)) ''t'' = None"
    "hget (consumed_refresh_tokens (state ?w)) ''t'' = Some \<lparr>ct_family_id = ''f'', ct_client_id = ''plug_c'', ct_consumed_at = 0\<rparr>"
    unfolding demo_runs by (simp_all add: demo_world_def demo_refreshed_def)
  have "fst (exchange_refresh_locked demo_io (\<lambda>_. 0) ''a3'' ''t3'' ''other'' ''t'' ''u/mcp'' ?w) = Inl InvalidGrant"
    unfolding demo_runs by (rule demo_answers)
  from refused_replay_ends_family [OF spent _ this, of "[]"] show ?thesis by auto
qed

end
