(* ===== verification/Oauth_Lifecycle.thy ===== *)
theory Oauth_Lifecycle
  imports Oauth_Safety
begin

section \<open>Leases, limits and the disk\<close>

text \<open>
  What lives beside the state: the lifecycle flags that leases point to, the sign-ins, the rate table and
  the files. The first part says which steps touch them; then come the end of leases on revocation,
  the limits, and how the disk follows memory.
\<close>

subsection \<open>Which steps touch what\<close>

definition flags :: "oauth_world \<Rightarrow> (string, nat) hmap \<times> lifecycle list" where
  "flags w = (principal_lifecycles w, lifecycle_heap w)"

definition sides :: "oauth_world \<Rightarrow> (string, sign_in) hmap \<times> (string, nat list) hmap" where
  "sides w = (family_ended w, registration_rate w)"

lemma ensure_frame [simp]: "flags (snd (ensure_durable ok w)) = flags w" "sides (snd (ensure_durable ok w)) = sides w"
  by (cases rule: ensure_durable_cases [of ok w]; simp add: flags_def sides_def)+

lemma commit_frame [simp]: "flags (snd (commit_state io nxt w)) = flags w" "sides (snd (commit_state io nxt w)) = sides w"
  using ensure_frame [of "io_sync_commit io" w]
  by (cases rule: commit_cases [of io nxt w]; simp add: flags_def sides_def)+

lemma owner_frame:
  "flags (snd (create_owner_bootstrap_locked env io clk s w)) = flags w"
  "sides (snd (create_owner_bootstrap_locked env io clk s w)) = sides w"
  "flags (snd (start_owner_registration_locked env io now b i e w)) = flags w"
  "sides (snd (start_owner_registration_locked env io now b i e w)) = sides w"
  "flags (snd (finish_owner_registration_locked env io now i r w)) = flags w"
  "sides (snd (finish_owner_registration_locked env io now i r w)) = sides w"
  "flags (snd (start_owner_approval_locked env io now c i e w)) = flags w"
  "sides (snd (start_owner_approval_locked env io now c i e w)) = sides w"
  "flags (snd (remove_owner_credential_locked io i allow w)) = flags w"
  "sides (snd (remove_owner_credential_locked io i allow w)) = sides w"
  by (simp_all add: create_owner_bootstrap_locked_def start_owner_registration_locked_def finish_owner_registration_locked_def
      start_owner_approval_locked_def remove_owner_credential_locked_def Let_def case_prod_beta split: option.splits)

lemma consent_frame:
  "flags (snd (finish_owner_approval_locked env io now i r ac w)) = flags w"
  "sides (snd (finish_owner_approval_locked env io now i r ac w)) = sides w"
  "flags (snd (deny_consent_locked env io now c csrf w)) = flags w"
  "sides (snd (deny_consent_locked env io now c csrf w)) = sides w"
  "flags (snd (exchange_code_locked env io clk f a r c ac uri v res w)) = flags w"
  "sides (snd (exchange_code_locked env io clk f a r c ac uri v res w)) = sides w"
  by (simp_all add: finish_owner_approval_locked_def deny_consent_locked_def exchange_code_locked_def Let_def case_prod_beta
      split: option.splits bool.splits)

lemma sign_in_frame [simp]:
  "flags (end_sign_in f w) = flags w" "flags (prolong_sign_in f t w) = flags w" "flags (enter_sign_in x w) = flags w"
  "registration_rate (end_sign_in f w) = registration_rate w" "registration_rate (prolong_sign_in f t w) = registration_rate w"
  "registration_rate (enter_sign_in x w) = registration_rate w"
  by (simp_all add: end_sign_in_def prolong_sign_in_def enter_sign_in_def flags_def split: option.splits)

lemma rate_sides: "sides w = sides w' \<Longrightarrow> registration_rate w = registration_rate w'"
  by (simp add: sides_def)

lemma token_frame:
  "flags (snd (exchange_refresh_locked io clk a r c t res w)) = flags w"
  "registration_rate (snd (exchange_refresh_locked io clk a r c t res w)) = registration_rate w"
  "flags (snd (validate_token_locked clk t sc res w)) = flags w"
  "registration_rate (snd (validate_token_locked clk t sc res w)) = registration_rate w"
  "flags (snd (check_registration_rate now key w)) = flags w"
proof -
  have c: "registration_rate (snd (commit_state io nxt w)) = registration_rate w" for nxt and w :: oauth_world
    by (rule rate_sides) simp
  have reuse: "flags (snd (reuse_refresh_token io clk a r c t res w)) = flags w"
    "registration_rate (snd (reuse_refresh_token io clk a r c t res w)) = registration_rate w"
    by (simp_all add: reuse_refresh_token_def case_prod_beta c split: option.splits)
  have x: "flags (snd (case commit_state io nxt w of (Inl e, w1) \<Rightarrow> (Inl e, w1) | (Inr _, w1) \<Rightarrow> (Inr pair, prolong_sign_in f t w1))) = flags w"
    "registration_rate (snd (case commit_state io nxt w of (Inl e, w1) \<Rightarrow> (Inl e, w1) | (Inr _, w1) \<Rightarrow> (Inr pair, prolong_sign_in f t w1))) =
      registration_rate w" for nxt f t and pair :: token_response
    using commit_frame(1) [of io nxt w] c [of nxt w] by (cases "commit_state io nxt w"; auto split: sum.splits)+
  show "flags (snd (exchange_refresh_locked io clk a r c t res w)) = flags w"
    "registration_rate (snd (exchange_refresh_locked io clk a r c t res w)) = registration_rate w"
    by (simp_all add: exchange_refresh_locked_def Let_def case_prod_beta reuse x [unfolded case_prod_beta] split: option.splits)
  show "flags (snd (check_registration_rate now key w)) = flags w" by (simp add: check_registration_rate_def Let_def flags_def)
qed (simp_all add: validate_token_locked_def Let_def split: option.splits)

subsection \<open>Lifecycle flags\<close>

text \<open>
  The flag \<open>i\<close> belongs to the client \<open>c\<close>: while it is set it is the one in the table, and no other
  client's entry points to it.
\<close>

definition flag_of :: "string \<Rightarrow> nat \<Rightarrow> (string, nat) hmap \<times> lifecycle list \<Rightarrow> bool" where
  "flag_of c i fl \<longleftrightarrow>
     (case fl of (table, heap) \<Rightarrow> i < length heap \<and> (lc_active (heap ! i) \<longrightarrow> hget table c = Some i) \<and>
        (\<forall>c'. hget table c' = Some i \<longrightarrow> c' = c) \<and> (\<forall>c' j. hget table c' = Some j \<longrightarrow> j < length heap))"

definition flag_set :: "nat \<Rightarrow> (string, nat) hmap \<times> lifecycle list \<Rightarrow> bool" where
  "flag_set i fl \<longleftrightarrow> lc_active (snd fl ! i)"

lemma deactivate_flags:
  assumes "flag_of c i (flags w)"
  shows "flag_of c i (flags (deactivate_lifecycle k w))" "flag_set i (flags (deactivate_lifecycle k w)) \<Longrightarrow> flag_set i (flags w)"
    "\<not> flag_set i (flags (deactivate_lifecycle c w))" "principal_lifecycles (deactivate_lifecycle k w) = principal_lifecycles w"
  using assms
  by (auto simp: deactivate_lifecycle_def flag_of_def flag_set_def flags_def deactivate_def nth_list_update split: option.splits if_splits)

lemma deactivate_all_flags:
  assumes "flag_of c i (flags w)"
  shows "flag_of c i (flags (deactivate_principal_lifecycles ks w)) \<and>
    (flag_set i (flags (deactivate_principal_lifecycles ks w)) \<longrightarrow> flag_set i (flags w) \<and> c \<notin> set ks)"
  using assms unfolding deactivate_principal_lifecycles_def
proof (induction ks arbitrary: w)
  case (Cons k ks)
  let ?w = "deactivate_lifecycle k w"
  have "flag_of c i (flags (fold deactivate_lifecycle ks ?w)) \<and>
    (flag_set i (flags (fold deactivate_lifecycle ks ?w)) \<longrightarrow> flag_set i (flags ?w) \<and> c \<notin> set ks)"
    by (rule Cons.IH [OF deactivate_flags(1) [OF Cons.prems]])
  then show ?case using deactivate_flags(2,3) [OF Cons.prems] by auto
qed simp

lemma fold_remove_get: "hget (fold hremove ks m) k = (if k \<in> set ks then None else hget m k)"
  by (induction ks arbitrary: m) (auto simp: hm.get_del)

lemma remove_flags:
  assumes "flag_of c i fl" "fl = flags w" "flag_set i fl \<longrightarrow> c \<notin> set ks"
  shows "flag_of c i (flags (remove_principal_lifecycles ks w))" "flag_set i (flags (remove_principal_lifecycles ks w)) = flag_set i fl"
  using assms by (auto simp: remove_principal_lifecycles_def flag_of_def flag_set_def flags_def fold_remove_get)

lemma insert_flags:
  assumes fl: "flag_of c i fl" "fl = flags w" and k: "k \<noteq> c \<or> hget (principal_lifecycles w) c = None"
  shows "flag_of c i (flags (insert_lifecycle k w))" "flag_set i (flags (insert_lifecycle k w)) = flag_set i fl"
proof -
  have i: "i < length (lifecycle_heap w)" using fl by (simp add: flag_of_def flags_def)
  then show set: "flag_set i (flags (insert_lifecycle k w)) = flag_set i fl"
    using fl(2) by (simp add: insert_lifecycle_def flag_set_def flags_def nth_append)
  have "hget (principal_lifecycles w) c = Some i" if "flag_set i fl" using that fl by (simp add: flag_of_def flag_set_def flags_def)
  with k have "k \<noteq> c" if "flag_set i fl" using that by auto
  then show "flag_of c i (flags (insert_lifecycle k w))"
    using fl i set by (auto simp: insert_lifecycle_def flag_of_def flag_set_def flags_def hm.get_ins less_Suc_eq)
qed

fun is_restart :: "oauth_step \<Rightarrow> bool" where
  "is_restart (Restart clk syncs i) = True"
| "is_restart _ = False"

text \<open>A section that evicts: it deactivates the expired clients, commits, and removes their entries.\<close>

lemma evicting_flags:
  fixes w :: oauth_world and ks :: "string list"
  assumes fl: "flag_of c i (flags w)" and w1: "commit_state io nxt (deactivate_principal_lifecycles ks w) = (r, w1)"
  shows "flag_of c i (flags w1)" "flag_set i (flags w1) \<longrightarrow> flag_set i (flags w) \<and> c \<notin> set ks"
proof -
  have "flags w1 = flags (deactivate_principal_lifecycles ks w)"
    using commit_frame(1) [of io nxt "deactivate_principal_lifecycles ks w"] w1 by simp
  then show "flag_of c i (flags w1)" "flag_set i (flags w1) \<longrightarrow> flag_set i (flags w) \<and> c \<notin> set ks"
    using deactivate_all_flags [OF fl, of ks] by simp_all
qed

text \<open>What is left of the flag after a step.\<close>

definition flag_kept :: "string \<Rightarrow> nat \<Rightarrow> oauth_world \<Rightarrow> oauth_world \<Rightarrow> bool" where
  "flag_kept c i w w' \<longleftrightarrow> flag_of c i (flags w') \<and> (flag_set i (flags w') \<longrightarrow> flag_set i (flags w))"

lemma flag_kept_same: "flag_of c i (flags w) \<Longrightarrow> flags w' = flags w \<Longrightarrow> flag_kept c i w w'"
  by (simp add: flag_kept_def)

lemma flag_kept_evicting:
  assumes fl: "flag_of c i (flags w)" and w1: "commit_state io nxt (deactivate_principal_lifecycles ks w) = (r, w1)"
  shows "flag_kept c i w w1" "flag_kept c i w (remove_principal_lifecycles ks w1)"
    "k \<noteq> c \<Longrightarrow> flag_kept c i w (remove_principal_lifecycles ks (insert_lifecycle k w1))"
    "hget (principal_lifecycles (remove_principal_lifecycles ks w1)) k = None \<Longrightarrow>
       flag_kept c i w (insert_lifecycle k (remove_principal_lifecycles ks w1))"
proof -
  note ev = evicting_flags [OF fl w1]
  then show "flag_kept c i w w1" by (simp add: flag_kept_def)
  have rm: "flag_of c i (flags (remove_principal_lifecycles ks w1))"
    "flag_set i (flags (remove_principal_lifecycles ks w1)) = flag_set i (flags w1)"
    using remove_flags [OF ev(1) refl, of ks] ev(2) by auto
  then show "flag_kept c i w (remove_principal_lifecycles ks w1)" using ev by (simp add: flag_kept_def)
  show "flag_kept c i w (remove_principal_lifecycles ks (insert_lifecycle k w1))" if "k \<noteq> c"
    using insert_flags [OF ev(1) refl, of k] remove_flags [of c i _ "insert_lifecycle k w1" ks] ev(2) that
    by (auto simp: flag_kept_def)
  show "flag_kept c i w (insert_lifecycle k (remove_principal_lifecycles ks w1))"
    if "hget (principal_lifecycles (remove_principal_lifecycles ks w1)) k = None"
    using insert_flags [OF rm(1) refl, of k] rm(2) ev(2) that by (cases "k = c") (auto simp: flag_kept_def)
qed

lemma flags_kept:
  assumes fl: "flag_of c i (flags w)" and "\<not> is_restart step" "c \<notin> set (registers step)"
  shows "flag_kept c i w (oauth_exec env step w)"
proof (cases step)
  case (RegisterClient io now v r)
  obtain expired nxt where ev: "evict_expired now (state w) = (expired, nxt)" by fastforce
  have "''plug_'' @ v \<noteq> c" using assms(3) RegisterClient by auto
  then show ?thesis
    by (auto simp: RegisterClient register_client_locked_def ev Let_def flag_kept_same [OF fl] split: prod.splits sum.splits
        dest: flag_kept_evicting(1,3) [OF fl])
next
  case (StoreClient io now k d)
  obtain expired nxt where ev: "evict_expired now (state w) = (expired, nxt)" by fastforce
  show ?thesis
    by (auto simp: StoreClient ensure_client_store_def ev Let_def flag_kept_same [OF fl] split: prod.splits sum.splits
        dest: flag_kept_evicting(1,2,4) [OF fl])
next
  case (BeginAuthorization io now k csrf rq)
  obtain expired nxt where ev: "evict_expired now (state w) = (expired, nxt)" by fastforce
  show ?thesis
    by (auto simp: BeginAuthorization begin_authorization_locked_def ev Let_def flag_kept_same [OF fl]
        split: option.splits prod.splits sum.splits dest: flag_kept_evicting(1,2) [OF fl])
next
  case (RevokeClient io k)
  show ?thesis
    using flag_kept_evicting(1,2) [OF fl, of io _ "[k]"]
    by (auto simp: RevokeClient revoke_client_locked_def Let_def deactivate_principal_lifecycles_def flag_kept_same [OF fl]
        split: prod.splits sum.splits)
qed (use assms(2) in \<open>simp_all add: owner_frame consent_frame token_frame flag_kept_same [OF fl]\<close>)

definition flags_ok :: "oauth_world \<Rightarrow> bool" where
  "flags_ok w \<longleftrightarrow>
     (\<forall>c j. hget (principal_lifecycles w) c = Some j \<longrightarrow> j < length (lifecycle_heap w)) \<and>
     (\<forall>c c' j. hget (principal_lifecycles w) c = Some j \<longrightarrow> hget (principal_lifecycles w) c' = Some j \<longrightarrow> c = c')"

lemma flags_ok_cong: "flags w' = flags w \<Longrightarrow> flags_ok w' = flags_ok w"
  by (simp add: flags_ok_def flags_def)

lemma flags_ok_ops:
  assumes "flags_ok w"
  shows "flags_ok (deactivate_lifecycle k w)" "flags_ok (remove_principal_lifecycles ks w)" "flags_ok (insert_lifecycle k w)"
  using assms
  by (auto simp: flags_ok_def deactivate_lifecycle_def remove_principal_lifecycles_def insert_lifecycle_def fold_remove_get hm.get_ins
      less_Suc_eq split: option.splits if_splits)

lemma flags_ok_deactivate_all: "flags_ok w \<Longrightarrow> flags_ok (deactivate_principal_lifecycles ks w)"
  unfolding deactivate_principal_lifecycles_def by (induction ks arbitrary: w) (simp_all add: flags_ok_ops)

lemma flags_ok_commit: "commit_state io nxt w = (r, w1) \<Longrightarrow> flags_ok w \<Longrightarrow> flags_ok w1"
  using flags_ok_cong [of w1 w] commit_frame(1) [of io nxt w] by simp

lemma flags_ok_start:
  assumes "oauth_start clk syncs f = Inr w" "maps_ok (file_state f)"
  shows "flags_ok w"
proof -
  have fl: "principal_lifecycles w = map (\<lambda>(i, (c, _)). (c, i)) (enumerate 0 (clients (state w)))"
    "lifecycle_heap w = replicate (length (clients (state w))) lifecycle_new"
    using assms(1) by (auto simp: oauth_start_def Let_def split: if_splits sum.splits)
  have "j < length (clients (state w)) \<and> fst (clients (state w) ! j) = c" if "hget (principal_lifecycles w) c = Some j" for c j
    using map_of_SomeD [OF that] by (auto simp: fl in_set_enumerate_eq)
  then show ?thesis by (simp add: flags_ok_def fl(2)) metis
qed

lemma flags_ok_exec:
  assumes "flags_ok w" "world_ok w"
  shows "flags_ok (oauth_exec env step w)"
proof (cases step)
  case (Restart clk syncs i)
  have "maps_ok (file_state (disk w ! i))" if "i < length (disk w)"
    using assms(2) that by (auto simp: world_ok_def in_play_def state_ok_def)
  then show ?thesis using assms(1) flags_ok_start by (auto simp: Restart split: sum.splits)
next
  case (RevokeClient io k)
  then show ?thesis
    using assms(1) by (auto simp: revoke_client_locked_def Let_def split: prod.splits sum.splits
        intro!: flags_ok_ops dest: flags_ok_commit [OF _ flags_ok_ops(1) [OF assms(1)]])
qed (use assms(1) in \<open>auto simp: register_client_locked_def ensure_client_store_def begin_authorization_locked_def Let_def
    flags_ok_cong [OF owner_frame(1)] flags_ok_cong [OF owner_frame(3)] flags_ok_cong [OF owner_frame(5)] flags_ok_cong [OF owner_frame(7)]
    flags_ok_cong [OF owner_frame(9)] flags_ok_cong [OF consent_frame(1)] flags_ok_cong [OF consent_frame(3)]
    flags_ok_cong [OF consent_frame(5)] flags_ok_cong [OF token_frame(1)] flags_ok_cong [OF token_frame(3)]
    flags_ok_cong [OF token_frame(5)] flags_ok_cong [OF ensure_frame(1)]
    split: option.splits prod.splits sum.splits intro!: flags_ok_ops
    dest: flags_ok_commit [OF _ flags_ok_deactivate_all [OF assms(1)]]\<close>)

lemma flags_ok_run: "flags_ok (oauth_run env steps)"
proof (induction steps rule: rev_induct)
  case Nil
  then show ?case by (simp add: oauth_run_def oauth_new_def flags_ok_def)
next
  case (snoc step steps)
  then show ?case by (simp add: oauth_run_snoc flags_ok_exec world_ok_run)
qed

lemma flags_kept_run:
  assumes "flag_of c i (flags w)" "list_all (\<lambda>step. \<not> is_restart step \<and> c \<notin> set (registers step)) steps"
  shows "flag_kept c i w (fold (oauth_exec env) steps w)"
  using assms
proof (induction steps arbitrary: w)
  case (Cons step steps)
  then have k: "flag_kept c i w (oauth_exec env step w)" by (intro flags_kept) simp_all
  with Cons have "flag_kept c i (oauth_exec env step w) (fold (oauth_exec env) steps (oauth_exec env step w))"
    by (simp add: flag_kept_def)
  with k show ?case by (simp add: flag_kept_def)
qed (simp add: flag_kept_def)

lemma revoke_clears_flag:
  assumes fl: "flag_of c i (flags w)" and there: "hget (clients (state w)) c \<noteq> None"
  shows "\<not> flag_set i (flags (snd (revoke_client_locked io c w)))"
proof -
  have "flag_set i (flags w1) = flag_set i (flags (deactivate_lifecycle c w))"
    if "commit_state io nxt (deactivate_lifecycle c w) = (r, w1)" for nxt r w1
    using commit_frame(1) [of io nxt "deactivate_lifecycle c w"] that by simp
  moreover have "flag_set i (flags (remove_principal_lifecycles ks w1)) = flag_set i (flags w1)" for ks w1
    by (simp add: flag_set_def flags_def remove_principal_lifecycles_def)
  ultimately show ?thesis
    using there deactivate_flags(3) [OF fl] by (auto simp: revoke_client_locked_def Let_def split: prod.splits sum.splits)
qed

text \<open>
  C19. Work admitted under a token stops when its client is removed: a lease handed out at any earlier
  moment of the same process is inactive from the removal on, whatever happens before and after, even when saving
  the removal fails and the operator is told so.
\<close>

theorem revocation_ends_leases:
  assumes valid: "fst (validate_token_locked clk token required res (oauth_run env steps)) = Valid claims"
    and c: "c = cl_client_id claims"
    and ops: "list_all (\<lambda>step. \<not> is_restart step \<and> c \<notin> set (registers step)) (between @ later)"
    and there: "hget (clients (state (oauth_run env (steps @ between)))) c \<noteq> None"
  shows "\<not> lease_is_active now (cl_lease claims) (oauth_run env (steps @ between @ RevokeClient io c # later))"
proof -
  let ?w0 = "oauth_run env steps" let ?w1 = "oauth_run env (steps @ between)" let ?i = "ll_state (cl_lease claims)"
  have w1: "?w1 = fold (oauth_exec env) between ?w0" by (simp add: oauth_run_def)
  from valid c have "hget (principal_lifecycles ?w0) c = Some ?i"
    by (auto simp: validate_token_locked_def Let_def split: option.splits if_splits)
  then have "flag_of c ?i (flags ?w0)" using flags_ok_run [of env steps] by (auto simp: flag_of_def flags_def flags_ok_def)
  then have "flag_kept c ?i ?w0 ?w1" unfolding w1 using ops by (intro flags_kept_run) simp_all
  then have f1: "flag_of c ?i (flags ?w1)" by (simp add: flag_kept_def)
  let ?w2 = "snd (revoke_client_locked io c ?w1)"
  have "flag_of c ?i (flags ?w2)" using flags_kept [OF f1, of "RevokeClient io c" env] by (simp add: flag_kept_def)
  then have "flag_kept c ?i ?w2 (fold (oauth_exec env) later ?w2)" using ops by (intro flags_kept_run) simp_all
  then have "\<not> flag_set ?i (flags (fold (oauth_exec env) later ?w2))"
    using revoke_clears_flag [OF f1 there, of io] by (simp add: flag_kept_def)
  then show ?thesis by (simp add: lease_is_active_def flag_set_def flags_def oauth_run_def)
qed

theorem revocation_ends_leases_witness:
  "\<not> lease_is_active 5 (cl_lease demo_claims)
     (oauth_run demo_env ((demo_approval @ [demo_redeem]) @ [demo_refresh] @ RevokeClient demo_io ''plug_c'' # []))"
proof (rule revocation_ends_leases)
  show "fst (validate_token_locked (\<lambda>_. 5) ''a'' [''s''] ''u/mcp'' (oauth_run demo_env (demo_approval @ [demo_redeem]))) = Valid demo_claims"
    unfolding demo_runs by (rule demo_answers)
  have "(demo_approval @ [demo_redeem]) @ [demo_refresh] = demo_approval @ [demo_redeem, demo_refresh]" by simp
  then show "hget (clients (state (oauth_run demo_env ((demo_approval @ [demo_redeem]) @ [demo_refresh])))) ''plug_c'' \<noteq> None"
    by (simp only: demo_runs) (simp add: demo_states)
qed (simp_all add: demo_claims_def demo_refresh_def)

subsection \<open>Limits\<close>

definition rate_ok :: "(string, nat list) hmap \<Rightarrow> bool" where
  "rate_ok m \<longleftrightarrow> length m \<le> MAX_REGISTRATION_RATE_KEYS \<and> list_all (\<lambda>(_, seen). length seen \<le> MAX_REGISTRATIONS_PER_WINDOW) m"

lemma rate_frame [simp]:
  "registration_rate (snd (commit_state io nxt w)) = registration_rate w"
  "registration_rate (deactivate_principal_lifecycles ks w) = registration_rate w"
  "registration_rate (deactivate_lifecycle k w) = registration_rate w"
  "registration_rate (remove_principal_lifecycles ks w) = registration_rate w"
  "registration_rate (insert_lifecycle k w) = registration_rate w"
proof -
  show d: "registration_rate (deactivate_lifecycle k w) = registration_rate w" for k w
    by (simp add: deactivate_lifecycle_def split: option.splits)
  show "registration_rate (deactivate_principal_lifecycles ks w) = registration_rate w"
    unfolding deactivate_principal_lifecycles_def by (induction ks arbitrary: w) (simp_all add: d)
  show "registration_rate (snd (commit_state io nxt w)) = registration_rate w" by (rule rate_sides [OF commit_frame(2)])
qed (simp_all add: remove_principal_lifecycles_def insert_lifecycle_def)

lemma rate_commit: "commit_state io nxt w = (r, w1) \<Longrightarrow> registration_rate w1 = registration_rate w"
  using rate_frame(1) [of io nxt w] by simp

lemma client_rates:
  "registration_rate (snd (register_client_locked io now v rq w)) = registration_rate w"
  "registration_rate (snd (ensure_client_store io now k d w)) = registration_rate w"
  "registration_rate (snd (begin_authorization_locked env io now k csrf q w)) = registration_rate w"
  "registration_rate (snd (revoke_client_locked io k w)) = registration_rate w"
  by (auto simp: register_client_locked_def ensure_client_store_def begin_authorization_locked_def revoke_client_locked_def Let_def
      split: option.splits prod.splits sum.splits dest: rate_commit)

lemma hinsert_all: "list_all P m \<Longrightarrow> P (k, v) \<Longrightarrow> list_all P (hinsert k v m)"
  unfolding hinsert_def by (induction m) auto

lemma check_rate_ok:
  assumes "rate_ok (registration_rate w)"
  shows "rate_ok (registration_rate (snd (check_registration_rate now key w)))"
proof -
  define aged where "aged = map (\<lambda>(k, seen). (k, dropWhile (\<lambda>t. t + REGISTRATION_RATE_WINDOW_SECS \<le> now) seen)) (registration_rate w)"
  define rate where "rate = filter (\<lambda>(_, seen). seen \<noteq> []) aged"
  have all: "list_all (\<lambda>(_, seen). length seen \<le> MAX_REGISTRATIONS_PER_WINDOW) rate"
    using assms length_dropWhile_le order_trans by (fastforce simp: rate_ok_def list_all_iff rate_def aged_def)
  have len: "length rate \<le> MAX_REGISTRATION_RATE_KEYS"
    unfolding rate_def by (rule order_trans [OF length_filter_le]) (use assms in \<open>simp add: aged_def rate_ok_def\<close>)
  have ins: "rate_ok (hinsert key seen rate)"
    if "length seen \<le> MAX_REGISTRATIONS_PER_WINDOW" "hget rate key = None \<Longrightarrow> length rate < MAX_REGISTRATION_RATE_KEYS" for seen
  proof (cases "hget rate key")
    case None
    then show ?thesis using that(1) that(2) [OF None] all length_hinsert_le [of key seen rate] by (simp add: rate_ok_def hinsert_all)
  next
    case (Some s)
    then show ?thesis using that(1) all len length_hinsert_old [OF Some, of seen] by (simp add: rate_ok_def hinsert_all)
  qed
  have known: "length s \<le> MAX_REGISTRATIONS_PER_WINDOW" if "hget rate key = Some s" for s
    using all map_of_SomeD [OF that] by (auto simp: list_all_iff)
  have "registration_rate (snd (check_registration_rate now key w)) =
      (if hget rate key = None \<and> MAX_REGISTRATION_RATE_KEYS \<le> length rate then rate
       else let seen = (case hget rate key of Some s \<Rightarrow> s | None \<Rightarrow> [])
         in hinsert key (if MAX_REGISTRATIONS_PER_WINDOW \<le> length seen then seen else seen @ [now]) rate)"
    by (simp add: check_registration_rate_def Let_def flip: aged_def rate_def)
  then show ?thesis
    using ins [of "case hget rate key of Some s \<Rightarrow> s | None \<Rightarrow> []"] ins [of "(case hget rate key of Some s \<Rightarrow> s | None \<Rightarrow> []) @ [now]"]
      known all len
    by (auto simp: rate_ok_def [of rate] Let_def not_le oauth_limits split: option.splits)
qed

lemma rate_ok_run: "rate_ok (registration_rate (oauth_run env steps))"
proof (induction steps rule: rev_induct)
  case Nil
  then show ?case by (simp add: oauth_run_def oauth_new_def rate_ok_def)
next
  case (snoc step steps)
  let ?w = "oauth_run env steps"
  show ?case unfolding oauth_run_snoc
  proof (cases step)
    case (Restart clk syncs i)
    have "registration_rate w' = []" if "oauth_start clk syncs f = Inr w'" for f w'
      using that by (auto simp: oauth_start_def Let_def split: if_splits sum.splits)
    then show "rate_ok (registration_rate (oauth_exec env step ?w))"
      using snoc by (auto simp: Restart rate_ok_def split: sum.splits)
  qed (use snoc check_rate_ok in \<open>simp_all add: client_rates token_frame rate_sides [OF owner_frame(2)] rate_sides [OF owner_frame(4)]
      rate_sides [OF owner_frame(6)] rate_sides [OF owner_frame(8)] rate_sides [OF owner_frame(10)] rate_sides [OF consent_frame(2)]
      rate_sides [OF consent_frame(4)] rate_sides [OF consent_frame(6)] rate_sides [OF ensure_frame(2)]\<close>)
qed

text \<open>
  The server's records stay within their limits over every run, in memory and in every file a restart may find:
  100 clients, 200 consents in all and 5 per client (pending and completed together), 10 access tokens per client,
  5 owner passkeys, one enrollment secret, 10 enrollment and 200 approval ceremonies; and the rate table holds at most
  10000 keys with 10 registrations each.
\<close>

theorem oauth_records_bounded:
  "list_all (\<lambda>s. length (clients s) \<le> 100 \<and> length (pending_consents s) + length (completed_consents s) \<le> 200 \<and>
       consents_of c s \<le> 5 \<and> length (filter (\<lambda>(_, t). ak_client_id t = c) (access_tokens s)) \<le> 10 \<and>
       length (owner_credentials s) \<le> 5 \<and> length (owner_bootstraps s) \<le> 1 \<and> length (owner_registration_ceremonies s) \<le> 10 \<and>
       length (owner_authentication_ceremonies s) \<le> 200)
     (state (oauth_run env steps) # map file_state (disk (oauth_run env steps))) \<and>
   length (registration_rate (oauth_run env steps)) \<le> 10000 \<and>
   list_all (\<lambda>(_, seen). length seen \<le> 10) (registration_rate (oauth_run env steps))"
proof -
  have "\<forall>s \<in> in_play (oauth_run env steps). within_limits s"
    using world_ok_run [of env steps] by (simp add: world_ok_def state_ok_def)
  then show ?thesis
    using rate_ok_run [of env steps]
    by (auto simp: list_all_iff in_play_def within_limits_def rate_ok_def tokens_of_def oauth_limits)
qed

subsection \<open>Memory and disk\<close>

definition core :: "oauth_world \<Rightarrow> oauth_state \<times> oauth_state option list \<times> bool" where
  "core w = (state w, disk w, durability_degraded w)"

text \<open>While durable, one file: the live state, or what the process was started from when nothing has been saved since. While degraded, the live state is the newest file.\<close>

fun core_ok :: "oauth_state \<times> oauth_state option list \<times> bool \<Rightarrow> bool" where
  "core_ok (s, files, degraded) \<longleftrightarrow>
     (if degraded then \<exists>older. files = Some s # older
      else \<exists>f. files = [f] \<and> (f = Some s \<or> (\<exists>clk syncs w. oauth_start clk syncs f = Inr w \<and> state w = s)))"

lemma core_ensure: "core_ok (core w) \<Longrightarrow> core_ok (core (snd (ensure_durable ok w)))"
  by (cases rule: ensure_durable_cases [of ok w]) (auto simp: core_def)

lemma core_commit: "core_ok (core w) \<Longrightarrow> core_ok (core (snd (commit_state io nxt w)))"
  using core_ensure [of w "io_sync_commit io"]
  by (cases rule: commit_cases [of io nxt w]) (auto simp: core_def)

lemma core_frame [simp]:
  "core (deactivate_lifecycle c w) = core w" "core (deactivate_principal_lifecycles cs w) = core w"
  "core (remove_principal_lifecycles cs w) = core w" "core (insert_lifecycle c w) = core w" "core (end_sign_in f w) = core w"
  "core (prolong_sign_in f t w) = core w" "core (enter_sign_in r w) = core w"
proof -
  show d: "core (deactivate_lifecycle c w) = core w" for c w by (simp add: deactivate_lifecycle_def core_def split: option.splits)
  show "core (deactivate_principal_lifecycles cs w) = core w"
    unfolding deactivate_principal_lifecycles_def by (induction cs arbitrary: w) (simp_all add: d)
qed (simp_all add: core_def remove_principal_lifecycles_def insert_lifecycle_def end_sign_in_def prolong_sign_in_def enter_sign_in_def
    split: option.splits)

lemma core_commit_eq: "commit_state io nxt w = (r, w1) \<Longrightarrow> core_ok (core w) \<Longrightarrow> core_ok (core w1)"
  using core_commit [of w io nxt] by simp

lemma core_exec:
  assumes ok: "core_ok (core w)"
  shows "core_ok (core (oauth_exec env step w))"
proof -
  have c: "core_ok (core (snd (commit_state io nxt w')))" if "core w' = core w" for io nxt w'
    using core_commit [of w'] ok that by simp
  have e: "core_ok (core w1)" if "commit_state io nxt w' = (r, w1)" "core w' = core w" for io nxt w' r w1
    using core_commit_eq [OF that(1)] ok that(2) by simp
  note defs = create_owner_bootstrap_locked_def start_owner_registration_locked_def finish_owner_registration_locked_def
    start_owner_approval_locked_def finish_owner_approval_locked_def deny_consent_locked_def remove_owner_credential_locked_def
    exchange_code_locked_def
  show ?thesis
  proof (cases step)
    case (Restart clk syncs i)
    have "core_ok (core w')" if "oauth_start clk syncs f = Inr w'" for f w'
    proof -
      have "\<not> durability_degraded w'" using that by (auto simp: oauth_start_def Let_def split: if_splits sum.splits)
      then show ?thesis using that start_world(2) [OF that] by (auto simp: core_def)
    qed
    then show ?thesis using ok by (auto simp: Restart split: sum.splits)
  next
    case (ExchangeRefresh io clk a r k t res)
    then show ?thesis
      using ok c e
      by (auto simp: exchange_refresh_locked_def reuse_refresh_token_def Let_def case_prod_beta split: option.splits sum.splits prod.splits)
  next
    case (ValidateToken clk t sc res)
    then show ?thesis using ok by (auto simp: validate_token_locked_def Let_def split: option.splits)
  next
    case (CheckRate now key)
    then show ?thesis using ok by (auto simp: check_registration_rate_def Let_def core_def)
  qed (use ok c core_ensure in \<open>auto simp: defs register_client_locked_def ensure_client_store_def begin_authorization_locked_def
      revoke_client_locked_def Let_def case_prod_beta split: option.splits sum.splits bool.splits\<close>)
qed

lemma core_run: "core_ok (core (oauth_run env steps))"
proof (induction steps rule: rev_induct)
  case Nil
  have "oauth_start (\<lambda>_. 0) [True] None = Inr oauth_new"
    by (simp add: oauth_start_def sync_parent_dir_with_retry_def PARENT_DIR_SYNC_ATTEMPTS_def load_persisted_state_def
        prune_consumed_refresh_tokens_def oauth_state_default_def oauth_new_def hretain_def enumerate_eq_zip)
  then have "\<exists>clk syncs w. oauth_start clk syncs None = Inr w \<and> state w = state oauth_new" by blast
  then show ?case by (simp add: oauth_run_def core_def oauth_new_def)
next
  case (snoc step steps)
  then show ?case by (simp add: oauth_run_snoc core_exec)
qed


subsection \<open>Spent refresh tokens\<close>



end
