(* ===== verification/Ipc_Frames.thy ===== *)
theory Ipc_Frames
  imports Json
begin

unbundle bit_operations_syntax

section \<open>Frames of the local socket (\<open>ipc.rs\<close>, \<open>daemon/framing.rs\<close>, \<open>ipc_proxy.rs\<close>)\<close>

text \<open>
  A connector and the daemon exchange frames: four bytes of length, most significant first, and a payload. A response
  that does not fit in one frame goes out as numbered chunks and is put together by the reader. This theory has the
  bytes: writing and reading a frame, the reader task that keeps a half-read frame safe from a cancelled wait, and the
  chunked responses. The JSON of a message and Base64 are an argument, \<open>ipc_codec\<close>, with its laws in \<open>codec_ok\<close>.
\<close>

type_synonym bytes = "u8 list"

definition MAX_FRAME_SIZE :: nat where
  "MAX_FRAME_SIZE = 4 * 1024 * 1024"

definition RESPONSE_CHUNK_BYTES :: nat where
  "RESPONSE_CHUNK_BYTES = 512 * 1024"

definition write_u32 :: "u32 \<Rightarrow> bytes" where
  "write_u32 w = [ucast (drop_bit 24 w), ucast (drop_bit 16 w), ucast (drop_bit 8 w), ucast w]"

definition read_u32 :: "bytes \<Rightarrow> u32" where
  "read_u32 bs = push_bit 24 (ucast (bs ! 0)) OR push_bit 16 (ucast (bs ! 1)) OR push_bit 8 (ucast (bs ! 2)) OR ucast (bs ! 3)"

text \<open>\<open>None\<close> is the refusal of a payload that is too large; nothing is written then.\<close>

definition write_frame :: "bytes \<Rightarrow> bytes option" where
  "write_frame payload =
     (if MAX_FRAME_SIZE < length payload then None
      else Some (write_u32 (of_nat (length payload)) @ payload))"

datatype read_error = FrameTooLarge u32 | UnexpectedEof

type_synonym frame_result = "read_error + bytes option"

text \<open>
  \<open>read_frame eof s\<close> is the read of one frame from the bytes \<open>s\<close> that have arrived, with the result and the bytes it leaves;
  \<open>None\<close> is a read that has to wait for more. An end of the stream within the length counts as the end of the connection.
\<close>

definition read_frame :: "bool \<Rightarrow> bytes \<Rightarrow> (frame_result \<times> bytes) option" where
  "read_frame eof s =
     (if length s < 4 then (if eof then Some (Inr None, []) else None)
      else let len = read_u32 (take 4 s)
           in if MAX_FRAME_SIZE < unat len then Some (Inl (FrameTooLarge len), drop 4 s)
              else if length (drop 4 s) < unat len then (if eof then Some (Inl UnexpectedEof, []) else None)
              else Some (Inr (Some (take (unat len) (drop 4 s))), drop (unat len) (drop 4 s)))"

lemma length_write_u32 [simp]: "length (write_u32 w) = 4"
  by (simp add: write_u32_def)

lemma read_write_u32 [simp]: "read_u32 (write_u32 w) = w"
proof (rule bit_word_eqI)
  fix n assume n: "n < LENGTH(32)"
  have "n < 8 \<or> 8 \<le> n \<and> n < 16 \<or> 16 \<le> n \<and> n < 24 \<or> 24 \<le> n" by linarith
  with n show "bit (read_u32 (write_u32 w)) n = bit w n"
    by (elim disjE) (simp_all add: read_u32_def write_u32_def bit_simps less_diff_conv2)
qed

lemma write_frame_Some: "write_frame p = Some bs \<Longrightarrow> bs = write_u32 (of_nat (length p)) @ p \<and> length p \<le> MAX_FRAME_SIZE"
  by (auto simp: write_frame_def split: if_splits)

lemma unat_frame_length: "n \<le> MAX_FRAME_SIZE \<Longrightarrow> unat (of_nat n :: u32) = n"
  by (simp add: MAX_FRAME_SIZE_def unat_of_nat take_bit_nat_eq_self)

lemma read_written_frame:
  assumes "write_frame p = Some bs"
  shows "read_frame eof (bs @ rest) = Some (Inr (Some p), rest)"
  using write_frame_Some [OF assms] by (simp add: read_frame_def unat_frame_length Let_def)

lemma write_read_u32: "length bs = 4 \<Longrightarrow> write_u32 (read_u32 bs) = bs"
proof -
  assume "length bs = 4"
  then obtain a b c d where bs: "bs = [a, b, c, d]"
    by (auto simp: eval_nat_numeral length_Suc_conv)
  show ?thesis
    unfolding bs write_u32_def read_u32_def
    by (simp; intro conjI; rule bit_word_eqI; simp add: bit_simps; auto dest: bit_imp_le_length)
qed

lemma read_frame_SomeD:
  assumes "read_frame eof s = Some (Inr (Some p), rest)"
  shows "write_frame p = Some (take (4 + length p) s) \<and> s = take (4 + length p) s @ rest"
proof -
  from assms have len: "4 \<le> length s" and p: "p = take (unat (read_u32 (take 4 s))) (drop 4 s)"
    and rest: "rest = drop (unat (read_u32 (take 4 s))) (drop 4 s)"
    and le: "unat (read_u32 (take 4 s)) \<le> MAX_FRAME_SIZE" "unat (read_u32 (take 4 s)) \<le> length (drop 4 s)"
    by (auto simp: read_frame_def Let_def split: if_splits)
  have lp: "length p = unat (read_u32 (take 4 s))" using p le(2) by simp
  then have "write_u32 (of_nat (length p)) = take 4 s" using write_read_u32 [of "take 4 s"] len by simp
  then have "write_frame p = Some (take (4 + length p) s)" using p le lp by (simp add: write_frame_def take_add)
  moreover have "rest = drop (4 + length p) s" using rest lp by (simp add: add.commute)
  ultimately show ?thesis by (simp only: append_take_drop_id)
qed

subsection \<open>The reader of a registered connection (\<open>framing.rs\<close>)\<close>

text \<open>
  While a registered connection waits for a frame it also waits for notifications, and whichever comes first drops the
  other wait. \<open>partial\<close> holds the bytes a read in progress has taken from the socket. Read directly, they are lost with the
  wait; a reader task keeps them, and hands over finished frames through a channel with room for one.
\<close>

record frame_reader =
  socket :: bytes
  at_eof :: bool
  partial :: bytes
  multiplexed :: bool
  in_send :: "frame_result option"
  channel :: "frame_result list"
  task_done :: bool

definition frame_reader_new :: frame_reader where
  "frame_reader_new = \<lparr>socket = [], at_eof = False, partial = [], multiplexed = False, in_send = None, channel = [], task_done = False\<rparr>"

definition ensure_multiplexed :: "frame_reader \<Rightarrow> frame_reader" where
  "ensure_multiplexed r = r \<lparr>multiplexed := True\<rparr>"

definition poll_read :: "frame_reader \<Rightarrow> frame_result option \<times> frame_reader" where
  "poll_read r =
     (case read_frame (at_eof r) (partial r @ socket r) of
        Some (result, rest) \<Rightarrow> (Some result, r \<lparr>partial := [], socket := rest\<rparr>)
      | None \<Rightarrow> (None, r \<lparr>partial := partial r @ socket r, socket := []\<rparr>))"

fun is_end :: "frame_result \<Rightarrow> bool" where
  "is_end (Inr (Some _)) = False"
| "is_end _ = True"

definition reader_task :: "frame_reader \<Rightarrow> frame_reader" where
  "reader_task r =
     (if \<not> multiplexed r \<or> task_done r then r
      else case in_send r of
        Some frame \<Rightarrow>
          if channel r = [] then r \<lparr>channel := [frame], in_send := None, task_done := is_end frame\<rparr> else r
      | None \<Rightarrow> (case poll_read r of (Some frame, r') \<Rightarrow> r' \<lparr>in_send := Some frame\<rparr> | (None, r') \<Rightarrow> r'))"

definition next_frame :: "frame_reader \<Rightarrow> frame_result option \<times> frame_reader" where
  "next_frame r =
     (if multiplexed r
      then (case channel r of
              frame # rest \<Rightarrow> (Some frame, r \<lparr>channel := rest\<rparr>)
            | [] \<Rightarrow> (if task_done r then Some (Inr None) else None, r))
      else poll_read r)"

definition drop_next :: "frame_reader \<Rightarrow> frame_reader" where
  "drop_next r = (if multiplexed r then r else r \<lparr>partial := []\<rparr>)"

datatype reader_event = Arrive bytes | HangUp | TaskRuns | NextPolled | NextDropped

fun exec_reader :: "reader_event \<Rightarrow> frame_reader \<times> frame_result list \<Rightarrow> frame_reader \<times> frame_result list" where
  "exec_reader (Arrive bs) (r, log) = (if at_eof r then r else r \<lparr>socket := socket r @ bs\<rparr>, log)"
| "exec_reader HangUp (r, log) = (r \<lparr>at_eof := True\<rparr>, log)"
| "exec_reader TaskRuns (r, log) = (reader_task r, log)"
| "exec_reader NextPolled (r, log) = (case next_frame r of (Some f, r') \<Rightarrow> (r', log @ [f]) | (None, r') \<Rightarrow> (r', log))"
| "exec_reader NextDropped (r, log) = (drop_next r, log)"

subsubsection \<open>Nothing is lost\<close>

definition frame_bytes :: "bytes \<Rightarrow> bytes" where
  "frame_bytes p = write_u32 (of_nat (length p)) @ p"

definition frames_ok :: "bytes list \<Rightarrow> bool" where
  "frames_ok ps \<longleftrightarrow> list_all (\<lambda>p. length p \<le> MAX_FRAME_SIZE) ps"

abbreviation whole :: "bytes \<Rightarrow> frame_result" where
  "whole p \<equiv> Inr (Some p)"

lemma write_frame_bytes: "length p \<le> MAX_FRAME_SIZE \<Longrightarrow> write_frame p = Some (frame_bytes p)"
  by (simp add: write_frame_def frame_bytes_def)

lemma frame_bytes_unique:
  assumes "length p \<le> MAX_FRAME_SIZE" "length q \<le> MAX_FRAME_SIZE" "frame_bytes p @ r = frame_bytes q @ s"
  shows "p = q \<and> r = s"
proof -
  have "Some (whole p, r) = read_frame False (frame_bytes p @ r)"
    by (rule read_written_frame [OF write_frame_bytes [OF assms(1)], symmetric])
  also have "\<dots> = Some (whole q, s)"
    unfolding assms(3) by (rule read_written_frame [OF write_frame_bytes [OF assms(2)]])
  finally show ?thesis by simp
qed

lemma frames_unique_prefix:
  assumes "frames_ok ps" "frames_ok qs" "concat (map frame_bytes ps) @ r = concat (map frame_bytes qs)"
  shows "\<exists>us. qs = ps @ us \<and> r = concat (map frame_bytes us)"
  using assms
proof (induction ps arbitrary: qs)
  case (Cons p ps)
  then obtain q qs' where q: "qs = q # qs'" by (cases qs) (auto simp: frame_bytes_def write_u32_def)
  with Cons.prems have eq: "frame_bytes p @ concat (map frame_bytes ps) @ r = frame_bytes q @ concat (map frame_bytes qs')" by simp
  have "p = q \<and> concat (map frame_bytes ps) @ r = concat (map frame_bytes qs')"
    by (rule frame_bytes_unique [OF _ _ eq]) (use Cons.prems q in \<open>simp_all add: frames_ok_def\<close>)
  then show ?case using Cons.IH [of qs'] Cons.prems q by (auto simp: frames_ok_def)
qed simp

text \<open>
  The invariant: the bytes that have arrived are the frames handed out so far, those on their way, and what is left to read;
  after the end only ends follow.
\<close>

definition on_the_way :: "frame_reader \<Rightarrow> frame_result list" where
  "on_the_way r = channel r @ (case in_send r of Some f \<Rightarrow> [f] | None \<Rightarrow> [])"

definition ends_well :: "frame_reader \<Rightarrow> bytes \<Rightarrow> bool" where
  "ends_well r rest \<longleftrightarrow> at_eof r \<or> (\<exists>len rest'. rest = write_u32 len @ rest' \<and> MAX_FRAME_SIZE < unat len)"

definition reader_inv :: "bytes \<Rightarrow> frame_reader \<times> frame_result list \<Rightarrow> bool" where
  "reader_inv arrived = (\<lambda>(r, log). multiplexed r \<and> (task_done r \<longrightarrow> in_send r = None) \<and>
     (\<exists>fs rest. frames_ok fs \<and> arrived = concat (map frame_bytes fs) @ rest \<and>
        (if task_done r \<or> (\<exists>f. in_send r = Some f \<and> is_end f)
         then ends_well r rest \<and> (\<exists>e k. is_end e \<and> log @ on_the_way r = map whole fs @ e # replicate k (Inr None))
         else log @ on_the_way r = map whole fs \<and> rest = partial r @ socket r)))"

lemma ends_well_append: "ends_well r rest \<Longrightarrow> ends_well (r \<lparr>socket := s\<rparr>) (rest @ bs)"
  by (auto simp: ends_well_def)

lemma read_frame_end:
  assumes "read_frame eof s = Some (e, rest)" "is_end e" "\<not> eof"
  shows "\<exists>len rest'. s = write_u32 len @ rest' \<and> MAX_FRAME_SIZE < unat len"
proof -
  from assms have "4 \<le> length s" "MAX_FRAME_SIZE < unat (read_u32 (take 4 s))"
    by (auto simp: read_frame_def Let_def split: if_splits)
  moreover then have "s = write_u32 (read_u32 (take 4 s)) @ drop 4 s" by (simp add: write_read_u32)
  ultimately show ?thesis by blast
qed

lemma poll_read_cases:
  assumes "poll_read r = (out, r')"
  shows "at_eof r' = at_eof r \<and> multiplexed r' = multiplexed r \<and> channel r' = channel r \<and> in_send r' = in_send r \<and> task_done r' = task_done r \<and>
    (case out of
       None \<Rightarrow> partial r' @ socket r' = partial r @ socket r
     | Some (Inr (Some p)) \<Rightarrow> length p \<le> MAX_FRAME_SIZE \<and> partial r @ socket r = frame_bytes p @ partial r' @ socket r'
     | _ \<Rightarrow> ends_well r (partial r @ socket r))"
proof (cases "read_frame (at_eof r) (partial r @ socket r)")
  case None
  then show ?thesis using assms by (auto simp: poll_read_def)
next
  case (Some a)
  then obtain res rest where a: "read_frame (at_eof r) (partial r @ socket r) = Some (res, rest)" by (cases a) auto
  then have r': "out = Some res" "r' = r \<lparr>partial := [], socket := rest\<rparr>" using assms by (auto simp: poll_read_def)
  show ?thesis
  proof (cases "\<exists>p. res = whole p")
    case True
    then obtain p where p: "res = whole p" by blast
    have w: "write_frame p = Some (take (4 + length p) (partial r @ socket r))"
      and eq: "partial r @ socket r = take (4 + length p) (partial r @ socket r) @ rest"
      using read_frame_SomeD a p by blast+
    have "length p \<le> MAX_FRAME_SIZE" "take (4 + length p) (partial r @ socket r) = frame_bytes p"
      using write_frame_Some [OF w] by (auto simp: frame_bytes_def)
    then show ?thesis using eq r' p by simp
  next
    case False
    then have "is_end res" by (metis is_end.elims(3))
    then have "ends_well r (partial r @ socket r)" using read_frame_end [OF a] by (auto simp: ends_well_def)
    then show ?thesis using r' False by (auto split: sum.split option.split)
  qed
qed

lemma reader_inv_arrive:
  assumes "reader_inv arrived (r, log)"
  shows "reader_inv (arrived @ bs) (r \<lparr>socket := socket r @ bs\<rparr>, log)"
proof -
  from assms obtain fs rest where "frames_ok fs" "arrived = concat (map frame_bytes fs) @ rest"
    "if task_done r \<or> (\<exists>f. in_send r = Some f \<and> is_end f)
     then ends_well r rest \<and> (\<exists>e k. is_end e \<and> log @ on_the_way r = map whole fs @ e # replicate k (Inr None))
     else log @ on_the_way r = map whole fs \<and> rest = partial r @ socket r" "multiplexed r" "task_done r \<longrightarrow> in_send r = None"
    by (auto simp: reader_inv_def)
  then show ?thesis
    unfolding reader_inv_def case_prod_conv
    by (intro conjI exI [of _ fs] exI [of _ "rest @ bs"]) (auto simp: on_the_way_def ends_well_append split: if_splits)
qed

lemma reader_inv_task:
  assumes "reader_inv arrived (r, log)"
  shows "reader_inv arrived (reader_task r, log)"
proof (cases "task_done r")
  case True
  then show ?thesis using assms by (simp add: reader_task_def)
next
  case nd: False
  from assms have mx: "multiplexed r" by (simp add: reader_inv_def)
  show ?thesis
  proof (cases "in_send r")
    case (Some f)
    have "ends_well (reader_task r) rest = ends_well r rest" for rest
      using Some nd mx by (simp add: reader_task_def ends_well_def)
    then show ?thesis using assms nd mx Some
      by (auto simp: reader_inv_def) (auto simp: reader_task_def on_the_way_def split: if_splits)
  next
    case None
    obtain out r' where p: "poll_read r = (out, r')" by fastforce
    note pc = poll_read_cases [OF p]
    from assms None nd obtain fs where fs: "frames_ok fs" "log @ on_the_way r = map whole fs"
      "arrived = concat (map frame_bytes fs) @ partial r @ socket r"
      by (auto simp: reader_inv_def)
    consider "out = None" | q where "out = Some (whole q)" | e where "out = Some e" "is_end e"
      by (metis is_end.elims(3) not_Some_eq)
    then show ?thesis
    proof cases
      case 1
      then show ?thesis using pc p fs None nd mx
        unfolding reader_inv_def case_prod_conv
        by (intro conjI exI [of _ fs] exI [of _ "partial r' @ socket r'"]) (auto simp: reader_task_def on_the_way_def)
    next
      case 2
      then show ?thesis using pc p fs None nd mx
        unfolding reader_inv_def case_prod_conv
        by (intro conjI exI [of _ "fs @ [q]"] exI [of _ "partial r' @ socket r'"])
          (auto simp: reader_task_def on_the_way_def frames_ok_def)
    next
      case 3
      have "log @ on_the_way (reader_task r) = map whole fs @ [e]"
        using 3 pc p fs None nd mx by (simp add: reader_task_def on_the_way_def)
      then show ?thesis using 3 pc p fs None nd mx
        unfolding reader_inv_def case_prod_conv
        by (intro conjI exI [of _ fs] exI [of _ "partial r @ socket r"])
          (auto simp: reader_task_def ends_well_def split: sum.splits option.splits elim: is_end.elims intro!: exI [of _ e] exI [of _ 0])
    qed
  qed
qed

lemma reader_inv_shift:
  assumes "reader_inv arrived (r, log)" "log' @ on_the_way r' = log @ on_the_way r" "multiplexed r'" "in_send r' = in_send r"
    "task_done r' = task_done r" "partial r' = partial r" "socket r' = socket r" "at_eof r \<longrightarrow> at_eof r'"
  shows "reader_inv arrived (r', log')"
proof -
  have "ends_well r rest \<longrightarrow> ends_well r' rest" for rest using assms(8) by (auto simp: ends_well_def)
  then show ?thesis using assms(1-7) unfolding reader_inv_def case_prod_conv
    by (elim conjE exE, intro conjI exI) (auto split: if_splits)
qed

lemma reader_inv_next:
  assumes "reader_inv arrived (r, log)"
  shows "reader_inv arrived (exec_reader NextPolled (r, log))"
proof -
  from assms have mx: "multiplexed r" and td: "task_done r \<Longrightarrow> in_send r = None" by (simp_all add: reader_inv_def)
  show ?thesis
  proof (cases "channel r")
    case (Cons f cs)
    then have "exec_reader NextPolled (r, log) = (r \<lparr>channel := cs\<rparr>, log @ [f])" using mx by (simp add: next_frame_def)
    then show ?thesis using reader_inv_shift [OF assms] Cons mx by (simp add: on_the_way_def)
  next
    case Nil
    show ?thesis
    proof (cases "task_done r")
      case False
      then show ?thesis using assms mx Nil by (simp add: next_frame_def)
    next
      case True
      with assms Nil td obtain fs rest e k where i: "frames_ok fs" "arrived = concat (map frame_bytes fs) @ rest" "is_end e" "ends_well r rest"
        "log = map whole fs @ e # replicate k (Inr None)"
        by (auto simp: reader_inv_def on_the_way_def)
      then have "log @ [Inr None] = map whole fs @ e # replicate (Suc k) (Inr None)" by (simp add: replicate_append_same)
      moreover have "exec_reader NextPolled (r, log) = (r, log @ [Inr None])" using mx Nil True by (simp add: next_frame_def)
      ultimately show ?thesis using i(1-4) mx True td [OF True] Nil
        by (simp only: reader_inv_def case_prod_conv on_the_way_def simp_thms if_True append_Nil2 option.case) blast
    qed
  qed
qed

fun arrives :: "reader_event \<Rightarrow> bytes" where
  "arrives (Arrive bs) = bs"
| "arrives _ = []"

lemma reader_inv_exec:
  assumes "reader_inv arrived s"
  shows "reader_inv (arrived @ (if at_eof (fst s) then [] else arrives ev)) (exec_reader ev s)"
proof (cases s)
  case (Pair r log)
  with assms show ?thesis
  proof (cases ev)
    case HangUp
    then show ?thesis using assms reader_inv_shift [of arrived r log log "r \<lparr>at_eof := True\<rparr>"] Pair
      by (simp add: reader_inv_def on_the_way_def)
  next
    case NextDropped
    then show ?thesis using assms Pair by (simp add: drop_next_def reader_inv_def)
  qed (use reader_inv_arrive reader_inv_task reader_inv_next in \<open>auto simp del: exec_reader.simps(4)\<close>)
qed

lemma poll_read_at_eof [simp]: "at_eof (snd (poll_read r)) = at_eof r"
  by (auto simp: poll_read_def split: option.splits)

lemma poll_read_at_eof': "poll_read r = (out, r') \<Longrightarrow> at_eof r' = at_eof r"
  using poll_read_at_eof [of r] by simp

lemma exec_at_eof: "at_eof (fst (exec_reader ev s)) \<longleftrightarrow> at_eof (fst s) \<or> ev = HangUp"
proof (cases s)
  case (Pair r log)
  have "at_eof (snd (next_frame r)) = at_eof r" "at_eof (reader_task r) = at_eof r"
    by (auto simp: next_frame_def reader_task_def dest: poll_read_at_eof' split: list.split option.split prod.split)
  then show ?thesis using Pair by (cases ev) (auto simp: drop_next_def split: prod.splits option.splits)
qed

definition received :: "reader_event list \<Rightarrow> bytes" where
  "received evs = concat (map arrives (takeWhile (\<lambda>ev. ev \<noteq> HangUp) evs))"

lemma reader_run:
  "reader_inv arrived s \<Longrightarrow> reader_inv (arrived @ (if at_eof (fst s) then [] else received evs)) (fold exec_reader evs s)"
proof (induction evs arbitrary: arrived s)
  case (Cons ev evs)
  show ?case using Cons.IH [OF reader_inv_exec [OF Cons.prems], of ev] exec_at_eof [of ev s]
    by (auto simp: received_def split: if_splits)
qed (simp add: received_def)

lemma takeWhile_append_prefix: "\<exists>vs. takeWhile P (xs @ ys) = takeWhile P xs @ vs"
  by (induction xs) auto

lemma takeWhile_frames: "is_end e \<Longrightarrow> takeWhile (\<lambda>f. \<not> is_end f) (map whole fs @ e # es) = map whole fs"
  by (induction fs) auto

lemma takeWhile_all_frames: "takeWhile (\<lambda>f. \<not> is_end f) (map whole fs) = map whole fs"
  by (induction fs) auto

lemma idle_reader_done:
  assumes "\<not> at_eof r" "reader_task r = r" "channel r = []" "multiplexed r" "frames_ok us" "tail = concat (map frame_bytes us)"
    "task_done r \<longrightarrow> in_send r = None"
    and alt: "if task_done r \<or> (\<exists>f. in_send r = Some f \<and> is_end f)
      then ends_well r tail \<and> (\<exists>e k. is_end e \<and> log @ on_the_way r = map whole fs @ e # replicate k (Inr None))
      else log @ on_the_way r = map whole fs \<and> tail = partial r @ socket r"
  shows "log = map whole fs \<and> us = []"
proof -
  have "\<not> ends_well r tail"
  proof
    assume "ends_well r tail"
    then obtain len rest' where l: "concat (map frame_bytes us) = write_u32 len @ rest'" "MAX_FRAME_SIZE < unat len"
      using assms(1,6) by (auto simp: ends_well_def)
    then obtain u us' where u: "us = u # us'" by (cases us) (auto simp: write_u32_def)
    then have "write_u32 (of_nat (length u)) = write_u32 len" using l(1) by (simp add: frame_bytes_def)
    then have "len = of_nat (length u)" by (metis read_write_u32)
    then show False using l(2) u assms(5) by (simp add: frames_ok_def unat_frame_length)
  qed
  with alt have nd: "\<not> task_done r" "log @ on_the_way r = map whole fs" "tail = partial r @ socket r" by (auto split: if_splits)
  have ns: "in_send r = None"
  proof (rule ccontr)
    assume "in_send r \<noteq> None"
    then have "channel (reader_task r) \<noteq> []" using nd(1) assms(3,4) by (auto simp: reader_task_def)
    then show False using assms(2,3) by simp
  qed
  have "us = []"
  proof (rule ccontr)
    assume "us \<noteq> []"
    then obtain u us' where u: "us = u # us'" by (cases us) auto
    have "length u \<le> MAX_FRAME_SIZE" using u assms(5) by (simp add: frames_ok_def)
    then have "read_frame (at_eof r) (partial r @ socket r) = Some (whole u, concat (map frame_bytes us'))"
      using read_written_frame [OF write_frame_bytes] u assms(6) nd(3) by (metis concat.simps(2) list.simps(9))
    then have "in_send (reader_task r) \<noteq> None" using nd(1) ns assms(4) by (simp add: reader_task_def poll_read_def)
    then show False using assms(2) ns by simp
  qed
  then show ?thesis using nd(2) ns assms(3) by (simp add: on_the_way_def)
qed

text \<open>
  C27. The connection loop gets exactly the frames its peer wrote, in their order, however often a notification cuts its wait
  short, how the bytes are split up on the way and how the reader task is scheduled. What it has got is always the beginning of what was written;
  it is all of it as soon as everything has arrived, the reader task finds nothing more to do and nothing waits in the channel.
\<close>

theorem multiplexed_reader_exact:
  assumes ok: "frames_ok ps" and run: "(r, log) = fold exec_reader evs (ensure_multiplexed frame_reader_new, [])"
    and sent: "concat (map frame_bytes ps) = received evs @ rest"
  shows "(\<exists>us. ps = map (the \<circ> projr) (takeWhile (\<lambda>f. \<not> is_end f) log) @ us) \<and>
    (rest = [] \<and> \<not> at_eof r \<and> reader_task r = r \<and> channel r = [] \<longrightarrow> log = map whole ps)"
proof -
  have "reader_inv [] (ensure_multiplexed frame_reader_new, [])"
    by (simp add: reader_inv_def ensure_multiplexed_def frame_reader_new_def on_the_way_def frames_ok_def)
  from reader_run [OF this, of evs] have inv: "reader_inv (received evs) (r, log)"
    by (simp add: run [symmetric]) (simp add: ensure_multiplexed_def frame_reader_new_def)
  then obtain fs tail where fs: "frames_ok fs" "received evs = concat (map frame_bytes fs) @ tail"
    and alt: "if task_done r \<or> (\<exists>f. in_send r = Some f \<and> is_end f)
      then ends_well r tail \<and> (\<exists>e k. is_end e \<and> log @ on_the_way r = map whole fs @ e # replicate k (Inr None))
      else log @ on_the_way r = map whole fs \<and> tail = partial r @ socket r" and mx: "multiplexed r"
    and td: "task_done r \<longrightarrow> in_send r = None"
    by (auto simp: reader_inv_def)
  obtain us where us: "ps = fs @ us" "tail @ rest = concat (map frame_bytes us)"
    using frames_unique_prefix [OF fs(1) ok, of "tail @ rest"] fs(2) sent by auto
  have tw: "takeWhile (\<lambda>f. \<not> is_end f) (log @ on_the_way r) = map whole fs"
    using alt takeWhile_frames takeWhile_all_frames by (auto split: if_splits)
  obtain vs where "map whole fs = takeWhile (\<lambda>f. \<not> is_end f) log @ vs"
    using tw takeWhile_append_prefix by metis
  then have "map (the \<circ> projr) (map whole fs) = map (the \<circ> projr) (takeWhile (\<lambda>f. \<not> is_end f) log) @ map (the \<circ> projr) vs" by simp
  then have "ps = map (the \<circ> projr) (takeWhile (\<lambda>f. \<not> is_end f) log) @ map (the \<circ> projr) vs @ us" using us(1) by (simp add: comp_def)
  moreover have "log = map whole ps" if q: "rest = []" "\<not> at_eof r" "reader_task r = r" "channel r = []"
    using idle_reader_done [OF q(2-4) mx _ _ td alt, of us] us q(1) ok by (simp add: frames_ok_def)
  ultimately show ?thesis by blast
qed

text \<open>Two frames arrive in three pieces, and a notification cuts the wait short in the middle of the first.\<close>

definition two_frames :: "reader_event list" where
  "two_frames = [Arrive [0, 0, 0, 2, 7], TaskRuns, NextPolled, NextDropped, Arrive [8, 0, 0], TaskRuns, TaskRuns, NextPolled,
     Arrive [0, 1, 9], TaskRuns, TaskRuns, NextPolled]"

lemmas reader_defs = frame_reader_new_def ensure_multiplexed_def two_frames_def reader_task_def poll_read_def next_frame_def drop_next_def
  read_frame_def MAX_FRAME_SIZE_def Let_def

lemma read_u32_demo: "read_u32 [0, 0, 0, 2] = 2" "read_u32 [0, 0, 0, 1] = 1" "write_u32 2 = [0, 0, 0, 2]" "write_u32 1 = [0, 0, 0, 1]"
  by (simp_all add: read_u32_def write_u32_def)

theorem multiplexed_reader_exact_witness:
  "snd (fold exec_reader two_frames (ensure_multiplexed frame_reader_new, [])) = [whole [7, 8], whole [9]]"
proof -
  define s where "s = fold exec_reader two_frames (ensure_multiplexed frame_reader_new, [])"
  have s: "\<not> at_eof (fst s) \<and> reader_task (fst s) = fst s \<and> channel (fst s) = []"
    unfolding s_def by (simp add: reader_defs read_u32_demo)
  have "concat (map frame_bytes [[7, 8], [9]]) = received two_frames @ []"
    by (simp add: frame_bytes_def read_u32_demo received_def two_frames_def)
  from multiplexed_reader_exact [OF _ _ this, of "fst s" "snd s"] s show ?thesis
    by (simp add: frames_ok_def MAX_FRAME_SIZE_def s_def)
qed

text \<open>Read directly, the same cut loses the bytes that were taken, and the next read takes the payload for a length.\<close>

lemma direct_read_desyncs:
  "snd (fold exec_reader [Arrive [0, 0, 0, 2, 7], NextPolled, NextDropped, Arrive [8, 0, 0, 0, 1, 9], NextPolled] (frame_reader_new, []))
   = [Inl (FrameTooLarge (read_u32 [8, 0, 0, 0]))]"
  by (simp add: reader_defs read_u32_demo) (simp add: read_u32_def)

end
