(* ===== verification/Ipc_Responses.thy ===== *)
theory Ipc_Responses
  imports Ipc_Frames
begin

section \<open>Responses in one frame or many (\<open>ipc.rs\<close>, \<open>ipc_proxy.rs\<close>)\<close>

text \<open>
  A response too large for a frame is cut into chunks, each sent as a message of its own. The connector tells messages from
  plain responses by their first bytes and puts the chunks together. JSON and Base64 are the argument \<open>ipc_codec\<close>: \<open>response_bytes\<close> is
  the serializer with the request's id beside the response's fields, \<open>ipc_id_of\<close> is \<open>FrameIds::peek\<close>.
\<close>

datatype ('r, 'q) daemon_message =
    Response 'r
  | ResponseChunk u32 u32 string
  | ReverseRequest u64 'q

record ('r, 'q) ipc_codec =
  response_bytes :: "u64 option \<Rightarrow> 'r \<Rightarrow> bytes"
  response_of :: "bytes \<Rightarrow> 'r option"
  ipc_id_of :: "bytes \<Rightarrow> u64 option"
  message_bytes :: "('r, 'q) daemon_message \<Rightarrow> bytes"
  message_of :: "bytes \<Rightarrow> ('r, 'q) daemon_message option"
  b64_encode :: "bytes \<Rightarrow> string"
  b64_decode :: "string \<Rightarrow> bytes option"

definition ENVELOPE_FRAME_PREFIX :: bytes where
  "ENVELOPE_FRAME_PREFIX = map of_char (''{'' @ [CHR 0x22] @ ''envelope'' @ [CHR 0x22] @ '':'')"

definition frame_starts_with :: "bytes \<Rightarrow> bytes \<Rightarrow> bool" where
  "frame_starts_with frame start \<longleftrightarrow> take (length start) frame = start"

text \<open>
  What the code relies on: the serializer and the parser agree, the id is read back, a message begins with its tag and a
  response does not, Base64 decodes what it encoded with four letters for three bytes, and around its text a chunk has a bounded number of bytes.
\<close>

definition codec_ok :: "('r, 'q) ipc_codec \<Rightarrow> bool" where
  "codec_ok c \<longleftrightarrow>
     (\<forall>i r. response_of c (response_bytes c i r) = Some r \<and> ipc_id_of c (response_bytes c i r) = i \<and>
        \<not> frame_starts_with (response_bytes c i r) ENVELOPE_FRAME_PREFIX) \<and>
     (\<forall>m. message_of c (message_bytes c m) = Some m \<and> frame_starts_with (message_bytes c m) ENVELOPE_FRAME_PREFIX) \<and>
     (\<forall>bs. b64_decode c (b64_encode c bs) = Some bs \<and> length (b64_encode c bs) \<le> 4 * (length bs div 3 + 1)) \<and>
     (\<forall>i n s. length (message_bytes c (ResponseChunk i n s)) \<le> length s + 256)"

subsection \<open>Writing\<close>

function chunks :: "nat \<Rightarrow> 'a list \<Rightarrow> 'a list list" where
  "chunks n xs = (if xs = [] \<or> n = 0 then [] else take n xs # chunks n (drop n xs))"
  by pat_completeness auto
termination by (relation "measure (\<lambda>(n, xs). length xs)") auto

declare chunks.simps [simp del]

definition div_ceil :: "nat \<Rightarrow> nat \<Rightarrow> nat" where
  "div_ceil a b = (a + b - 1) div b"

definition send_daemon_message :: "('r, 'q) ipc_codec \<Rightarrow> ('r, 'q) daemon_message \<Rightarrow> bytes option" where
  "send_daemon_message c m = write_frame (message_bytes c m)"

text \<open>The frames of a logical response; \<open>None\<close> when a frame was refused, which ends the connection.\<close>

fun send_chunks :: "('r, 'q) ipc_codec \<Rightarrow> u32 \<Rightarrow> nat \<Rightarrow> bytes list \<Rightarrow> bytes option" where
  "send_chunks c chunk_count index [] = Some []"
| "send_chunks c chunk_count index (chunk # rest) =
     (case send_daemon_message c (ResponseChunk (of_nat index) chunk_count (b64_encode c chunk)) of
        None \<Rightarrow> None
      | Some bs \<Rightarrow> map_option ((@) bs) (send_chunks c chunk_count (Suc index) rest))"

definition send_chunked_response_with_id :: "('r, 'q) ipc_codec \<Rightarrow> u64 option \<Rightarrow> 'r \<Rightarrow> bytes option" where
  "send_chunked_response_with_id c ipc_id response =
     (let payload = response_bytes c ipc_id response
      in if length payload \<le> MAX_FRAME_SIZE then write_frame payload
         else send_chunks c (of_nat (div_ceil (length payload) RESPONSE_CHUNK_BYTES)) 0 (chunks RESPONSE_CHUNK_BYTES payload))"

subsection \<open>Reading\<close>

record chunk_assembler =
  buffer :: bytes
  expected :: "u32 option"

definition assembler_default :: chunk_assembler where
  "assembler_default = \<lparr>buffer = [], expected = None\<rparr>"

datatype ('r, 'q) daemon_frame = Reply "u64 option" 'r | Reverse u64 'q

definition decode_reply :: "('r, 'q) ipc_codec \<Rightarrow> bytes \<Rightarrow> string \<Rightarrow> string + ('r, 'q) daemon_frame" where
  "decode_reply c bs what =
     (case response_of c bs of None \<Rightarrow> Inl what | Some response \<Rightarrow> Inr (Reply (ipc_id_of c bs) response))"

definition decode_daemon_frame ::
  "('r, 'q) ipc_codec \<Rightarrow> bytes \<Rightarrow> chunk_assembler \<Rightarrow> (string + ('r, 'q) daemon_frame option) \<times> chunk_assembler" where
  "decode_daemon_frame c frame asm =
     (if \<not> frame_starts_with frame ENVELOPE_FRAME_PREFIX
      then (map_sum id Some (decode_reply c frame ''invalid IPC response''), asm)
      else case message_of c frame of
        None \<Rightarrow> (Inl ''invalid envelope message'', asm)
      | Some (Response inner) \<Rightarrow> (Inr (Some (Reply None inner)), asm)
      | Some (ReverseRequest i request) \<Rightarrow> (Inr (Some (Reverse i request)), asm)
      | Some (ResponseChunk chunk_index chunk_count payload_b64) \<Rightarrow>
          if chunk_count = 0 then (Inl ''invalid response chunk count 0'', assembler_default)
          else if chunk_index \<noteq> 0 \<and> expected asm \<noteq> Some chunk_count
          then (Inl ''response chunk count changed mid-stream'', assembler_default)
          else
            (let asm1 = (if chunk_index = 0 then \<lparr>buffer = [], expected = Some chunk_count\<rparr> else asm)
             in case b64_decode c payload_b64 of
                  None \<Rightarrow> (Inl ''invalid chunk payload'', assembler_default)
                | Some decoded \<Rightarrow>
                    (let asm2 = asm1 \<lparr>buffer := buffer asm1 @ decoded\<rparr>
                     in if chunk_index + 1 \<noteq> chunk_count then (Inr None, asm2)
                        else (map_sum id Some (decode_reply c (buffer asm2) ''invalid chunked IPC response''), assembler_default))))"

text \<open>
  The reader's loop over the bytes that have arrived, up to the point where it waits for more; a chunk that is not the
  last gives nothing. A frame that is too large ends the loop.
\<close>

lemma read_frame_shorter: "read_frame eof s = Some (Inr (Some p), rest) \<Longrightarrow> length rest < length s"
  by (auto simp: read_frame_def Let_def split: if_splits)

function read_loop :: "('r, 'q) ipc_codec \<Rightarrow> chunk_assembler \<Rightarrow> bytes \<Rightarrow> (string + ('r, 'q) daemon_frame) list" where
  "read_loop c asm s =
     (case read_frame False s of
        Some (Inr (Some frame), rest) \<Rightarrow>
          (case decode_daemon_frame c frame asm of
             (Inl e, asm1) \<Rightarrow> Inl e # read_loop c asm1 rest
           | (Inr None, asm1) \<Rightarrow> read_loop c asm1 rest
           | (Inr (Some f), asm1) \<Rightarrow> Inr f # read_loop c asm1 rest)
      | Some (Inr None, _) \<Rightarrow> []
      | Some (Inl _, _) \<Rightarrow> [Inl ''IPC read failed'']
      | None \<Rightarrow> [])"
  by pat_completeness auto
termination by (relation "measure (\<lambda>(c, asm, s). length s)") (auto dest: read_frame_shorter)

declare read_loop.simps [simp del]

lemma read_loop_frame:
  assumes "length p \<le> MAX_FRAME_SIZE" "decode_daemon_frame c p asm = (out, asm1)"
  shows "read_loop c asm (frame_bytes p @ rest) =
    (case out of Inl e \<Rightarrow> Inl e # read_loop c asm1 rest | Inr None \<Rightarrow> read_loop c asm1 rest | Inr (Some f) \<Rightarrow> Inr f # read_loop c asm1 rest)"
  using read_written_frame [OF write_frame_bytes [OF assms(1)], of False rest] assms(2)
  by (subst read_loop.simps) (simp split: sum.split option.split)

subsection \<open>The reader gets what was written\<close>

lemma concat_chunks: "0 < n \<Longrightarrow> concat (chunks n xs) = xs"
proof (induction n xs rule: chunks.induct)
  case (1 n xs)
  then show ?case by (subst chunks.simps) auto
qed

lemma chunks_short: "ch \<in> set (chunks n xs) \<Longrightarrow> length ch \<le> n"
proof (induction n xs rule: chunks.induct)
  case (1 n xs)
  from 1(2) have "xs \<noteq> [] \<and> n \<noteq> 0 \<and> (ch = take n xs \<or> ch \<in> set (chunks n (drop n xs)))"
    by (subst (asm) chunks.simps) (auto split: if_splits)
  then show ?case using 1(1) by auto
qed

lemma length_chunks: "0 < n \<Longrightarrow> length (chunks n xs) = div_ceil (length xs) n"
proof (induction n xs rule: chunks.induct)
  case (1 n xs)
  show ?case
  proof (cases "xs = []")
    case True
    then show ?thesis using 1(2) by (subst chunks.simps) (simp add: div_ceil_def)
  next
    case False
    have "length (chunks n xs) = Suc (length (chunks n (drop n xs)))" using False 1(2) by (subst chunks.simps) simp
    also have "\<dots> = Suc (div_ceil (length xs - n) n)" using 1 False by simp
    also have "\<dots> = div_ceil (length xs) n"
    proof (cases "n \<le> length xs")
      case True
      then have "length xs + n - 1 = (length xs - n + n - 1) + n" using 1(2) by simp
      then have "(length xs + n - 1) div n = Suc ((length xs - n + n - 1) div n)" using 1(2) by (simp only: div_add_self2)
      then show ?thesis by (simp only: div_ceil_def)
    next
      case nle: False
      have "(length xs + n - 1) div n = 1"
        by (rule div_nat_eqI) (use nle False 1(2) in \<open>cases xs; simp\<close>)+
      moreover have "(length xs - n + n - 1) div n = 0" using nle 1(2) by simp
      ultimately show ?thesis by (simp add: div_ceil_def)
    qed
    finally show ?thesis .
  qed
qed

definition chunk_message :: "('r, 'q) ipc_codec \<Rightarrow> u32 \<Rightarrow> nat \<Rightarrow> bytes \<Rightarrow> bytes" where
  "chunk_message c n i chunk = message_bytes c (ResponseChunk (of_nat i) n (b64_encode c chunk))"

lemma chunk_message_fits:
  assumes "codec_ok c" "length chunk \<le> RESPONSE_CHUNK_BYTES"
  shows "length (chunk_message c n i chunk) \<le> MAX_FRAME_SIZE"
proof -
  have "length (chunk_message c n i chunk) \<le> length (b64_encode c chunk) + 256"
    using assms(1) by (simp add: codec_ok_def chunk_message_def)
  also have "\<dots> \<le> 4 * (length chunk div 3 + 1) + 256" using assms(1) by (simp add: codec_ok_def)
  also have "\<dots> \<le> 4 * (RESPONSE_CHUNK_BYTES div 3 + 1) + 256" using assms(2) by (simp add: div_le_mono)
  also have "\<dots> \<le> MAX_FRAME_SIZE" by (simp add: RESPONSE_CHUNK_BYTES_def MAX_FRAME_SIZE_def)
  finally show ?thesis .
qed

fun chunk_bytes :: "('r, 'q) ipc_codec \<Rightarrow> u32 \<Rightarrow> nat \<Rightarrow> bytes list \<Rightarrow> bytes" where
  "chunk_bytes c n i [] = []"
| "chunk_bytes c n i (chunk # rest) = frame_bytes (chunk_message c n i chunk) @ chunk_bytes c n (Suc i) rest"

lemma send_chunks_bytes:
  assumes "codec_ok c" "\<forall>ch \<in> set cs. length ch \<le> RESPONSE_CHUNK_BYTES"
  shows "send_chunks c n i cs = Some (chunk_bytes c n i cs)"
  using assms(2)
proof (induction cs arbitrary: i)
  case (Cons ch cs)
  then have "write_frame (chunk_message c n i ch) = Some (frame_bytes (chunk_message c n i ch))"
    by (intro write_frame_bytes chunk_message_fits [OF assms(1)]) simp
  then show ?case using Cons by (simp add: send_daemon_message_def chunk_message_def)
qed simp

lemma decode_chunk_message:
  assumes "codec_ok c" "n \<noteq> 0" "i < 2 ^ 32" "i = 0 \<or> expected asm = Some n"
  shows "decode_daemon_frame c (chunk_message c n i chunk) asm =
    (let whole_so_far = (if i = 0 then [] else buffer asm) @ chunk
     in if of_nat i + 1 \<noteq> n then (Inr None, \<lparr>buffer = whole_so_far, expected = Some n\<rparr>)
        else (map_sum id Some (decode_reply c whole_so_far ''invalid chunked IPC response''), assembler_default))"
proof -
  have "(of_nat i :: u32) = 0 \<longleftrightarrow> i = 0"
    using assms(3) by (auto simp: word_of_nat_eq_0_iff dest: dvd_imp_le)
  then show ?thesis using assms by (auto simp: decode_daemon_frame_def chunk_message_def codec_ok_def Let_def)
qed

lemma of_nat_u32_inject: "a < 2 ^ 32 \<Longrightarrow> b < 2 ^ 32 \<Longrightarrow> (of_nat a :: u32) = of_nat b \<longleftrightarrow> a = b"
  by (simp add: word_of_nat_eq_iff take_bit_nat_eq_self)

lemma read_chunks:
  assumes "codec_ok c" "cs \<noteq> []" "\<forall>ch \<in> set cs. length ch \<le> RESPONSE_CHUNK_BYTES" "i + length cs < 2 ^ 32"
    "n = of_nat (i + length cs)" "i = 0 \<or> expected asm = Some n"
  shows "read_loop c asm (chunk_bytes c n i cs @ rest) =
    decode_reply c ((if i = 0 then [] else buffer asm) @ concat cs) ''invalid chunked IPC response'' # read_loop c assembler_default rest"
  using assms(2-6)
proof (induction cs arbitrary: i asm)
  case (Cons ch cs)
  have n0: "n \<noteq> 0" using of_nat_u32_inject [of "i + length (ch # cs)" 0] Cons.prems(3,4) by simp
  have i: "i < 2 ^ 32" "Suc i < 2 ^ 32" using Cons.prems by simp_all
  have fits: "length (chunk_message c n i ch) \<le> MAX_FRAME_SIZE" using chunk_message_fits [OF assms(1)] Cons.prems by simp
  have last_iff: "of_nat i + 1 = n \<longleftrightarrow> cs = []"
    using of_nat_u32_inject [OF i(2), of "i + length (ch # cs)"] Cons.prems(3,4) by (auto simp: add.commute)
  show ?case
  proof (cases "cs = []")
    case True
    let ?r = "decode_reply c ((if i = 0 then [] else buffer asm) @ ch) ''invalid chunked IPC response''"
    have "decode_daemon_frame c (chunk_message c n i ch) asm = (map_sum id Some ?r, assembler_default)"
      using decode_chunk_message [OF assms(1) n0 i(1)] True last_iff Cons.prems by (simp add: Let_def)
    from read_loop_frame [OF fits this, of rest] show ?thesis using True by (cases ?r) simp_all
  next
    case False
    let ?asm = "\<lparr>buffer = (if i = 0 then [] else buffer asm) @ ch, expected = Some n\<rparr>"
    have "decode_daemon_frame c (chunk_message c n i ch) asm = (Inr None, ?asm)"
      using decode_chunk_message [OF assms(1) n0 i(1)] False last_iff Cons.prems by (simp add: Let_def)
    from read_loop_frame [OF fits this, of "chunk_bytes c n (Suc i) cs @ rest"]
    show ?thesis using Cons.IH [of "Suc i" ?asm] False Cons.prems by simp
  qed
qed simp

text \<open>What the daemon writes on a connection, in order.\<close>

datatype ('r, 'q) daemon_write = WriteResponse "u64 option" 'r | WriteReverse u64 'q

fun daemon_bytes :: "('r, 'q) ipc_codec \<Rightarrow> ('r, 'q) daemon_write \<Rightarrow> bytes option" where
  "daemon_bytes c (WriteResponse i r) = send_chunked_response_with_id c i r"
| "daemon_bytes c (WriteReverse i q) = send_daemon_message c (ReverseRequest i q)"

fun written :: "('r, 'q) ipc_codec \<Rightarrow> ('r, 'q) daemon_write list \<Rightarrow> bytes option" where
  "written c [] = Some []"
| "written c (w # ws) = (case daemon_bytes c w of None \<Rightarrow> None | Some bs \<Rightarrow> map_option ((@) bs) (written c ws))"

fun writable :: "('r, 'q) ipc_codec \<Rightarrow> ('r, 'q) daemon_write \<Rightarrow> bool" where
  "writable c (WriteResponse i r) \<longleftrightarrow> length (response_bytes c i r) < 2 ^ 50"
| "writable c (WriteReverse i q) \<longleftrightarrow> length (message_bytes c (ReverseRequest i q)) \<le> MAX_FRAME_SIZE"

fun meant :: "('r, 'q) daemon_write \<Rightarrow> ('r, 'q) daemon_frame" where
  "meant (WriteResponse i r) = Reply i r"
| "meant (WriteReverse i q) = Reverse i q"

lemma read_response:
  assumes "codec_ok c" "length (response_bytes c i r) < 2 ^ 50"
  shows "\<exists>bs asm'. send_chunked_response_with_id c i r = Some bs \<and>
    (\<forall>rest. read_loop c asm (bs @ rest) = Inr (Reply i r) # read_loop c asm' rest)"
proof (cases "length (response_bytes c i r) \<le> MAX_FRAME_SIZE")
  case True
  have "decode_daemon_frame c (response_bytes c i r) asm = (Inr (Some (Reply i r)), asm)"
    using assms(1) by (simp add: decode_daemon_frame_def decode_reply_def codec_ok_def)
  from read_loop_frame [OF True this] show ?thesis
    using True by (auto simp: send_chunked_response_with_id_def write_frame_bytes)
next
  case False
  let ?p = "response_bytes c i r"
  let ?cs = "chunks RESPONSE_CHUNK_BYTES ?p"
  have pos: "0 < RESPONSE_CHUNK_BYTES" by (simp add: RESPONSE_CHUNK_BYTES_def)
  have short: "\<forall>ch \<in> set ?cs. length ch \<le> RESPONSE_CHUNK_BYTES" using chunks_short by blast
  have "div_ceil (length ?p) RESPONSE_CHUNK_BYTES \<le> (2 ^ 50 + RESPONSE_CHUNK_BYTES) div RESPONSE_CHUNK_BYTES"
    unfolding div_ceil_def by (rule div_le_mono) (use assms(2) in linarith)
  also have "\<dots> < 2 ^ 32" by (simp add: RESPONSE_CHUNK_BYTES_def)
  finally have len: "length ?cs < 2 ^ 32" using length_chunks [OF pos, of ?p] by (simp only:)
  have ne: "?cs \<noteq> []" using concat_chunks [OF pos, of ?p] False by (auto simp: MAX_FRAME_SIZE_def)
  have "read_loop c asm (chunk_bytes c (of_nat (length ?cs)) 0 ?cs @ rest) =
      Inr (Reply i r) # read_loop c assembler_default rest" for rest
    using read_chunks [OF assms(1) ne short, of 0 _ asm rest] len concat_chunks [OF pos, of ?p] assms(1)
    by (simp add: decode_reply_def codec_ok_def)
  then show ?thesis
    using False send_chunks_bytes [OF assms(1) short] length_chunks [OF pos, of ?p]
    by (auto simp: send_chunked_response_with_id_def Let_def)
qed

text \<open>
  C13. What the daemon writes on a connection is what the connector reads: every response, whole or in chunks, with the id of
  its request, and every reverse request, in order and nothing else, also when the reader starts with the rest of an
  abandoned response. No frame of a chunked response is too large to be written.
\<close>

theorem responses_roundtrip:
  assumes "codec_ok c" "list_all (writable c) ws"
  shows "\<exists>bs. written c ws = Some bs \<and> read_loop c asm bs = map (Inr \<circ> meant) ws"
  using assms(2)
proof (induction ws arbitrary: asm)
  case Nil
  then show ?case by (subst read_loop.simps) (simp add: read_frame_def)
next
  case (Cons w ws)
  have "\<exists>bs asm'. daemon_bytes c w = Some bs \<and> (\<forall>rest. read_loop c asm (bs @ rest) = Inr (meant w) # read_loop c asm' rest)"
  proof (cases w)
    case (WriteResponse i r)
    then show ?thesis using read_response [OF assms(1), of i r asm] Cons.prems by simp
  next
    case (WriteReverse i q)
    have "decode_daemon_frame c (message_bytes c (ReverseRequest i q)) asm = (Inr (Some (Reverse i q)), asm)"
      using assms(1) by (simp add: decode_daemon_frame_def codec_ok_def)
    from read_loop_frame [OF _ this] show ?thesis
      using WriteReverse Cons.prems by (auto simp: send_daemon_message_def write_frame_bytes)
  qed
  then obtain bs asm' where w: "daemon_bytes c w = Some bs" "\<And>rest. read_loop c asm (bs @ rest) = Inr (meant w) # read_loop c asm' rest"
    by blast
  then show ?case using Cons.IH [of asm'] Cons.prems by auto
qed

subsection \<open>A codec\<close>

text \<open>One codec that keeps the laws, for a response that is a list of bytes and a reverse request without content.\<close>

definition u64_bytes :: "u64 \<Rightarrow> bytes" where
  "u64_bytes w = write_u32 (ucast (drop_bit 32 w)) @ write_u32 (ucast w)"

definition u64_of :: "bytes \<Rightarrow> u64" where
  "u64_of bs = push_bit 32 (ucast (read_u32 (take 4 bs))) OR ucast (read_u32 (drop 4 bs))"

lemma u64_of_bytes [simp]: "u64_of (u64_bytes w) = w"
proof (rule bit_word_eqI)
  fix n assume "n < LENGTH(64)"
  then show "bit (u64_of (u64_bytes w)) n = bit w n"
    by (cases "n < 32") (auto simp: u64_of_def u64_bytes_def bit_simps)
qed

lemma length_u64_bytes [simp]: "length (u64_bytes w) = 8"
  by (simp add: u64_bytes_def)

definition char_byte :: "char \<Rightarrow> u8" where
  "char_byte ch = of_nat (of_char ch)"

definition byte_char :: "u8 \<Rightarrow> char" where
  "byte_char b = char_of (unat b)"

lemma byte_char_byte [simp]: "byte_char (char_byte ch) = ch"
  by (simp add: byte_char_def char_byte_def unat_of_nat take_bit_eq_mod)

lemma char_byte_char [simp]: "char_byte (byte_char b) = b"
proof -
  have "unat b < 256" using unsigned_less [of b] by simp
  then show ?thesis by (simp add: byte_char_def char_byte_def)
qed

fun demo_message :: "(bytes, unit) daemon_message \<Rightarrow> bytes" where
  "demo_message (Response r) = 0 # r"
| "demo_message (ResponseChunk i n text) = 1 # write_u32 i @ write_u32 n @ map char_byte text"
| "demo_message (ReverseRequest i _) = 2 # u64_bytes i"

definition demo_message_of :: "bytes \<Rightarrow> (bytes, unit) daemon_message option" where
  "demo_message_of bs =
     (case drop (length ENVELOPE_FRAME_PREFIX) bs of
        [] \<Rightarrow> None
      | t # body \<Rightarrow>
          if t = 0 then Some (Response body)
          else if t = 1 then Some (ResponseChunk (read_u32 (take 4 body)) (read_u32 (take 4 (drop 4 body))) (map byte_char (drop 8 body)))
          else Some (ReverseRequest (u64_of body) ()))"

definition demo_codec :: "(bytes, unit) ipc_codec" where
  "demo_codec = \<lparr>
     response_bytes = (\<lambda>i r. case i of None \<Rightarrow> 0 # r | Some k \<Rightarrow> 1 # u64_bytes k @ r),
     response_of = (\<lambda>bs. case bs of [] \<Rightarrow> None | t # body \<Rightarrow> Some (if t = 0 then body else drop 8 body)),
     ipc_id_of = (\<lambda>bs. case bs of [] \<Rightarrow> None | t # body \<Rightarrow> if t = 0 then None else Some (u64_of (take 8 body))),
     message_bytes = (\<lambda>m. ENVELOPE_FRAME_PREFIX @ demo_message m),
     message_of = demo_message_of,
     b64_encode = map byte_char,
     b64_decode = (\<lambda>text. Some (map char_byte text))\<rparr>"

lemma demo_codec_ok: "codec_ok demo_codec"
proof -
  have "demo_message_of (ENVELOPE_FRAME_PREFIX @ demo_message m) = Some m" for m
    by (cases m) (simp_all add: demo_message_of_def comp_def)
  moreover have "\<not> frame_starts_with (response_bytes demo_codec i r) ENVELOPE_FRAME_PREFIX" for i r
    by (cases i) (simp_all add: demo_codec_def frame_starts_with_def ENVELOPE_FRAME_PREFIX_def)
  moreover have "length ENVELOPE_FRAME_PREFIX \<le> 12" by (simp add: ENVELOPE_FRAME_PREFIX_def)
  ultimately show ?thesis
    by (auto simp: codec_ok_def demo_codec_def frame_starts_with_def comp_def split: option.split)
qed

theorem responses_roundtrip_witness:
  "\<exists>bs. written demo_codec [WriteResponse (Some 7) (replicate (5 * 1024 * 1024) 0), WriteReverse 1 ()] = Some bs \<and>
     read_loop demo_codec assembler_default bs = [Inr (Reply (Some 7) (replicate (5 * 1024 * 1024) 0)), Inr (Reverse 1 ())]"
proof -
  have "list_all (writable demo_codec) [WriteResponse (Some 7) (replicate (5 * 1024 * 1024) 0), WriteReverse 1 ()]"
    by (simp add: demo_codec_def ENVELOPE_FRAME_PREFIX_def MAX_FRAME_SIZE_def)
  from responses_roundtrip [OF demo_codec_ok this, of assembler_default] show ?thesis by simp
qed

end
