(* ===== verification/Ipc_Requests.thy ===== *)
theory Ipc_Requests
  imports Json Rust_Strings
begin

section \<open>Requests and responses of the local socket (\<open>ipc.rs\<close>)\<close>

text \<open>
  The two message types with all their variants, which of them need the daemon's token, which run on the connection
  loop, and which are pushed without a request. A field whose structure no decision here looks at is its JSON value.
\<close>

type_synonym u16 = "16 word"

definition IPC_PROTOCOL_VERSION :: u16 where
  "IPC_PROTOCOL_VERSION = 4"

definition IPC_PROTOCOL_VERSION_MIN :: u16 where
  "IPC_PROTOCOL_VERSION_MIN = 3"

record client_host =
  host_name :: string
  host_executable :: string
  host_app :: "string option"
  host_script :: "string option"

datatype (plugins del: quickcheck_exhaustive quickcheck_random quickcheck_full_exhaustive quickcheck_narrowing) ipc_request =
    Status
  | OperatorHandshake string u16 u16
  | ActivitySnapshot string u64 nat bool
  | OperatorSnapshot string
  | GetServerConfig string string
  | RevokeDownstreamClient string string
  | ValidateServer string string json
  | DescribeApi string string
  | AddServer string string json "string option"
  | UpdateServer string string json "string option"
  | RemoveServer string string
  | AddAccount string string string
  | SetServerEnabled string string bool
  | SetToolEnabled string string bool
  | RenameClient string string string
  | MoveClientSettings string string string
  | SetClientPlace string string string
  | SetClientBlock string string json string bool
  | AddWatch string json
  | RemoveWatch string string
  | RestartServer string string
  | Reload string
  | Shutdown string
  | Register u16 string "string option" "string option" "client_host option" "string option"
  | Deregister string
  | UpdateSession string string
  | Ping string
  | ListTools
  | ListLiveSessions
  | Capabilities string
  | ModernDownstreamGate string
  | McpRequest string string "json option"
  | McpRequestWithContext string string "json option" json
  | CancelMcpRequest string string string json "string option"
  | UpdateRoots string json
  | UpdateCapabilities string json
  | RestoreResourceSubscriptions string "string list"
  | AuthStatus

definition requires_auth :: "ipc_request \<Rightarrow> bool" where
  "requires_auth request =
     (case request of
        RestartServer _ _ \<Rightarrow> True | Reload _ \<Rightarrow> True | Shutdown _ \<Rightarrow> True | ActivitySnapshot _ _ _ _ \<Rightarrow> True
      | OperatorSnapshot _ \<Rightarrow> True | GetServerConfig _ _ \<Rightarrow> True | RevokeDownstreamClient _ _ \<Rightarrow> True
      | ValidateServer _ _ _ \<Rightarrow> True | DescribeApi _ _ \<Rightarrow> True | AddServer _ _ _ _ \<Rightarrow> True | UpdateServer _ _ _ _ \<Rightarrow> True
      | RemoveServer _ _ \<Rightarrow> True | AddAccount _ _ _ \<Rightarrow> True | SetServerEnabled _ _ _ \<Rightarrow> True | SetToolEnabled _ _ _ \<Rightarrow> True
      | RenameClient _ _ _ \<Rightarrow> True | MoveClientSettings _ _ _ \<Rightarrow> True | SetClientPlace _ _ _ \<Rightarrow> True
      | SetClientBlock _ _ _ _ _ \<Rightarrow> True | AddWatch _ _ \<Rightarrow> True | RemoveWatch _ _ \<Rightarrow> True
      | _ \<Rightarrow> False)"

definition extract_auth_token :: "ipc_request \<Rightarrow> string option" where
  "extract_auth_token request =
     (case request of
        RestartServer _ auth_token \<Rightarrow> Some auth_token
      | Reload auth_token \<Rightarrow> Some auth_token
      | Shutdown auth_token \<Rightarrow> Some auth_token
      | ActivitySnapshot auth_token _ _ _ \<Rightarrow> Some auth_token
      | OperatorSnapshot auth_token \<Rightarrow> Some auth_token
      | GetServerConfig auth_token _ \<Rightarrow> Some auth_token
      | RevokeDownstreamClient auth_token _ \<Rightarrow> Some auth_token
      | ValidateServer auth_token _ _ \<Rightarrow> Some auth_token
      | DescribeApi auth_token _ \<Rightarrow> Some auth_token
      | AddServer auth_token _ _ _ \<Rightarrow> Some auth_token
      | UpdateServer auth_token _ _ _ \<Rightarrow> Some auth_token
      | RemoveServer auth_token _ \<Rightarrow> Some auth_token
      | AddAccount auth_token _ _ \<Rightarrow> Some auth_token
      | SetServerEnabled auth_token _ _ \<Rightarrow> Some auth_token
      | SetToolEnabled auth_token _ _ \<Rightarrow> Some auth_token
      | RenameClient auth_token _ _ \<Rightarrow> Some auth_token
      | MoveClientSettings auth_token _ _ \<Rightarrow> Some auth_token
      | SetClientPlace auth_token _ _ \<Rightarrow> Some auth_token
      | SetClientBlock auth_token _ _ _ _ \<Rightarrow> Some auth_token
      | AddWatch auth_token _ \<Rightarrow> Some auth_token
      | RemoveWatch auth_token _ \<Rightarrow> Some auth_token
      | _ \<Rightarrow> None)"

lemma token_where_required: "requires_auth request \<longleftrightarrow> extract_auth_token request \<noteq> None"
  by (cases request) (simp_all add: requires_auth_def extract_auth_token_def)

definition must_run_inline :: "ipc_request \<Rightarrow> bool" where
  "must_run_inline request =
     (case request of
        Register _ _ _ _ _ _ \<Rightarrow> True | Deregister _ \<Rightarrow> True | Shutdown _ \<Rightarrow> True | Ping _ \<Rightarrow> True | ModernDownstreamGate _ \<Rightarrow> True
      | _ \<Rightarrow> False)"

definition is_deregister_request :: "ipc_request \<Rightarrow> bool" where
  "is_deregister_request request = (case request of Deregister _ \<Rightarrow> True | _ \<Rightarrow> False)"

definition bypasses_slots :: "ipc_request \<Rightarrow> bool" where
  "bypasses_slots request = (case request of Ping _ \<Rightarrow> True | ModernDownstreamGate _ \<Rightarrow> True | _ \<Rightarrow> False)"

lemma bypassing_runs_inline: "bypasses_slots request \<Longrightarrow> must_run_inline request"
  by (cases request) (simp_all add: bypasses_slots_def must_run_inline_def)

datatype (plugins del: quickcheck_exhaustive quickcheck_random quickcheck_full_exhaustive quickcheck_narrowing) ipc_response =
    OperatorHandshakeResponse json
  | ActivitySnapshotResponse "json list"
  | OperatorSnapshotResponse json
  | ServerConfig string json
  | DownstreamClientRevoked string
  | ServerValidated json
  | ApiDescribed json
  | OperatorMutation json json
  | StatusResponse "json list" nat u64 string nat
  | Tools "json list"
  | LiveSessions "json list" json
  | CapabilitiesResponse json
  | ModernDownstreamGateResponse bool
  | OkResponse
  | Reloaded json
  | Pong
  | ErrorResponse string string
  | Registered u16 string string bool string
  | McpResponse json
  | LoggingNotification json
  | ToolListChangedNotification
  | ResourceListChangedNotification
  | ResourceUpdatedNotification json
  | PromptListChangedNotification
  | ProgressNotification json
  | CancelledNotification json
  | AuthStatusResponse "json list"
  | AuthStateChanged string json
  | ModernDownstreamGateChanged bool

text \<open>What the connector does not hand to a waiting request.\<close>

definition is_push :: "ipc_response \<Rightarrow> bool" where
  "is_push response =
     (case response of
        LoggingNotification _ \<Rightarrow> True | ToolListChangedNotification \<Rightarrow> True | ResourceListChangedNotification \<Rightarrow> True
      | ResourceUpdatedNotification _ \<Rightarrow> True | PromptListChangedNotification \<Rightarrow> True | ProgressNotification _ \<Rightarrow> True
      | CancelledNotification _ \<Rightarrow> True | AuthStateChanged _ _ \<Rightarrow> True | ModernDownstreamGateChanged _ \<Rightarrow> True
      | _ \<Rightarrow> False)"

datatype ipc_client_request = CreateElicitation json | CreateMessage json

datatype ipc_client_response = ElicitationResult json | MessageResult json | ClientError string

end
