(* ===== verification/Ipc_Link.thy ===== *)
theory Ipc_Link
  imports Ipc_Requests
begin

section \<open>One connection between a connector and the daemon (\<open>ipc_proxy.rs\<close>, \<open>daemon/mod.rs\<close>)\<close>

text \<open>
  A connector has many requests under way on one socket. Its half (\<open>DaemonMux\<close>) gives each an id, writes them through one
  task and hands every reply to the request it belongs to; the daemon's half (\<open>handle_ipc_loop\<close>) runs the requests with an
  id in tasks of their own and the others one at a time. A link is both halves and what is on the wire between them.
  \<^item> A call is one \<open>round_trip\<close>. From the id to the queue of the writer it does not wait, and this is one step; in between nothing
    else can put a frame of the same untagged connection on the queue, because the call holds the only slot.
  \<^item> Frames are messages; that the bytes carry them is the theorem \<open>responses_roundtrip\<close> of \<open>Ipc_Responses\<close>.
  \<^item> What \<open>dispatch_request\<close> answers is an argument of the step in which it answers.
  \<^item> For the theorems only: a request frame and its reply carry the number of the call, \<open>answers\<close> are the replies the daemon
    wrote for a call, \<open>queued\<close> the calls whose frame reached the writer's queue, \<open>entered\<close> the calls that have an id, \<open>disturbed\<close> tells that
    a waiter was taken away without its reply.
\<close>

record transport_failure =
  message :: string
  reconnectable :: bool
  never_sent :: bool

datatype client_frame = RequestFrame "u64 option" ipc_request nat | ReverseReply "u64 option" ipc_client_response u64

datatype link_frame = ReplyFrame "u64 option" ipc_response "nat option" | ReverseFrame u64 ipc_client_request

record call =
  c_request :: ipc_request
  c_id :: "u64 option"
  c_slot :: bool
  c_result :: "(transport_failure + ipc_response) option"
  c_over :: bool

record link =
  tagged :: bool
  slots :: nat
  next_id :: u64
  pending :: "(u64 \<times> nat) list"
  closed :: "string option"
  outbound :: "client_frame list"
  reading :: bool
  writing :: bool
  reversing :: "(u64 \<times> ipc_client_request) list"
  calls :: "call list"
  to_daemon :: "client_frame list"
  to_proxy :: "link_frame list"
  registered :: bool
  permits :: nat
  running :: "(u64 \<times> ipc_request \<times> nat) list"
  finished :: "(u64 \<times> ipc_response \<times> nat) list"
  deferred :: "client_frame list"
  dispatching :: "(u64 option \<times> ipc_request \<times> nat) option"
  reverse_counter :: u64
  pending_reverse :: "u64 list"
  ended :: bool
  answers :: "(nat \<times> ipc_response) list"
  reverse_answers :: "(u64 \<times> u64 \<times> ipc_client_response) list"
  entered :: "nat list"
  queued :: "nat list"
  disturbed :: bool

definition MAX_CONCURRENT_REQUESTS_PER_CONNECTION :: nat where
  "MAX_CONCURRENT_REQUESTS_PER_CONNECTION = 32"

definition mux_start :: "bool \<Rightarrow> link" where
  "mux_start is_tagged = \<lparr>tagged = is_tagged, slots = (if is_tagged then MAX_CONCURRENT_REQUESTS_PER_CONNECTION else 1), next_id = 1,
     pending = [], closed = None, outbound = [], reading = True, writing = True, reversing = [], calls = [], to_daemon = [], to_proxy = [],
     registered = True, permits = MAX_CONCURRENT_REQUESTS_PER_CONNECTION, running = [], finished = [], deferred = [], dispatching = None,
     reverse_counter = 1, pending_reverse = [], ended = False, answers = [], reverse_answers = [], entered = [], queued = [],
     disturbed = False\<rparr>"

subsection \<open>The connector\<close>

definition set_call :: "nat \<Rightarrow> call \<Rightarrow> link \<Rightarrow> link" where
  "set_call k c l = l \<lparr>calls := (calls l) [k := c]\<rparr>"

text \<open>The value on a call's reply channel; nobody looks at it when the call is over.\<close>

definition settle :: "(transport_failure + ipc_response) \<Rightarrow> nat \<Rightarrow> link \<Rightarrow> link" where
  "settle result k l =
     (let c = calls l ! k
      in if c_over c \<or> c_result c \<noteq> None then l else set_call k (c \<lparr>c_result := Some result\<rparr>) l)"

definition fail_pending :: "transport_failure \<Rightarrow> link \<Rightarrow> link" where
  "fail_pending failure l = (fold (settle (Inl failure)) (map snd (pending l)) l) \<lparr>pending := [], disturbed := True\<rparr>"

definition mux_close :: "transport_failure \<Rightarrow> link \<Rightarrow> link" where
  "mux_close failure l =
     (fold (settle (Inl failure)) (map snd (pending l)) l)
       \<lparr>closed := (case closed l of None \<Rightarrow> Some (message failure) | Some reason \<Rightarrow> Some reason),
        pending := [], reading := False, writing := False\<rparr>"

definition writes_failed :: "transport_failure \<Rightarrow> link \<Rightarrow> link" where
  "writes_failed failure l =
     l \<lparr>closed := (case closed l of None \<Rightarrow> Some (message failure) | Some reason \<Rightarrow> Some reason), writing := False\<rparr>"

definition deliver :: "u64 option \<Rightarrow> ipc_response \<Rightarrow> link \<Rightarrow> link" where
  "deliver ipc_id response l =
     (case ipc_id of
        Some i \<Rightarrow>
          (case hget (pending l) i of
             Some k \<Rightarrow> settle (Inr response) k (l \<lparr>pending := hremove i (pending l)\<rparr>)
           | None \<Rightarrow> l)
      | None \<Rightarrow>
          (case pending l of
             (_, k) # rest \<Rightarrow> settle (Inr response) k (l \<lparr>pending := rest\<rparr>)
           | [] \<Rightarrow> l))"

definition new_call :: "ipc_request \<Rightarrow> link \<Rightarrow> link" where
  "new_call request l =
     l \<lparr>calls := calls l @ [\<lparr>c_request = request, c_id = None, c_slot = False, c_result = None, c_over = False\<rparr>]\<rparr>"

definition never_sent_failure :: "string \<Rightarrow> transport_failure" where
  "never_sent_failure reason = \<lparr>message = reason, reconnectable = True, never_sent = True\<rparr>"

definition local_failure :: "string \<Rightarrow> transport_failure" where
  "local_failure what = \<lparr>message = what, reconnectable = False, never_sent = False\<rparr>"

definition round_trip_bypass :: "nat \<Rightarrow> link \<Rightarrow> bool" where
  "round_trip_bypass k l \<longleftrightarrow> tagged l \<and> bypasses_slots (c_request (calls l ! k))"

text \<open>With its slot taken: the id, the size check, the connection's state, and the queue of the writer. \<open>too_large\<close> is the outcome of the size check.\<close>

definition round_trip_send :: "bool \<Rightarrow> nat \<Rightarrow> link \<Rightarrow> link" where
  "round_trip_send too_large k l =
     (let c = calls l ! k;
          bypass = round_trip_bypass k l;
          i = next_id l;
          l1 = l \<lparr>next_id := i + 1, entered := entered l @ [k], slots := (if bypass then slots l else slots l - 1)\<rparr>;
          c1 = c \<lparr>c_id := Some i, c_slot := \<not> bypass\<rparr>
      in if too_large then set_call k (c1 \<lparr>c_result := Some (Inl (local_failure ''IPC write failed: payload too large''))\<rparr>) l1
         else case closed l of
           Some reason \<Rightarrow> set_call k (c1 \<lparr>c_result := Some (Inl (never_sent_failure reason))\<rparr>) l1
         | None \<Rightarrow>
             set_call k c1
               (l1 \<lparr>pending := pending l @ [(i, k)], queued := queued l @ [k],
                  outbound := outbound l @ [RequestFrame (if tagged l then Some i else None) (c_request c) k]\<rparr>))"

text \<open>A call returns, or its caller drops it; either way its slot is free again.\<close>

definition end_call :: "nat \<Rightarrow> link \<Rightarrow> link" where
  "end_call k l =
     (let c = calls l ! k
      in set_call k (c \<lparr>c_over := True, c_slot := False\<rparr>) (l \<lparr>slots := (if c_slot c then slots l + 1 else slots l)\<rparr>))"

definition ceiling_expired :: "nat \<Rightarrow> link \<Rightarrow> link" where
  "ceiling_expired k l =
     (case c_id (calls l ! k) of
        None \<Rightarrow> l
      | Some i \<Rightarrow>
          end_call k (settle (Inl (local_failure ''daemon did not answer'')) k
            (l \<lparr>pending := hremove i (pending l), disturbed := True\<rparr>)))"

text \<open>The writer's task: a frame goes out, or the socket refuses it.\<close>

definition write_loop :: "transport_failure option \<Rightarrow> link \<Rightarrow> link" where
  "write_loop failed l =
     (case outbound l of
        [] \<Rightarrow> l
      | frame # rest \<Rightarrow>
          (case failed of
             None \<Rightarrow> l \<lparr>outbound := rest, to_daemon := to_daemon l @ [frame]\<rparr>
           | Some failure \<Rightarrow> writes_failed failure (l \<lparr>outbound := rest\<rparr>)))"

definition handle_daemon_reply :: "u64 option \<Rightarrow> ipc_response \<Rightarrow> link \<Rightarrow> link" where
  "handle_daemon_reply ipc_id response l = (if is_push response then l else deliver ipc_id response l)"

definition read_frame_from_daemon :: "link \<Rightarrow> link" where
  "read_frame_from_daemon l =
     (case to_proxy l of
        [] \<Rightarrow> l
      | ReplyFrame i response _ # rest \<Rightarrow> handle_daemon_reply i response (l \<lparr>to_proxy := rest\<rparr>)
      | ReverseFrame i request # rest \<Rightarrow> l \<lparr>to_proxy := rest, reversing := reversing l @ [(i, request)]\<rparr>)"

text \<open>The task that answers a reverse request, when it has the answer.\<close>

definition answer_reverse :: "nat \<Rightarrow> ipc_client_response \<Rightarrow> link \<Rightarrow> link" where
  "answer_reverse j response l =
     (let (i, _) = reversing l ! j
      in l \<lparr>reversing := take j (reversing l) @ drop (Suc j) (reversing l),
           outbound := outbound l @ [ReverseReply (if tagged l then Some i else None) response i]\<rparr>)"

subsection \<open>The daemon\<close>

definition daemon_reply :: "u64 option \<Rightarrow> ipc_response \<Rightarrow> nat \<Rightarrow> link \<Rightarrow> link" where
  "daemon_reply ipc_id response k l =
     l \<lparr>to_proxy := to_proxy l @ [ReplyFrame ipc_id response (Some k)], answers := answers l @ [(k, response)]\<rparr>"

definition daemon_push :: "ipc_response \<Rightarrow> link \<Rightarrow> link" where
  "daemon_push response l = l \<lparr>to_proxy := to_proxy l @ [ReplyFrame None response None]\<rparr>"

definition send_reverse_request :: "ipc_client_request \<Rightarrow> link \<Rightarrow> link" where
  "send_reverse_request request l =
     l \<lparr>reverse_counter := reverse_counter l + 1, pending_reverse := pending_reverse l @ [reverse_counter l],
       to_proxy := to_proxy l @ [ReverseFrame (reverse_counter l) request]\<rparr>"

fun reverse_reply_target :: "u64 list \<Rightarrow> client_frame \<Rightarrow> u64 option" where
  "reverse_reply_target pend (ReverseReply (Some i) _ _) = Some i"
| "reverse_reply_target pend (ReverseReply None _ _) = (case pend of [] \<Rightarrow> None | oldest # _ \<Rightarrow> Some oldest)"
| "reverse_reply_target pend (RequestFrame _ _ _) = None"

definition deliver_reverse_reply :: "u64 \<Rightarrow> ipc_client_response \<Rightarrow> u64 \<Rightarrow> link \<Rightarrow> link" where
  "deliver_reverse_reply i response asked l =
     (if i \<in> set (pending_reverse l)
      then l \<lparr>pending_reverse := removeAll i (pending_reverse l), reverse_answers := reverse_answers l @ [(i, asked, response)]\<rparr>
      else l)"

definition auth_failed :: ipc_response where
  "auth_failed = ErrorResponse ''AUTH_FAILED'' ''invalid auth token''"

definition auth_required :: ipc_response where
  "auth_required = ErrorResponse ''AUTH_REQUIRED'' ''auth_token required for this command''"

definition busy :: ipc_response where
  "busy = ErrorResponse ''BUSY'' ''this connection already has 32 requests running; retry''"

definition frame_error :: ipc_response where
  "frame_error = ErrorResponse ''FRAME_ERROR'' ''malformed frame''"

definition parse_error :: ipc_response where
  "parse_error = ErrorResponse ''PARSE_ERROR'' ''invalid request format''"

text \<open>What the loop does with a frame; \<open>token\<close> is the daemon's own.\<close>

definition handle_frame :: "string \<Rightarrow> client_frame \<Rightarrow> link \<Rightarrow> link" where
  "handle_frame token frame l =
     (case frame of
        ReverseReply _ response asked \<Rightarrow>
          (case reverse_reply_target (pending_reverse l) frame of
             Some i \<Rightarrow> deliver_reverse_reply i response asked l
           | None \<Rightarrow> l \<lparr>to_proxy := to_proxy l @ [ReplyFrame None parse_error None], ended := True\<rparr>)
      | RequestFrame ipc_id request k \<Rightarrow>
          if requires_auth request \<and> extract_auth_token request \<noteq> Some token
          then daemon_reply ipc_id (if extract_auth_token request = None then auth_required else auth_failed) k l
          else case ipc_id of
            Some i \<Rightarrow>
              if registered l \<and> \<not> must_run_inline request
              then (if permits l = 0 then daemon_reply ipc_id busy k l
                    else l \<lparr>permits := permits l - 1, running := running l @ [(i, request, k)]\<rparr>)
              else l \<lparr>dispatching := Some (ipc_id, request, k)\<rparr>
          | None \<Rightarrow> l \<lparr>dispatching := Some (ipc_id, request, k)\<rparr>)"

definition daemon_next :: "string \<Rightarrow> link \<Rightarrow> link" where
  "daemon_next token l =
     (case deferred l of
        frame # rest \<Rightarrow> handle_frame token frame (l \<lparr>deferred := rest\<rparr>)
      | [] \<Rightarrow> (case to_daemon l of frame # rest \<Rightarrow> handle_frame token frame (l \<lparr>to_daemon := rest\<rparr>) | [] \<Rightarrow> l))"

text \<open>While a request is dispatched on the loop, frames are read ahead.\<close>

definition read_ahead :: "link \<Rightarrow> link" where
  "read_ahead l =
     (case to_daemon l of
        [] \<Rightarrow> l
      | frame # rest \<Rightarrow>
          (let l1 = l \<lparr>to_daemon := rest\<rparr>
           in case (frame, reverse_reply_target (pending_reverse l) frame) of
                (ReverseReply _ response asked, Some i) \<Rightarrow> deliver_reverse_reply i response asked l1
              | _ \<Rightarrow> l1 \<lparr>deferred := deferred l @ [frame]\<rparr>))"

text \<open>A request's task ends, with the answer or, when it panicked, with an error; then the loop writes the reply.\<close>

definition task_ends :: "nat \<Rightarrow> ipc_response option \<Rightarrow> link \<Rightarrow> link" where
  "task_ends j result l =
     (case running l ! j of
        (i, _, k) \<Rightarrow>
          l \<lparr>running := take j (running l) @ drop (Suc j) (running l), permits := permits l + 1,
            finished := finished l @
              [(i, case result of Some response \<Rightarrow> response
                 | None \<Rightarrow> ErrorResponse ''INTERNAL_ERROR'' ''request handler failed'', k)]\<rparr>)"

definition write_in_flight_reply :: "nat \<Rightarrow> link \<Rightarrow> link" where
  "write_in_flight_reply j l =
     (case finished l ! j of
        (i, response, k) \<Rightarrow>
          daemon_reply (Some i) response k (l \<lparr>finished := take j (finished l) @ drop (Suc j) (finished l)\<rparr>))"

definition dispatch_ends :: "ipc_response \<Rightarrow> link \<Rightarrow> link" where
  "dispatch_ends response l =
     (case dispatching l of
        None \<Rightarrow> l
      | Some (ipc_id, request, k) \<Rightarrow>
          (daemon_reply ipc_id response k (l \<lparr>dispatching := None\<rparr>))
            \<lparr>registered := (case (request, response) of
               (Register _ _ _ _ _ _, Registered _ _ _ _ _) \<Rightarrow> True
             | (Deregister _, OkResponse) \<Rightarrow> False
             | _ \<Rightarrow> registered l),
             ended := (case request of Shutdown _ \<Rightarrow> True | _ \<Rightarrow> ended l)\<rparr>)"

text \<open>The loop ends without a word, or with an error when the frame could not be read.\<close>

definition loop_ends :: "bool \<Rightarrow> link \<Rightarrow> link" where
  "loop_ends with_error l =
     (if with_error then l \<lparr>to_proxy := to_proxy l @ [ReplyFrame None frame_error None], ended := True\<rparr>
      else l \<lparr>ended := True\<rparr>)"

subsection \<open>Retries\<close>

text \<open>
  A request goes through a second connection when the first one broke, unless running it twice would be unsafe; a request
  that never left is not run twice. The arguments are the results of the two round trips and of the reconnect, the second
  component of the value tells whether the second round trip is made.
\<close>

datatype retry_policy = SafeToRetry | UnsafeToRetry

definition shared_round_trip ::
  "retry_policy \<Rightarrow> (transport_failure + ipc_response) \<Rightarrow> (string + unit) \<Rightarrow> (transport_failure + ipc_response) \<Rightarrow>
   (string + ipc_response) \<times> bool" where
  "shared_round_trip policy first_try reconnect second_try =
     (case first_try of
        Inr response \<Rightarrow> (Inr response, False)
      | Inl failure \<Rightarrow>
          if reconnectable failure
          then (case reconnect of
                  Inl e \<Rightarrow> (Inl e, False)
                | Inr _ \<Rightarrow>
                    (case (if never_sent failure then SafeToRetry else policy) of
                       SafeToRetry \<Rightarrow>
                         (case second_try of
                            Inr response \<Rightarrow> (Inr response, True)
                          | Inl failure2 \<Rightarrow> (Inl (''IPC retry failed after reconnect: '' @ message failure2), True))
                     | UnsafeToRetry \<Rightarrow> (Inl ''REQUEST_RETRY_UNSAFE: daemon connection recovered; retry the tool call'', False)))
          else (Inl (message failure), False))"

end
