(* ===== verification/Ipc_Pairing.thy ===== *)
theory Ipc_Pairing
  imports Ipc_Link
begin

section \<open>Every reply finds its request\<close>

text \<open>
  The runs of a link: any interleaving of the connector's calls, its writer and reader, the daemon's loop and the tasks of
  its requests, with failures of the socket and callers that go away at any point. The daemon counts the reverse requests of
  all its connections together.
\<close>

definition waiting_for_slot :: "nat \<Rightarrow> link \<Rightarrow> bool" where
  "waiting_for_slot k l \<longleftrightarrow> k < length (calls l) \<and> c_id (calls l ! k) = None \<and> \<not> c_over (calls l ! k)"

inductive link_step :: "string \<Rightarrow> link \<Rightarrow> link \<Rightarrow> bool" for token where
  NewCall: "link_step token l (new_call request l)"
| Send: "waiting_for_slot k l \<Longrightarrow> round_trip_bypass k l \<or> 0 < slots l \<Longrightarrow> link_step token l (round_trip_send too_large k l)"
| EndCall: "k < length (calls l) \<Longrightarrow> \<not> c_over (calls l ! k) \<Longrightarrow> link_step token l (end_call k l)"
| Ceiling: "k < length (calls l) \<Longrightarrow> \<not> c_over (calls l ! k) \<Longrightarrow> c_result (calls l ! k) = None \<Longrightarrow> link_step token l (ceiling_expired k l)"
| Close: "\<not> never_sent failure \<Longrightarrow> link_step token l (mux_close failure l)"
| Garbage: "\<not> never_sent failure \<Longrightarrow> reading l \<Longrightarrow> link_step token l (fail_pending failure l)"
| Write: "writing l \<Longrightarrow> link_step token l (write_loop failed l)"
| Read: "reading l \<Longrightarrow> link_step token l (read_frame_from_daemon l)"
| AnswerReverse: "j < length (reversing l) \<Longrightarrow> link_step token l (answer_reverse j client_response l)"
| DaemonNext: "\<not> ended l \<Longrightarrow> dispatching l = None \<Longrightarrow> link_step token l (daemon_next token l)"
| ReadAhead: "\<not> ended l \<Longrightarrow> dispatching l \<noteq> None \<Longrightarrow> link_step token l (read_ahead l)"
| TaskEnds: "j < length (running l) \<Longrightarrow> \<forall>r. result = Some r \<longrightarrow> \<not> is_push r \<Longrightarrow> link_step token l (task_ends j result l)"
| WriteReply: "\<not> ended l \<Longrightarrow> j < length (finished l) \<Longrightarrow> link_step token l (write_in_flight_reply j l)"
| DispatchEnds: "\<not> ended l \<Longrightarrow> \<not> is_push response \<Longrightarrow> link_step token l (dispatch_ends response l)"
| Push: "\<not> ended l \<Longrightarrow> is_push response \<Longrightarrow> link_step token l (daemon_push response l)"
| SendReverse: "\<not> ended l \<Longrightarrow> link_step token l (send_reverse_request client_request l)"
| OtherConnection: "link_step token l (l \<lparr>reverse_counter := reverse_counter l + 1\<rparr>)"
| LoopEnds: "\<not> ended l \<Longrightarrow> link_step token l (loop_ends with_error l)"

inductive link_reachable :: "string \<Rightarrow> link \<Rightarrow> bool" for token where
  Start: "link_reachable token (mux_start is_tagged)"
| Step: "link_reachable token l \<Longrightarrow> link_step token l l' \<Longrightarrow> link_reachable token l'"

subsection \<open>Ids\<close>

definition cid :: "link \<Rightarrow> nat \<Rightarrow> u64 option" where
  "cid l k = (if k < length (calls l) then c_id (calls l ! k) else None)"

definition creq :: "link \<Rightarrow> nat \<Rightarrow> ipc_request option" where
  "creq l k = (if k < length (calls l) then Some (c_request (calls l ! k)) else None)"

definition ids_ok :: "link \<Rightarrow> bool" where
  "ids_ok l \<longleftrightarrow> distinct (entered l) \<and> next_id l = of_nat (Suc (length (entered l))) \<and>
     (\<forall>j < length (entered l). cid l (entered l ! j) = Some (of_nat (Suc j))) \<and> (\<forall>k. cid l k \<noteq> None \<longrightarrow> k \<in> set (entered l))"

definition ok_req :: "link \<Rightarrow> u64 option \<Rightarrow> ipc_request \<Rightarrow> nat \<Rightarrow> bool" where
  "ok_req l i request k \<longleftrightarrow> cid l k \<noteq> None \<and> creq l k = Some request \<and> i = (if tagged l then cid l k else None)"

fun ok_client_frame :: "link \<Rightarrow> client_frame \<Rightarrow> bool" where
  "ok_client_frame l (RequestFrame i request k) = ok_req l i request k"
| "ok_client_frame l (ReverseReply i _ asked) = (i = (if tagged l then Some asked else None))"

fun ok_link_frame :: "link \<Rightarrow> link_frame \<Rightarrow> bool" where
  "ok_link_frame l (ReplyFrame i response (Some k)) \<longleftrightarrow>
     cid l k \<noteq> None \<and> i = (if tagged l then cid l k else None) \<and> (k, response) \<in> set (answers l) \<and> \<not> is_push response"
| "ok_link_frame l (ReplyFrame i response None) \<longleftrightarrow> i = None \<and> (is_push response \<or> response = frame_error \<or> response = parse_error)"
| "ok_link_frame l (ReverseFrame _ _) = True"

definition wire_ok :: "link \<Rightarrow> bool" where
  "wire_ok l \<longleftrightarrow>
     list_all (ok_client_frame l) (outbound l) \<and> list_all (ok_client_frame l) (to_daemon l) \<and> list_all (ok_client_frame l) (deferred l) \<and>
     (case dispatching l of None \<Rightarrow> True | Some (i, request, k) \<Rightarrow> ok_req l i request k) \<and>
     list_all (\<lambda>(i, request, k). tagged l \<and> ok_req l (Some i) request k) (running l) \<and>
     list_all (\<lambda>(i, response, k). tagged l \<and> cid l k = Some i \<and> \<not> is_push response) (finished l) \<and>
     list_all (\<lambda>(i, k). cid l k = Some i) (pending l) \<and>
     list_all (ok_link_frame l) (to_proxy l)"

text \<open>A step keeps what is known of a call and of the answers.\<close>

definition grows :: "link \<Rightarrow> link \<Rightarrow> bool" where
  "grows l l' \<longleftrightarrow> tagged l' = tagged l \<and> (\<forall>k. cid l k \<noteq> None \<longrightarrow> cid l' k = cid l k) \<and> (\<forall>k. creq l k \<noteq> None \<longrightarrow> creq l' k = creq l k) \<and>
     set (answers l) \<subseteq> set (answers l')"

lemma grows_refl: "calls l' = calls l \<Longrightarrow> tagged l' = tagged l \<Longrightarrow> answers l' = answers l \<Longrightarrow> grows l l'"
  by (simp add: grows_def cid_def creq_def)

lemma grows_trans: "grows l l' \<Longrightarrow> grows l' l'' \<Longrightarrow> grows l l''"
  by (fastforce simp: grows_def)

lemma ok_req_mono: "grows l l' \<Longrightarrow> ok_req l i request k \<Longrightarrow> ok_req l' i request k"
  by (auto simp: grows_def ok_req_def)

lemma ok_client_frame_mono: "grows l l' \<Longrightarrow> ok_client_frame l f \<Longrightarrow> ok_client_frame l' f"
  by (cases f) (auto simp: ok_req_mono grows_def)

lemma ok_link_frame_mono: "grows l l' \<Longrightarrow> ok_link_frame l f \<Longrightarrow> ok_link_frame l' f"
  by (cases "(l, f)" rule: ok_link_frame.cases) (auto simp: grows_def)

lemma wire_ok_mono:
  assumes "wire_ok l" "grows l l'"
    "\<forall>f \<in> set (outbound l'). f \<in> set (outbound l) \<or> ok_client_frame l' f"
    "\<forall>f \<in> set (to_daemon l'). f \<in> set (outbound l) \<union> set (to_daemon l)"
    "\<forall>f \<in> set (deferred l'). f \<in> set (to_daemon l) \<union> set (deferred l)"
    "\<forall>i request k. dispatching l' = Some (i, request, k) \<longrightarrow> dispatching l = Some (i, request, k) \<or> ok_req l' i request k"
    "\<forall>(i, request, k) \<in> set (running l'). (i, request, k) \<in> set (running l) \<or> tagged l' \<and> ok_req l' (Some i) request k"
    "\<forall>(i, response, k) \<in> set (finished l'). (i, response, k) \<in> set (finished l) \<or> tagged l' \<and> cid l' k = Some i \<and> \<not> is_push response"
    "\<forall>(i, k) \<in> set (pending l'). (i, k) \<in> set (pending l) \<or> cid l' k = Some i"
    "\<forall>f \<in> set (to_proxy l'). f \<in> set (to_proxy l) \<or> ok_link_frame l' f"
  shows "wire_ok l'"
proof -
  have t: "tagged l' = tagged l" using assms(2) by (simp add: grows_def)
  have c: "cid l k = Some i \<Longrightarrow> cid l' k = Some i" for k i using assms(2) by (simp add: grows_def)
  show ?thesis unfolding wire_ok_def
  proof (intro conjI)
    show "list_all (ok_client_frame l') (outbound l')" "list_all (ok_client_frame l') (to_daemon l')" "list_all (ok_client_frame l') (deferred l')"
      using assms(1,3-5) ok_client_frame_mono [OF assms(2)] by (auto simp: wire_ok_def list_all_iff)
    show "case dispatching l' of None \<Rightarrow> True | Some (i, request, k) \<Rightarrow> ok_req l' i request k"
      using assms(1,6) ok_req_mono [OF assms(2)] by (auto simp: wire_ok_def split: option.splits)
    show "list_all (\<lambda>(i, request, k). tagged l' \<and> ok_req l' (Some i) request k) (running l')"
      using assms(1,7) ok_req_mono [OF assms(2)] t by (fastforce simp: wire_ok_def list_all_iff)
    show "list_all (\<lambda>(i, response, k). tagged l' \<and> cid l' k = Some i \<and> \<not> is_push response) (finished l')"
      using assms(1,8) t c by (fastforce simp: wire_ok_def list_all_iff)
    show "list_all (\<lambda>(i, k). cid l' k = Some i) (pending l')"
      using assms(1,9) c by (fastforce simp: wire_ok_def list_all_iff)
    show "list_all (ok_link_frame l') (to_proxy l')"
      using assms(1,10) ok_link_frame_mono [OF assms(2)] by (auto simp: wire_ok_def list_all_iff)
  qed
qed

subsection \<open>What a step does to the calls\<close>

definition settled :: "(transport_failure + ipc_response) \<Rightarrow> nat \<Rightarrow> call list \<Rightarrow> call list" where
  "settled result k cs =
     (let c = cs ! k in if c_over c \<or> c_result c \<noteq> None then cs else cs [k := c \<lparr>c_result := Some result\<rparr>])"

lemma settle_eq: "settle result k l = l \<lparr>calls := settled result k (calls l)\<rparr>"
  by (simp add: settle_def settled_def set_call_def Let_def)

lemma fold_settle_eq: "fold (settle result) ks l = l \<lparr>calls := fold (settled result) ks (calls l)\<rparr>"
  by (induction ks arbitrary: l) (simp_all add: settle_eq)

lemma length_settled [simp]: "length (settled result k cs) = length cs"
  by (simp add: settled_def Let_def)

lemma length_fold_settled [simp]: "length (fold (settled result) ks cs) = length cs"
  by (induction ks arbitrary: cs) simp_all

lemma nth_update_field: "f c = f (cs ! k) \<Longrightarrow> f (cs [k := c] ! j) = f (cs ! j)"
  by (metis list_update_beyond not_less nth_list_update_eq nth_list_update_neq)

lemma settled_fields [simp]: "c_id (settled result k cs ! j) = c_id (cs ! j)" "c_request (settled result k cs ! j) = c_request (cs ! j)"
  unfolding settled_def Let_def by (simp_all add: nth_update_field)

lemma fold_settled_fields [simp]:
  "c_id (fold (settled result) ks cs ! j) = c_id (cs ! j)" "c_request (fold (settled result) ks cs ! j) = c_request (cs ! j)"
  by (induction ks arbitrary: cs) simp_all

lemma update_result_fields: 
  "c_id (cs [k := (cs ! k) \<lparr>c_over := b, c_slot := b'\<rparr>] ! j) = c_id (cs ! j)"
  "c_request (cs [k := (cs ! k) \<lparr>c_over := b, c_slot := b'\<rparr>] ! j) = c_request (cs ! j)"
  by (simp_all add: nth_update_field)

lemma ids_ok_same:
  assumes "ids_ok l" "cid l' = cid l" "entered l' = entered l" "next_id l' = next_id l"
  shows "ids_ok l'"
  using assms by (simp add: ids_ok_def)

lemma id_unique:
  assumes "ids_ok l" "length (entered l) < 2 ^ 64 - 1" "cid l k = Some i" "cid l k' = Some i"
  shows "k = k'"
proof -
  obtain j j' where j: "j < length (entered l)" "entered l ! j = k" and j': "j' < length (entered l)" "entered l ! j' = k'"
    using assms by (metis ids_ok_def in_set_conv_nth option.distinct(1))
  then have "(of_nat (Suc j) :: u64) = of_nat (Suc j')" using assms by (auto simp: ids_ok_def)
  then have "Suc j = Suc j'" using j(1) j'(1) assms(2) by (simp add: word_of_nat_eq_iff take_bit_nat_eq_self del: of_nat_Suc)
  then show ?thesis using j j' by simp
qed

definition struct :: "link \<Rightarrow> bool" where
  "struct l \<longleftrightarrow> ids_ok l \<and> wire_ok l"

definition same_calls :: "link \<Rightarrow> link \<Rightarrow> bool" where
  "same_calls l l' \<longleftrightarrow> length (calls l') = length (calls l) \<and> (\<forall>j. c_id (calls l' ! j) = c_id (calls l ! j)) \<and>
     (\<forall>j. c_request (calls l' ! j) = c_request (calls l ! j)) \<and> tagged l' = tagged l \<and> entered l' = entered l \<and> next_id l' = next_id l \<and>
     set (answers l) \<subseteq> set (answers l')"

lemma same_calls_ids: "same_calls l l' \<Longrightarrow> cid l' = cid l" "same_calls l l' \<Longrightarrow> creq l' = creq l"
  by (auto simp: same_calls_def cid_def creq_def)

lemma same_calls_grows:
  assumes "same_calls l l'" shows "grows l l'"
  unfolding grows_def same_calls_ids [OF assms] using assms by (simp add: same_calls_def)

lemma same_calls_ok:
  assumes "same_calls l l'" shows "ok_req l' = ok_req l"
  using assms by (intro ext) (simp add: ok_req_def same_calls_ids [OF assms] same_calls_def)

lemma struct_same_calls:
  assumes "struct l" "same_calls l l'" "wire_ok l'"
  shows "struct l'"
  using assms(1,3) ids_ok_same [OF _ same_calls_ids(1) [OF assms(2)]] assms(2) by (simp add: struct_def same_calls_def)

lemma frames_known:
  assumes "wire_ok l"
  shows "RequestFrame i request k \<in> set (outbound l) \<union> set (to_daemon l) \<union> set (deferred l) \<Longrightarrow> ok_req l i request k"
    and "dispatching l = Some (i, request, k) \<Longrightarrow> ok_req l i request k"
    and "(n, request, k) \<in> set (running l) \<Longrightarrow> tagged l \<and> ok_req l (Some n) request k"
    and "(n, response, k) \<in> set (finished l) \<Longrightarrow> tagged l \<and> cid l k = Some n \<and> \<not> is_push response"
    and "(n, k) \<in> set (pending l) \<Longrightarrow> cid l k = Some n"
    and "f \<in> set (to_proxy l) \<Longrightarrow> ok_link_frame l f"
    and "ReverseReply i client_response asked \<in> set (outbound l) \<union> set (to_daemon l) \<union> set (deferred l) \<Longrightarrow> i = (if tagged l then Some asked else None)"
  using assms by (force simp: wire_ok_def list_all_iff)+

lemma struct_intro:
  assumes "struct l" "same_calls l l'"
    "\<forall>f \<in> set (outbound l'). f \<in> set (outbound l) \<or> ok_client_frame l f"
    "\<forall>f \<in> set (to_daemon l'). f \<in> set (outbound l) \<union> set (to_daemon l)"
    "\<forall>f \<in> set (deferred l'). f \<in> set (to_daemon l) \<union> set (deferred l)"
    "\<forall>i request k. dispatching l' = Some (i, request, k) \<longrightarrow> dispatching l = Some (i, request, k) \<or> ok_req l i request k"
    "\<forall>(i, request, k) \<in> set (running l'). (i, request, k) \<in> set (running l) \<or> tagged l \<and> ok_req l (Some i) request k"
    "\<forall>(i, response, k) \<in> set (finished l'). (i, response, k) \<in> set (finished l) \<or> tagged l \<and> cid l k = Some i \<and> \<not> is_push response"
    "set (pending l') \<subseteq> set (pending l)"
    "\<forall>f \<in> set (to_proxy l'). f \<in> set (to_proxy l) \<or> ok_link_frame l' f"
  shows "struct l'"
proof (rule struct_same_calls [OF assms(1,2)])
  have t: "tagged l' = tagged l" using assms(2) by (simp add: same_calls_def)
  note same = same_calls_ok [OF assms(2)] same_calls_ids(1) [OF assms(2)] t
  show "wire_ok l'"
  proof (rule wire_ok_mono [OF _ same_calls_grows [OF assms(2)]])
    show "\<forall>f \<in> set (outbound l'). f \<in> set (outbound l) \<or> ok_client_frame l' f"
      using assms(3) ok_client_frame_mono [OF same_calls_grows [OF assms(2)]] by blast
  qed (use assms(1,4-10) same in \<open>auto simp: struct_def\<close>)
qed

lemma struct_calls:
  assumes "struct l" "same_calls l l'" "outbound l' = outbound l" "to_daemon l' = to_daemon l" "deferred l' = deferred l"
    "dispatching l' = dispatching l" "running l' = running l" "finished l' = finished l" "set (pending l') \<subseteq> set (pending l)" "to_proxy l' = to_proxy l"
  shows "struct l'"
proof (rule struct_same_calls [OF assms(1,2)])
  show "wire_ok l'"
    by (rule wire_ok_mono [OF _ same_calls_grows [OF assms(2)]]) (use assms in \<open>auto simp: struct_def\<close>)
qed

lemma struct_settle: "struct l \<Longrightarrow> struct (settle result k l)"
  by (rule struct_calls, assumption) (simp_all add: settle_eq same_calls_def)

lemma struct_new_call:
  assumes "struct l" shows "struct (new_call request l)"
proof -
  have "cid (new_call request l) = cid l" by (auto simp: cid_def new_call_def nth_append fun_eq_iff)
  moreover have "grows l (new_call request l)"
    using calculation by (auto simp: grows_def creq_def new_call_def nth_append)
  moreover have "wire_ok (new_call request l)"
    by (rule wire_ok_mono [of l]) (use calculation(2) assms in \<open>auto simp: struct_def new_call_def\<close>)
  ultimately show ?thesis using assms by (auto simp: struct_def new_call_def intro: ids_ok_same)
qed

lemma struct_end_call: "struct l \<Longrightarrow> struct (end_call k l)"
  by (rule struct_calls, assumption) (simp_all add: end_call_def set_call_def same_calls_def update_result_fields Let_def)

lemma struct_ceiling: "struct l \<Longrightarrow> struct (ceiling_expired k l)"
  unfolding ceiling_expired_def
  by (auto split: option.split intro!: struct_end_call struct_settle elim!: struct_calls simp: same_calls_def set_hremove)

lemma struct_close: "struct l \<Longrightarrow> struct (mux_close failure l)"
  by (rule struct_calls, assumption) (simp_all add: mux_close_def fold_settle_eq same_calls_def)

lemma struct_fail_pending: "struct l \<Longrightarrow> struct (fail_pending failure l)"
  by (rule struct_calls, assumption) (simp_all add: fail_pending_def fold_settle_eq same_calls_def)

lemma send_fields:
  assumes "k < length (calls l)"
  shows "cid (round_trip_send b k l) = (cid l)(k := Some (next_id l))" "creq (round_trip_send b k l) = creq l"
    "next_id (round_trip_send b k l) = next_id l + 1" "entered (round_trip_send b k l) = entered l @ [k]"
    "tagged (round_trip_send b k l) = tagged l" "answers (round_trip_send b k l) = answers l"
  using assms by (auto simp: round_trip_send_def cid_def creq_def set_call_def Let_def nth_list_update fun_eq_iff split: option.split)

lemma struct_send:
  assumes "struct l" "waiting_for_slot k l"
  shows "struct (round_trip_send b k l)"
proof -
  let ?l = "round_trip_send b k l"
  have k: "k < length (calls l)" "cid l k = None" using assms(2) by (auto simp: waiting_for_slot_def cid_def)
  note f = send_fields [OF k(1), of b]
  have ne: "k \<notin> set (entered l)" using assms(1) k(2) by (auto simp: struct_def ids_ok_def in_set_conv_nth)
  have "ids_ok ?l"
    using assms(1) ne f by (auto simp: struct_def ids_ok_def nth_append less_Suc_eq)
  moreover have g: "grows l ?l" using f k by (auto simp: grows_def)
  moreover have "wire_ok ?l"
  proof (rule wire_ok_mono [OF _ g])
    show "\<forall>f \<in> set (outbound ?l). f \<in> set (outbound l) \<or> ok_client_frame ?l f"
      using f k by (auto simp: round_trip_send_def set_call_def Let_def ok_req_def creq_def split: option.split)
    show "\<forall>(i, k') \<in> set (pending ?l). (i, k') \<in> set (pending l) \<or> cid ?l k' = Some i"
      unfolding f(1) by (auto simp: round_trip_send_def set_call_def Let_def split: option.split)
  qed (use assms in \<open>auto simp: struct_def round_trip_send_def set_call_def Let_def split: option.split\<close>)
  ultimately show ?thesis by (simp add: struct_def)
qed

lemma struct_write: "struct l \<Longrightarrow> struct (write_loop failed l)"
  by (rule struct_intro, assumption)
    (auto simp: write_loop_def writes_failed_def same_calls_def split: list.splits option.splits)

lemma struct_deliver: "struct l \<Longrightarrow> struct (deliver i response l)"
  unfolding deliver_def
  by (auto split: option.split list.split intro!: struct_settle elim!: struct_calls simp: same_calls_def set_hremove)

lemma struct_read:
  assumes "struct l" shows "struct (read_frame_from_daemon l)"
proof -
  have "struct (l \<lparr>to_proxy := rest\<rparr>)" "struct (l \<lparr>to_proxy := rest, reversing := rs\<rparr>)" if "to_proxy l = f # rest" for f rest rs
    using that by (auto intro!: struct_intro [OF assms] simp: same_calls_def)
  then show ?thesis
    using assms by (auto simp: read_frame_from_daemon_def handle_daemon_reply_def intro!: struct_deliver split: list.split link_frame.split)
qed

lemma struct_answer_reverse: "struct l \<Longrightarrow> struct (answer_reverse j client_response l)"
  by (rule struct_intro, assumption) (auto simp: answer_reverse_def same_calls_def Let_def split: prod.splits)

lemma struct_daemon_reply:
  assumes "struct l" "cid l k \<noteq> None" "i = (if tagged l then cid l k else None)" "\<not> is_push response"
  shows "struct (daemon_reply i response k l)"
proof (rule struct_intro [OF assms(1)])
  show s: "same_calls l (daemon_reply i response k l)" by (auto simp: daemon_reply_def same_calls_def)
  show "\<forall>f \<in> set (to_proxy (daemon_reply i response k l)). f \<in> set (to_proxy l) \<or> ok_link_frame (daemon_reply i response k l) f"
    using assms(2-4) same_calls_ids(1) [OF s] by (auto simp: daemon_reply_def)
qed (auto simp: daemon_reply_def)

lemma struct_reverse_reply: "struct l \<Longrightarrow> struct (deliver_reverse_reply i response asked l)"
  by (rule struct_calls, assumption) (auto simp: deliver_reverse_reply_def same_calls_def)

lemma refusals_not_push [simp]: "\<not> is_push auth_failed" "\<not> is_push auth_required" "\<not> is_push busy" "\<not> is_push frame_error" "\<not> is_push parse_error"
  by (simp_all add: is_push_def auth_failed_def auth_required_def busy_def frame_error_def parse_error_def)

lemma struct_handle_frame:
  assumes "struct l" "ok_client_frame l frame"
  shows "struct (handle_frame token frame l)"
proof (cases frame)
  case (ReverseReply i response asked)
  have "struct (l \<lparr>to_proxy := to_proxy l @ [ReplyFrame None parse_error None], ended := True\<rparr>)"
    by (rule struct_intro [OF assms(1)]) (auto simp: same_calls_def)
  then show ?thesis using ReverseReply assms(1) struct_reverse_reply by (auto simp: handle_frame_def split: option.split)
next
  case (RequestFrame i request k)
  then have ok: "ok_req l i request k" using assms(2) by simp
  then have r: "struct (daemon_reply i response k l)" if "\<not> is_push response" for response
    using struct_daemon_reply [OF assms(1)] that by (auto simp: ok_req_def)
  have "struct (l \<lparr>dispatching := Some (i, request, k)\<rparr>)"
    by (rule struct_intro [OF assms(1)]) (use ok in \<open>auto simp: same_calls_def\<close>)
  moreover have "struct (l \<lparr>permits := permits l - 1, running := running l @ [(n, request, k)]\<rparr>)" if "i = Some n" for n
    by (rule struct_intro [OF assms(1)]) (use ok that in \<open>auto simp: same_calls_def ok_req_def split: if_splits\<close>)
  ultimately show ?thesis using RequestFrame r by (auto simp: handle_frame_def split: option.split)
qed

lemma struct_daemon_next:
  assumes "struct l" shows "struct (daemon_next token l)"
proof -
  have ok: "ok_client_frame l f" if "f \<in> set (deferred l) \<union> set (to_daemon l)" for f
    using assms that by (auto simp: struct_def wire_ok_def list_all_iff)
  have d: "struct (l \<lparr>deferred := rest\<rparr>)" if "deferred l = f # rest" for f rest
    by (rule struct_intro [OF assms]) (use that in \<open>auto simp: same_calls_def\<close>)
  have w: "struct (l \<lparr>to_daemon := rest\<rparr>)" if "to_daemon l = f # rest" for f rest
    by (rule struct_intro [OF assms]) (use that in \<open>auto simp: same_calls_def\<close>)
  have "ok_client_frame (l \<lparr>deferred := rest\<rparr>) f = ok_client_frame l f" "ok_client_frame (l \<lparr>to_daemon := rest\<rparr>) f = ok_client_frame l f" for f rest
    by (cases f; simp add: ok_req_def cid_def creq_def)+
  then show ?thesis using assms ok d w by (auto simp: daemon_next_def intro!: struct_handle_frame split: list.split)
qed

lemma struct_read_ahead:
  assumes "struct l" shows "struct (read_ahead l)"
proof (cases "to_daemon l")
  case Nil
  then show ?thesis using assms by (simp add: read_ahead_def)
next
  case (Cons f rest)
  have "struct (l \<lparr>to_daemon := rest\<rparr>)" "struct (l \<lparr>to_daemon := rest, deferred := deferred l @ [f]\<rparr>)"
    by (rule struct_intro [OF assms]; use Cons in \<open>auto simp: same_calls_def\<close>)+
  then show ?thesis using Cons struct_reverse_reply by (auto simp: read_ahead_def Let_def split: client_frame.split option.split)
qed

lemma struct_task_ends:
  assumes "struct l" "j < length (running l)" "\<forall>r. result = Some r \<longrightarrow> \<not> is_push r"
  shows "struct (task_ends j result l)"
proof -
  obtain i request k where j: "running l ! j = (i, request, k)" by (cases "running l ! j") auto
  then have "(i, request, k) \<in> set (running l)" using assms(2) by (metis nth_mem)
  then have "tagged l" "cid l k = Some i" using assms(1) frames_known(3) by (fastforce simp: struct_def ok_req_def)+
  then show ?thesis
    by (intro struct_intro [OF assms(1)])
      (use j assms(3) in \<open>auto simp: task_ends_def same_calls_def is_push_def dest: in_set_takeD in_set_dropD split: option.splits\<close>)
qed

lemma struct_write_reply:
  assumes "struct l" "j < length (finished l)" shows "struct (write_in_flight_reply j l)"
proof -
  obtain i response k where j: "finished l ! j = (i, response, k)" by (cases "finished l ! j") auto
  then have "(i, response, k) \<in> set (finished l)" using assms(2) by (metis nth_mem)
  then have k: "tagged l" "cid l k = Some i" "\<not> is_push response" using assms(1) frames_known(4) by (auto simp: struct_def)
  let ?l = "l \<lparr>finished := take j (finished l) @ drop (Suc j) (finished l)\<rparr>"
  have "struct ?l"
    by (rule struct_intro [OF assms(1)]) (auto simp: same_calls_def dest: in_set_takeD in_set_dropD)
  then have "struct (daemon_reply (Some i) response k ?l)"
    by (rule struct_daemon_reply) (use k in \<open>auto simp: cid_def split: if_splits\<close>)
  then show ?thesis using j by (simp add: write_in_flight_reply_def)
qed

lemma struct_dispatch_ends:
  assumes "struct l" "\<not> is_push response" shows "struct (dispatch_ends response l)"
proof (cases "dispatching l")
  case None
  then show ?thesis using assms by (simp add: dispatch_ends_def)
next
  case (Some d)
  obtain i request k where d: "d = (i, request, k)" by (cases d) auto
  then have k: "cid l k \<noteq> None" "i = (if tagged l then cid l k else None)"
    using frames_known(2) assms(1) Some by (auto simp: struct_def ok_req_def)
  have "struct (l \<lparr>dispatching := None\<rparr>)" by (rule struct_intro [OF assms(1)]) (auto simp: same_calls_def)
  then have s: "struct (daemon_reply i response k (l \<lparr>dispatching := None\<rparr>))"
    by (rule struct_daemon_reply) (use k assms(2) in \<open>auto simp: cid_def split: if_splits\<close>)
  have "struct ((daemon_reply i response k (l \<lparr>dispatching := None\<rparr>)) \<lparr>registered := b, ended := e\<rparr>)" for b e
    by (rule struct_calls [OF s]) (auto simp: same_calls_def)
  then show ?thesis using Some d by (simp add: dispatch_ends_def)
qed

lemma struct_others:
  assumes "struct l"
  shows "is_push response \<Longrightarrow> struct (daemon_push response l)" "struct (send_reverse_request client_request l)" "struct (loop_ends b l)"
    "struct (l \<lparr>reverse_counter := n\<rparr>)"
  by (rule struct_intro [OF assms]; auto simp: same_calls_def daemon_push_def send_reverse_request_def loop_ends_def)+

lemma struct_step: "link_step token l l' \<Longrightarrow> struct l \<Longrightarrow> struct l'"
  by (cases rule: link_step.cases, assumption)
    (auto intro: struct_new_call struct_send struct_end_call struct_ceiling struct_close struct_fail_pending struct_write struct_read
      struct_answer_reverse struct_daemon_next struct_read_ahead struct_task_ends struct_write_reply struct_dispatch_ends struct_others)

subsection \<open>Results\<close>

definition results_ok :: "link \<Rightarrow> bool" where
  "results_ok l \<longleftrightarrow> (\<forall>k response. k < length (calls l) \<longrightarrow> c_result (calls l ! k) = Some (Inr response) \<longrightarrow>
     (k, response) \<in> set (answers l) \<or> response = frame_error \<or> response = parse_error)"

fun reply_calls :: "link_frame list \<Rightarrow> nat list" where
  "reply_calls [] = []"
| "reply_calls (ReplyFrame _ _ (Some k) # fs) = k # reply_calls fs"
| "reply_calls (_ # fs) = reply_calls fs"

fun request_calls :: "client_frame list \<Rightarrow> nat list" where
  "request_calls [] = []"
| "request_calls (RequestFrame _ _ k # fs) = k # request_calls fs"
| "request_calls (ReverseReply _ _ _ # fs) = request_calls fs"

lemma reply_calls_append [simp]: "reply_calls (fs @ gs) = reply_calls fs @ reply_calls gs"
  by (induction fs rule: reply_calls.induct) simp_all

lemma request_calls_append [simp]: "request_calls (fs @ gs) = request_calls fs @ request_calls gs"
  by (induction fs rule: request_calls.induct) simp_all

definition dispatching_call :: "link \<Rightarrow> nat list" where
  "dispatching_call l = (case dispatching l of None \<Rightarrow> [] | Some (_, _, k) \<Rightarrow> [k])"

text \<open>Without ids, the calls that wait are in the order of their requests and replies along the connection.\<close>

definition chain :: "link \<Rightarrow> bool" where
  "chain l \<longleftrightarrow> (reading l \<longrightarrow>
     (\<exists>rest. map snd (pending l) = reply_calls (to_proxy l) @ rest \<and>
        (\<not> ended l \<longrightarrow>
           (\<exists>rest2. rest = dispatching_call l @ request_calls (deferred l) @ request_calls (to_daemon l) @ rest2 \<and>
              (writing l \<longrightarrow> rest2 = request_calls (outbound l))))))"

fun is_error_frame :: "link_frame \<Rightarrow> bool" where
  "is_error_frame (ReplyFrame _ response None) = (\<not> is_push response)"
| "is_error_frame _ = False"

definition errors_last :: "link \<Rightarrow> bool" where
  "errors_last l \<longleftrightarrow> list_all (\<lambda>f. \<not> is_error_frame f) (if ended l then butlast (to_proxy l) else to_proxy l)"

definition link_inv :: "link \<Rightarrow> bool" where
  "link_inv l \<longleftrightarrow> struct l \<and> errors_last l \<and>
     (length (entered l) < 2 ^ 64 - 1 \<and> (tagged l \<or> \<not> disturbed l) \<longrightarrow> results_ok l \<and> (\<not> tagged l \<longrightarrow> chain l))"

lemma list_all_butlast: "list_all P xs \<Longrightarrow> list_all P (butlast xs)"
  by (auto simp: list_all_iff dest: in_set_butlastD)

lemma deliver_fields [simp]:
  "to_proxy (deliver i r l) = to_proxy l" "ended (deliver i r l) = ended l" "reading (deliver i r l) = reading l" "writing (deliver i r l) = writing l"
  "dispatching (deliver i r l) = dispatching l" "deferred (deliver i r l) = deferred l" "to_daemon (deliver i r l) = to_daemon l"
  "outbound (deliver i r l) = outbound l" "answers (deliver i r l) = answers l" "tagged (deliver i r l) = tagged l" "entered (deliver i r l) = entered l"
  "disturbed (deliver i r l) = disturbed l" "queued (deliver i r l) = queued l" "length (calls (deliver i r l)) = length (calls l)"
  by (simp_all add: deliver_def settle_eq split: option.split list.split)

lemma errors_last_step: "link_step token l l' \<Longrightarrow> errors_last l \<Longrightarrow> errors_last l'"
proof (induction rule: link_step.induct)
  case (Read l)
  then show ?case
    by (auto simp: read_frame_from_daemon_def handle_daemon_reply_def errors_last_def split: list.split link_frame.split if_splits)
next
  case (DaemonNext l)
  have "errors_last (handle_frame token f l')" if "errors_last l'" "\<not> ended l'" for f l'
    using that by (auto simp: handle_frame_def daemon_reply_def deliver_reverse_reply_def errors_last_def split: client_frame.split option.split)
  moreover have "errors_last (l \<lparr>deferred := fs\<rparr>)" "errors_last (l \<lparr>to_daemon := fs\<rparr>)" for fs
    using DaemonNext by (simp_all add: errors_last_def)
  ultimately show ?case using DaemonNext by (auto simp: daemon_next_def split: list.split)
next
  case (ReadAhead l)
  then show ?case
    by (auto simp: read_ahead_def deliver_reverse_reply_def errors_last_def Let_def split: list.split client_frame.split option.split)
qed (auto simp: errors_last_def new_call_def round_trip_send_def set_call_def end_call_def ceiling_expired_def settle_eq mux_close_def
    fail_pending_def fold_settle_eq write_loop_def writes_failed_def answer_reverse_def task_ends_def write_in_flight_reply_def daemon_reply_def
    dispatch_ends_def daemon_push_def send_reverse_request_def loop_ends_def list_all_butlast Let_def
    split: option.split list.split prod.split ipc_request.split)

subsection \<open>The invariant holds\<close>

lemma settled_result:
  "c_result (settled result k cs ! j) = Some r \<Longrightarrow> c_result (cs ! j) = Some r \<or> j = k \<and> r = result"
  by (cases "k < length cs") (auto simp: settled_def Let_def nth_list_update list_update_beyond split: if_splits)

lemma fold_settled_result:
  "c_result (fold (settled result) ks cs ! j) = Some r \<Longrightarrow> c_result (cs ! j) = Some r \<or> r = result"
proof (induction ks arbitrary: cs)
  case (Cons k ks)
  then show ?case using settled_result by fastforce
qed simp

lemma results_ok_mono:
  assumes "results_ok l" "length (calls l') = length (calls l)" "set (answers l) \<subseteq> set (answers l')"
    "\<And>k r. k < length (calls l) \<Longrightarrow> c_result (calls l' ! k) = Some (Inr r) \<Longrightarrow> c_result (calls l ! k) = Some (Inr r) \<or> (k, r) \<in> set (answers l') \<or>
       r = frame_error \<or> r = parse_error"
  shows "results_ok l'"
  using assms unfolding results_ok_def by (metis subsetD)

lemma results_ok_same: "results_ok l \<Longrightarrow> calls l' = calls l \<Longrightarrow> set (answers l) \<subseteq> set (answers l') \<Longrightarrow> results_ok l'"
  by (rule results_ok_mono) auto

lemma results_settle:
  assumes "results_ok l" "calls l' = settled result k (calls l)" "answers l' = answers l"
    "\<And>r. result = Inr r \<Longrightarrow> (k, r) \<in> set (answers l) \<or> r = frame_error \<or> r = parse_error"
  shows "results_ok l'"
  by (rule results_ok_mono [OF assms(1)]) (use assms(2-4) settled_result in \<open>fastforce+\<close>)

lemma results_fold_settle:
  assumes "results_ok l" "calls l' = fold (settled (Inl failure)) ks (calls l)" "answers l' = answers l"
  shows "results_ok l'"
  by (rule results_ok_mono [OF assms(1)]) (use assms(2,3) fold_settled_result in \<open>fastforce+\<close>)

lemma results_end_call: "results_ok l \<Longrightarrow> results_ok (end_call k l)"
  by (rule results_ok_mono, assumption)
    (auto simp: end_call_def set_call_def Let_def nth_update_field)

lemma results_send:
  assumes "results_ok l" "waiting_for_slot k l" shows "results_ok (round_trip_send b k l)"
proof (rule results_ok_mono [OF assms(1)])
  fix j r assume j: "j < length (calls l)" "c_result (calls (round_trip_send b k l) ! j) = Some (Inr r)"
  then show "c_result (calls l ! j) = Some (Inr r) \<or> (j, r) \<in> set (answers (round_trip_send b k l)) \<or> r = frame_error \<or> r = parse_error"
    by (cases "j = k") (auto simp: round_trip_send_def set_call_def Let_def split: if_splits option.splits)
qed (auto simp: round_trip_send_def set_call_def Let_def split: option.split)

lemma results_new_call: "results_ok l \<Longrightarrow> results_ok (new_call request l)"
  by (auto simp: results_ok_def new_call_def nth_append split: if_splits)

lemma deliver_result:
  assumes "results_ok l"
    "\<And>i k. ipc_id = Some i \<Longrightarrow> hget (pending l) i = Some k \<Longrightarrow> (k, r) \<in> set (answers l) \<or> r = frame_error \<or> r = parse_error"
    "\<And>i k rest. ipc_id = None \<Longrightarrow> pending l = (i, k) # rest \<Longrightarrow> (k, r) \<in> set (answers l) \<or> r = frame_error \<or> r = parse_error"
  shows "results_ok (deliver ipc_id r l)"
proof (cases ipc_id)
  case None
  show ?thesis
  proof (cases "pending l")
    case Nil
    then show ?thesis using assms(1) None by (simp add: deliver_def)
  next
    case (Cons p rest)
    obtain i k where p: "p = (i, k)" by (cases p)
    have "results_ok (settle (Inr r) k (l \<lparr>pending := rest\<rparr>))"
      by (rule results_settle [OF assms(1), of _ "Inr r" k]) (use None Cons p assms(3) in \<open>auto simp: settle_eq\<close>)
    then show ?thesis using None Cons p by (simp add: deliver_def)
  qed
next
  case (Some i)
  show ?thesis
  proof (cases "hget (pending l) i")
    case None
    then show ?thesis using assms(1) Some by (simp add: deliver_def)
  next
    case (Some k)
    have "results_ok (settle (Inr r) k (l \<lparr>pending := hremove i (pending l)\<rparr>))"
      by (rule results_settle [OF assms(1), of _ "Inr r" k]) (use \<open>ipc_id = Some i\<close> Some assms(2) in \<open>auto simp: settle_eq\<close>)
    then show ?thesis using \<open>ipc_id = Some i\<close> Some by (simp add: deliver_def)
  qed
qed

lemma read_results:
  assumes "struct l" "errors_last l" "length (entered l) < 2 ^ 64 - 1" "results_ok l" "\<not> tagged l \<longrightarrow> chain l" "reading l"
  shows "results_ok (read_frame_from_daemon l)"
proof (cases "to_proxy l")
  case Nil
  then show ?thesis using assms(4) by (simp add: read_frame_from_daemon_def)
next
  case (Cons f rest)
  show ?thesis
  proof (cases f)
    case (ReverseFrame i q)
    then show ?thesis using assms(4) Cons results_ok_same by (auto simp: read_frame_from_daemon_def)
  next
    case (ReplyFrame i r g)
    have ok: "ok_link_frame l (ReplyFrame i r g)" using frames_known(6) assms(1) Cons ReplyFrame by (simp add: struct_def)
    have base: "results_ok (l \<lparr>to_proxy := rest\<rparr>)" using assms(4) by (rule results_ok_same) auto
    have "results_ok (deliver i r (l \<lparr>to_proxy := rest\<rparr>))" if np: "\<not> is_push r"
    proof (rule deliver_result [OF base])
      fix n k assume n: "i = Some n" "hget (pending (l \<lparr>to_proxy := rest\<rparr>)) n = Some k"
      then have "cid l k = Some n" using frames_known(5) assms(1) map_of_SomeD by (fastforce simp: struct_def)
      moreover obtain g' where "g = Some g'" "cid l g' = Some n" "(g', r) \<in> set (answers l)"
        using ok n(1) by (cases g) (auto split: if_splits)
      ultimately show "(k, r) \<in> set (answers (l \<lparr>to_proxy := rest\<rparr>)) \<or> r = frame_error \<or> r = parse_error"
        using id_unique assms(1,3) by (fastforce simp: struct_def)
    next
      fix n k ps assume n: "i = None" "pending (l \<lparr>to_proxy := rest\<rparr>) = (n, k) # ps"
      show "(k, r) \<in> set (answers (l \<lparr>to_proxy := rest\<rparr>)) \<or> r = frame_error \<or> r = parse_error"
      proof (cases g)
        case None
        then show ?thesis using ok np by simp
      next
        case (Some g')
        then have "\<not> tagged l" "(g', r) \<in> set (answers l)" using ok n(1) by (auto split: if_splits)
        moreover have "k = g'" using assms(5,6) calculation(1) n(2) Cons ReplyFrame Some by (auto simp: chain_def)
        ultimately show ?thesis by simp
      qed
    qed
    then show ?thesis using base Cons ReplyFrame by (auto simp: read_frame_from_daemon_def handle_daemon_reply_def)
  qed
qed

lemma read_chain:
  assumes "struct l" "errors_last l" "\<not> tagged l" "chain l" "reading l"
  shows "chain (read_frame_from_daemon l)"
proof (cases "to_proxy l")
  case Nil
  then show ?thesis using assms(4) by (simp add: read_frame_from_daemon_def)
next
  case (Cons f rest)
  show ?thesis
  proof (cases f)
    case (ReverseFrame i q)
    then show ?thesis using assms(4) Cons by (simp add: read_frame_from_daemon_def chain_def dispatching_call_def)
  next
    case (ReplyFrame i r g)
    have ok: "ok_link_frame l (ReplyFrame i r g)" using frames_known(6) assms(1) Cons ReplyFrame by (simp add: struct_def)
    show ?thesis
    proof (cases g)
      case (Some k)
      then have i: "i = None" "\<not> is_push r" using ok assms(3) by auto
      obtain tail where t: "map snd (pending l) = k # reply_calls rest @ tail"
        "\<not> ended l \<longrightarrow> (\<exists>rest2. tail = dispatching_call l @ request_calls (deferred l) @ request_calls (to_daemon l) @ rest2 \<and>
              (writing l \<longrightarrow> rest2 = request_calls (outbound l)))"
        using assms(4,5) Cons ReplyFrame Some by (auto simp: chain_def)
      then obtain n ps where p: "pending l = (n, k) # ps" "map snd ps = reply_calls rest @ tail" by (cases "pending l") auto
      have "read_frame_from_daemon l = settle (Inr r) k (l \<lparr>to_proxy := rest, pending := ps\<rparr>)"
        using Cons ReplyFrame i p(1) by (simp add: read_frame_from_daemon_def handle_daemon_reply_def deliver_def)
      then show ?thesis using p(2) t(2) by (auto simp: chain_def settle_eq dispatching_call_def)
    next
      case None
      show ?thesis
      proof (cases "is_push r")
        case True
        then show ?thesis using assms(4) Cons ReplyFrame None
          by (simp add: read_frame_from_daemon_def handle_daemon_reply_def chain_def dispatching_call_def)
      next
        case False
        then have "ended l" "rest = []" using assms(2) Cons ReplyFrame None by (auto simp: errors_last_def split: if_splits)
        then show ?thesis using Cons ReplyFrame False
          by (simp add: read_frame_from_daemon_def handle_daemon_reply_def chain_def)
      qed
    qed
  qed
qed

lemma chain_handle_frame:
  assumes "\<not> tagged l" "ok_client_frame l f" "\<not> ended l" "dispatching l = None"
    "reading l \<longrightarrow> (\<exists>rest2. map snd (pending l) =
       reply_calls (to_proxy l) @ request_calls [f] @ request_calls (deferred l) @ request_calls (to_daemon l) @ rest2 \<and>
       (writing l \<longrightarrow> rest2 = request_calls (outbound l)))"
  shows "chain (handle_frame token f l)"
proof (cases f)
  case (ReverseReply i response asked)
  then show ?thesis using assms(3-5)
    by (auto simp: handle_frame_def deliver_reverse_reply_def chain_def dispatching_call_def split: option.split)
next
  case (RequestFrame i request k)
  then have "i = None" using assms(1,2) by (simp add: ok_req_def)
  then show ?thesis using assms(3-5) RequestFrame
    by (auto simp: handle_frame_def daemon_reply_def chain_def dispatching_call_def)
qed

lemma chain_daemon_next:
  assumes "struct l" "\<not> tagged l" "chain l" "\<not> ended l" "dispatching l = None"
  shows "chain (daemon_next token l)"
proof -
  have ok: "ok_client_frame l f" if "f \<in> set (deferred l) \<union> set (to_daemon l)" for f
    using assms that by (auto simp: struct_def wire_ok_def list_all_iff)
  have eq: "ok_client_frame (l \<lparr>deferred := rest\<rparr>) f = ok_client_frame l f" "ok_client_frame (l \<lparr>to_daemon := rest\<rparr>) f = ok_client_frame l f" for f rest
    by (cases f; simp add: ok_req_def cid_def creq_def)+
  have calls: "request_calls (f # fs) = request_calls [f] @ request_calls fs" for f fs by (cases f) simp_all
  show ?thesis
  proof (cases "deferred l")
    case (Cons f rest)
    have "chain (handle_frame token f (l \<lparr>deferred := rest\<rparr>))"
      by (rule chain_handle_frame)
        (use assms Cons ok [of f] eq in \<open>auto simp: chain_def dispatching_call_def calls [of f rest]\<close>)
    then show ?thesis using Cons by (simp add: daemon_next_def)
  next
    case Nil
    show ?thesis
    proof (cases "to_daemon l")
      case Nil': Nil
      then show ?thesis using Nil assms(3) by (simp add: daemon_next_def)
    next
      case (Cons f rest)
      have "chain (handle_frame token f (l \<lparr>to_daemon := rest\<rparr>))"
        by (rule chain_handle_frame)
          (use assms Cons Nil ok [of f] eq in \<open>auto simp: chain_def dispatching_call_def calls [of f rest]\<close>)
      then show ?thesis using Nil Cons by (simp add: daemon_next_def)
    qed
  qed
qed

lemma chain_read_ahead: "chain l \<Longrightarrow> chain (read_ahead l)"
  unfolding read_ahead_def Let_def
  by (auto simp: chain_def dispatching_call_def deliver_reverse_reply_def split: list.split client_frame.split option.split)

lemma chain_dispatch_ends:
  assumes "chain l" "\<not> ended l" shows "chain (dispatch_ends response l)"
  using assms by (auto simp: dispatch_ends_def daemon_reply_def chain_def dispatching_call_def split: option.split prod.split)

lemma chain_same:
  assumes "chain l" "reading l' \<longrightarrow> reading l" "map snd (pending l') = map snd (pending l)" "reply_calls (to_proxy l') = reply_calls (to_proxy l)"
    "\<not> ended l' \<longrightarrow> \<not> ended l" "dispatching l' = dispatching l" "request_calls (deferred l') = request_calls (deferred l)"
    "writing l' \<longrightarrow> writing l" "request_calls (to_daemon l') @ request_calls (outbound l') = request_calls (to_daemon l) @ request_calls (outbound l)"
    "writing l' \<or> to_daemon l' = to_daemon l"
  shows "chain l'"
  using assms unfolding chain_def dispatching_call_def by (cases "writing l'") auto

lemma chain_write:
  assumes "chain l" "writing l" shows "chain (write_loop failed l)"
  using assms by (auto simp: write_loop_def writes_failed_def chain_def dispatching_call_def split: list.split option.split)
    (cases "hd (outbound l)"; auto)+

lemmas quiet_defs = new_call_def round_trip_send_def set_call_def end_call_def ceiling_expired_def settle_eq mux_close_def
    fail_pending_def fold_settle_eq write_loop_def writes_failed_def answer_reverse_def task_ends_def write_in_flight_reply_def daemon_reply_def
    dispatch_ends_def daemon_push_def send_reverse_request_def loop_ends_def Let_def

lemma handle_frame_quiet:
  "calls (handle_frame token f l) = calls l" "tagged (handle_frame token f l) = tagged l" "entered (handle_frame token f l) = entered l"
  "disturbed (handle_frame token f l) = disturbed l" "queued (handle_frame token f l) = queued l"
  "set (answers l) \<subseteq> set (answers (handle_frame token f l))"
  by (auto simp: handle_frame_def daemon_reply_def deliver_reverse_reply_def split: client_frame.split option.split)

lemma daemon_next_quiet:
  "calls (daemon_next token l) = calls l" "tagged (daemon_next token l) = tagged l" "entered (daemon_next token l) = entered l"
  "disturbed (daemon_next token l) = disturbed l" "queued (daemon_next token l) = queued l" "set (answers l) \<subseteq> set (answers (daemon_next token l))"
  using handle_frame_quiet(6) by (force simp: daemon_next_def handle_frame_quiet(1-5) split: list.split)+

lemma read_ahead_quiet:
  "calls (read_ahead l) = calls l" "tagged (read_ahead l) = tagged l" "entered (read_ahead l) = entered l"
  "disturbed (read_ahead l) = disturbed l" "queued (read_ahead l) = queued l" "answers (read_ahead l) = answers l"
  by (auto simp: read_ahead_def deliver_reverse_reply_def Let_def split: list.split client_frame.split option.split)

lemma read_quiet:
  "tagged (read_frame_from_daemon l) = tagged l" "entered (read_frame_from_daemon l) = entered l" "disturbed (read_frame_from_daemon l) = disturbed l"
  "queued (read_frame_from_daemon l) = queued l" "answers (read_frame_from_daemon l) = answers l"
  "length (calls (read_frame_from_daemon l)) = length (calls l)"
  by (auto simp: read_frame_from_daemon_def handle_daemon_reply_def split: list.split link_frame.split)

lemma step_mono:
  assumes "link_step token l l'"
  shows "tagged l' = tagged l" "length (entered l) \<le> length (entered l')" "disturbed l \<longrightarrow> disturbed l'"
proof -
  show "tagged l' = tagged l" using assms
    by cases (simp_all add: quiet_defs daemon_next_quiet read_quiet read_ahead_quiet split: option.split list.split prod.split)
  show "length (entered l) \<le> length (entered l')" using assms
    by cases (simp_all add: quiet_defs daemon_next_quiet read_quiet read_ahead_quiet split: option.split list.split prod.split)
  show "disturbed l \<longrightarrow> disturbed l'" using assms
    by cases (simp_all add: quiet_defs daemon_next_quiet read_quiet read_ahead_quiet split: option.split list.split prod.split)
qed

lemma results_step:
  assumes "link_step token l l'" "struct l" "errors_last l" "length (entered l) < 2 ^ 64 - 1" "results_ok l" "\<not> tagged l \<longrightarrow> chain l"
  shows "results_ok l'"
  using assms(1)
proof cases
  case (Ceiling k)
  show ?thesis
  proof (cases "c_id (calls l ! k)")
    case None
    then show ?thesis using Ceiling assms(5) by (simp add: ceiling_expired_def)
  next
    case (Some i)
    let ?l = "l \<lparr>pending := hremove i (pending l), disturbed := True\<rparr>"
    have "results_ok (settle (Inl (local_failure ''daemon did not answer'')) k ?l)"
      by (rule results_settle [OF assms(5)]) (auto simp: settle_eq)
    then show ?thesis using Ceiling Some results_end_call by (simp add: ceiling_expired_def)
  qed
next
  case (Close failure)
  then show ?thesis using results_fold_settle [OF assms(5)] by (simp add: mux_close_def fold_settle_eq)
next
  case (Garbage failure)
  then show ?thesis using results_fold_settle [OF assms(5)] by (simp add: fail_pending_def fold_settle_eq)
next
  case Read
  then show ?thesis using read_results assms by blast
next
  case (NewCall request)
  then show ?thesis using results_new_call assms(5) by blast
next
  case (Send k too_large)
  then show ?thesis using results_send assms(5) by blast
next
  case (EndCall k)
  then show ?thesis using results_end_call assms(5) by blast
qed (auto intro!: results_ok_same [OF assms(5)] simp: daemon_next_quiet read_ahead_quiet write_loop_def writes_failed_def answer_reverse_def
    task_ends_def write_in_flight_reply_def daemon_reply_def dispatch_ends_def daemon_push_def send_reverse_request_def loop_ends_def Let_def
    dest: subsetD [OF daemon_next_quiet(6)] split: option.split list.split prod.split)

lemma untagged_no_tasks: "struct l \<Longrightarrow> \<not> tagged l \<Longrightarrow> running l = [] \<and> finished l = []"
  by (cases "running l"; cases "finished l"; auto simp: struct_def wire_ok_def)

lemma chain_step:
  assumes "link_step token l l'" "struct l" "errors_last l" "\<not> tagged l" "chain l" "\<not> disturbed l'"
  shows "chain l'"
  using assms(1)
proof cases
  case (Ceiling k)
  then show ?thesis using assms(5,6) by (auto simp: ceiling_expired_def end_call_def settle_eq set_call_def Let_def split: option.splits)
next
  case (Garbage failure)
  then show ?thesis using assms(6) by (simp add: fail_pending_def)
next
  case (Send k too_large)
  then show ?thesis using assms(5)
    by (auto simp: round_trip_send_def set_call_def chain_def dispatching_call_def Let_def split: option.split)
next
  case (Write failed)
  then show ?thesis using chain_write assms(5) by simp
next
  case Read
  then show ?thesis using read_chain assms by blast
next
  case DaemonNext
  then show ?thesis using chain_daemon_next assms by blast
next
  case ReadAhead
  then show ?thesis using chain_read_ahead assms by blast
next
  case (DispatchEnds response)
  then show ?thesis using chain_dispatch_ends assms by blast
next
  case (Close failure)
  then show ?thesis by (simp add: mux_close_def chain_def)
qed (use untagged_no_tasks [OF assms(2,4)] in \<open>auto intro!: chain_same [OF assms(5)] simp: new_call_def end_call_def set_call_def
    answer_reverse_def daemon_push_def send_reverse_request_def loop_ends_def Let_def split: prod.split\<close>)

interpretation link: step_system "link_step token" link_inv for token
proof
  fix l l' assume inv: "link_inv l" and step: "link_step token l l'"
  have "struct l'" "errors_last l'" using inv step struct_step errors_last_step by (auto simp: link_inv_def)
  moreover have "results_ok l' \<and> (\<not> tagged l' \<longrightarrow> chain l')"
    if new: "length (entered l') < 2 ^ 64 - 1" "tagged l' \<or> \<not> disturbed l'"
  proof -
    have old: "length (entered l) < 2 ^ 64 - 1" "tagged l \<or> \<not> disturbed l" using new step_mono [OF step] by auto
    with inv have "results_ok l" "\<not> tagged l \<longrightarrow> chain l" by (auto simp: link_inv_def)
    then show ?thesis
      using results_step [OF step] chain_step [OF step] inv old new step_mono(1) [OF step] by (auto simp: link_inv_def)
  qed
  ultimately show "link_inv l'" unfolding link_inv_def by blast
qed

lemma link_inv_start: "link_inv (mux_start is_tagged)"
  by (simp add: link_inv_def mux_start_def struct_def ids_ok_def wire_ok_def errors_last_def results_ok_def chain_def dispatching_call_def cid_def)

lemma reachable_steps: "link_reachable token l \<Longrightarrow> \<exists>is_tagged. (link_step token)\<^sup>*\<^sup>* (mux_start is_tagged) l"
  by (induction rule: link_reachable.induct) (auto intro: rtranclp.rtrancl_into_rtrancl)

lemma reachable_inv: "link_reachable token l \<Longrightarrow> link_inv l"
  using reachable_steps link.steps_inv link_inv_start by blast

text \<open>Reverse requests: with ids, the answer the daemon hands on is the one to its question.\<close>

definition reverse_ok :: "link \<Rightarrow> bool" where
  "reverse_ok l \<longleftrightarrow> (tagged l \<longrightarrow> list_all (\<lambda>(i, asked, _). i = asked) (reverse_answers l))"

lemma reverse_ok_deliver:
  "reverse_ok l \<Longrightarrow> tagged l \<longrightarrow> i = asked \<Longrightarrow> reverse_ok (deliver_reverse_reply i response asked l)"
  by (auto simp: reverse_ok_def deliver_reverse_reply_def)

lemma reverse_ok_handle:
  assumes "reverse_ok l" "ok_client_frame l f" shows "reverse_ok (handle_frame token f l)"
proof (cases f)
  case (ReverseReply i response asked)
  then have "tagged l \<longrightarrow> i = Some asked" using assms(2) by simp
  then show ?thesis using ReverseReply assms(1) reverse_ok_deliver [OF assms(1)]
    by (cases "tagged l") (auto simp: handle_frame_def reverse_ok_def split: option.split)
next
  case (RequestFrame i request k)
  then show ?thesis using assms(1) by (auto simp: handle_frame_def daemon_reply_def reverse_ok_def split: option.split)
qed

lemma reverse_ok_step:
  assumes "link_step token l l'" "struct l" "reverse_ok l" shows "reverse_ok l'"
  using assms(1)
proof cases
  case DaemonNext
  have ok: "ok_client_frame l f" if "f \<in> set (deferred l) \<union> set (to_daemon l)" for f
    using assms that by (auto simp: struct_def wire_ok_def list_all_iff)
  have eq: "ok_client_frame (l \<lparr>deferred := rest\<rparr>) f = ok_client_frame l f" "ok_client_frame (l \<lparr>to_daemon := rest\<rparr>) f = ok_client_frame l f"
    "reverse_ok (l \<lparr>deferred := rest\<rparr>)" "reverse_ok (l \<lparr>to_daemon := rest\<rparr>)" for f rest
    using assms(3) by (cases f; simp add: ok_req_def cid_def creq_def reverse_ok_def)+
  show ?thesis using DaemonNext assms(3) ok eq by (auto simp: daemon_next_def intro!: reverse_ok_handle split: list.split)
next
  case ReadAhead
  show ?thesis
  proof (cases "to_daemon l")
    case Nil
    then show ?thesis using ReadAhead assms(3) by (simp add: read_ahead_def)
  next
    case (Cons f rest)
    have ok: "ok_client_frame l f" using assms(2) Cons by (auto simp: struct_def wire_ok_def)
    have "reverse_ok (l \<lparr>to_daemon := rest\<rparr>)" "reverse_ok (l \<lparr>to_daemon := rest, deferred := deferred l @ [f]\<rparr>)"
      using assms(3) by (simp_all add: reverse_ok_def)
    then show ?thesis using ReadAhead Cons ok reverse_ok_deliver
      by (cases f) (auto simp: read_ahead_def Let_def split: option.split if_splits)
  qed
next
  case Read
  have "reverse_answers (read_frame_from_daemon l) = reverse_answers l"
    by (auto simp: read_frame_from_daemon_def handle_daemon_reply_def deliver_def settle_eq split: list.split link_frame.split option.split)
  then show ?thesis using Read assms(3) by (simp add: reverse_ok_def read_quiet)
qed (use assms(3) in \<open>simp_all add: reverse_ok_def quiet_defs split: option.split list.split prod.split\<close>)

lemma reachable_reverse_ok: "link_reachable token l \<Longrightarrow> reverse_ok l"
proof (induction rule: link_reachable.induct)
  case (Start is_tagged)
  then show ?case by (simp add: reverse_ok_def mux_start_def)
next
  case (Step l l')
  then show ?case using reverse_ok_step reachable_inv by (auto simp: link_inv_def)
qed


end
