(* ===== verification/Ipc_Retries.thy ===== *)
theory Ipc_Retries
  imports Ipc_Pairing
begin

section \<open>Retries and late replies\<close>

text \<open>
  A connector that reconnects sends a request again only when that cannot run it twice, and what goes wrong without ids when
  a request is given up before its reply came. Last, concrete runs of a connection on which the theorems apply.
\<close>

subsection \<open>A request reaches the writer at most once\<close>

definition never_left :: "call \<Rightarrow> bool" where
  "never_left c = (case c_result c of Some (Inl failure) \<Rightarrow> never_sent failure | _ \<Rightarrow> False)"

definition sent_ok :: "link \<Rightarrow> bool" where
  "sent_ok l \<longleftrightarrow> distinct (queued l) \<and> set (queued l) \<subseteq> set (entered l) \<and>
     (\<forall>k < length (calls l). never_left (calls l ! k) \<longrightarrow> k \<in> set (entered l) - set (queued l))"

lemma sent_ok_same:
  assumes "sent_ok l" "queued l' = queued l" "entered l' = entered l" "length (calls l') = length (calls l)"
    "\<And>k. never_left (calls l' ! k) \<Longrightarrow> never_left (calls l ! k)"
  shows "sent_ok l'"
  using assms by (auto simp: sent_ok_def)

lemma sent_ok_calls:
  "sent_ok l \<Longrightarrow> queued l' = queued l \<Longrightarrow> entered l' = entered l \<Longrightarrow> calls l' = calls l \<Longrightarrow> sent_ok l'"
  by (simp add: sent_ok_def)

lemma settled_never_left:
  assumes "never_left (settled result k cs ! j)" "\<And>failure. result = Inl failure \<Longrightarrow> \<not> never_sent failure"
  shows "never_left (cs ! j)"
  using assms settled_result [of result k cs j] by (fastforce simp: never_left_def split: option.splits sum.splits)

lemma fold_settled_never_left:
  assumes "never_left (fold (settled (Inl failure)) ks cs ! j)" "\<not> never_sent failure"
  shows "never_left (cs ! j)"
  using assms fold_settled_result [of "Inl failure" ks cs j] by (fastforce simp: never_left_def split: option.splits sum.splits)

lemma end_call_never_left: "never_left (calls (end_call k l) ! j) = never_left (calls l ! j)"
  by (simp add: end_call_def set_call_def never_left_def Let_def nth_update_field [where f = c_result])

lemma read_never_left: "never_left (calls (read_frame_from_daemon l) ! j) \<Longrightarrow> never_left (calls l ! j)"
  by (auto simp: read_frame_from_daemon_def handle_daemon_reply_def deliver_def settle_eq
      dest: settled_never_left split: list.splits link_frame.splits if_splits option.splits prod.splits)

lemma ceiling_never_left: "never_left (calls (ceiling_expired k l) ! j) \<Longrightarrow> never_left (calls l ! j)"
  by (auto simp: ceiling_expired_def end_call_never_left settle_eq local_failure_def dest!: settled_never_left split: option.splits)

lemma sent_ok_send:
  assumes "sent_ok l" "waiting_for_slot k l" "struct l"
  shows "sent_ok (round_trip_send b k l)"
proof -
  have k: "k < length (calls l)" "cid l k = None" using assms(2) by (auto simp: waiting_for_slot_def cid_def)
  have ne: "k \<notin> set (entered l)" using assms(3) k(2) by (auto simp: struct_def ids_ok_def in_set_conv_nth)
  then have new: "k \<notin> set (queued l)" using assms(1) by (auto simp: sent_ok_def)
  show ?thesis
  proof (cases "b \<or> closed l \<noteq> None")
    case True
    then have "queued (round_trip_send b k l) = queued l" "entered (round_trip_send b k l) = entered l @ [k]"
      "\<And>j. j \<noteq> k \<Longrightarrow> calls (round_trip_send b k l) ! j = calls l ! j" "length (calls (round_trip_send b k l)) = length (calls l)"
      by (auto simp: round_trip_send_def set_call_def Let_def split: option.split)
    then show ?thesis using assms(1) new unfolding sent_ok_def by auto (metis)+
  next
    case False
    then have f: "queued (round_trip_send b k l) = queued l @ [k]" "entered (round_trip_send b k l) = entered l @ [k]"
      "\<And>j. j \<noteq> k \<Longrightarrow> calls (round_trip_send b k l) ! j = calls l ! j" "length (calls (round_trip_send b k l)) = length (calls l)"
      "c_result (calls (round_trip_send b k l) ! k) = c_result (calls l ! k)"
      using k by (auto simp: round_trip_send_def set_call_def Let_def)
    have "\<not> never_left (calls (round_trip_send b k l) ! k)"
      using assms(1) k f(5) ne by (auto simp: sent_ok_def never_left_def)
    then show ?thesis using assms(1) new f(1-4) unfolding sent_ok_def by (auto) (metis)+
  qed
qed

lemma sent_ok_step:
  assumes "link_step token l l'" "sent_ok l" "struct l" shows "sent_ok l'"
  using assms(1)
proof cases
  case (Send k too_large)
  then show ?thesis using sent_ok_send assms(2,3) by blast
next
  case (NewCall request)
  then show ?thesis using assms(2) by (auto simp: sent_ok_def new_call_def never_left_def nth_append less_Suc_eq)
next
  case (EndCall k)
  then show ?thesis
    by (intro sent_ok_same [OF assms(2)]) (simp_all add: end_call_never_left, simp_all add: end_call_def set_call_def Let_def)
next
  case (Ceiling k)
  then show ?thesis
    by (intro sent_ok_same [OF assms(2)])
      (blast intro: ceiling_never_left | simp add: ceiling_expired_def end_call_def set_call_def settle_eq Let_def split: option.split)+
next
  case (Close failure)
  then show ?thesis
    by (intro sent_ok_same [OF assms(2)]) (auto dest: fold_settled_never_left simp: mux_close_def fold_settle_eq)
next
  case (Garbage failure)
  then show ?thesis
    by (intro sent_ok_same [OF assms(2)]) (auto dest: fold_settled_never_left simp: fail_pending_def fold_settle_eq)
next
  case Read
  then show ?thesis by (intro sent_ok_same [OF assms(2)]) (auto dest: read_never_left simp: read_quiet)
qed (intro sent_ok_calls [OF assms(2)]; simp add: daemon_next_quiet read_ahead_quiet quiet_defs split: option.split list.split prod.split)+

lemma reachable_sent_ok: "link_reachable token l \<Longrightarrow> sent_ok l"
proof (induction rule: link_reachable.induct)
  case (Start is_tagged)
  then show ?case by (simp add: sent_ok_def mux_start_def)
next
  case (Step l l')
  then show ?case using sent_ok_step reachable_inv by (auto simp: link_inv_def)
qed

lemma count_distinct: "distinct xs \<Longrightarrow> count_list xs k \<le> 1"
  by (induction xs) (auto simp: count_notin)

lemma retry_only_unsent:
  "snd (shared_round_trip UnsafeToRetry first_try reconnect second_try) \<Longrightarrow> \<exists>failure. first_try = Inl failure \<and> never_sent failure"
  by (auto simp: shared_round_trip_def split: sum.splits if_splits retry_policy.splits)

text \<open>
  C14. A request that is unsafe to run twice reaches the daemon's socket at most once over both connections of a round trip:
  the one that failed and the one the connector made after it, whatever else happened on either.
\<close>

theorem unsafe_request_once:
  assumes "link_reachable token l1" "k1 < length (calls l1)" "c_result (calls l1 ! k1) = Some first_try"
    "link_reachable token l2"
  shows "count_list (queued l1) k1 +
    (if snd (shared_round_trip UnsafeToRetry first_try reconnect second_try) then count_list (queued l2) k2 else 0) \<le> 1"
proof -
  have once: "count_list (queued l1) k1 \<le> 1" "count_list (queued l2) k2 \<le> 1"
    using reachable_sent_ok [OF assms(1)] reachable_sent_ok [OF assms(4)] unfolding sent_ok_def by (simp_all only: count_distinct)
  have "count_list (queued l1) k1 = 0" if "snd (shared_round_trip UnsafeToRetry first_try reconnect second_try)"
    using retry_only_unsent [OF that] reachable_sent_ok [OF assms(1)] assms(2,3)
    by (auto simp: sent_ok_def never_left_def count_list_0_iff)
  then show ?thesis using once by auto
qed

subsection \<open>Administrative requests\<close>

definition allowed_request :: "string \<Rightarrow> ipc_request \<Rightarrow> bool" where
  "allowed_request token request \<longleftrightarrow> requires_auth request \<longrightarrow> extract_auth_token request = Some token"

definition auth_ok :: "string \<Rightarrow> link \<Rightarrow> bool" where
  "auth_ok token l \<longleftrightarrow> list_all (\<lambda>(_, request, _). allowed_request token request) (running l) \<and>
     (case dispatching l of None \<Rightarrow> True | Some (_, request, _) \<Rightarrow> allowed_request token request)"

lemma auth_ok_handle: "auth_ok token l \<Longrightarrow> auth_ok token (handle_frame token f l)"
  by (auto simp: auth_ok_def allowed_request_def handle_frame_def daemon_reply_def deliver_reverse_reply_def list_all_iff
      split: client_frame.split option.split)

lemma auth_ok_same: "auth_ok token l \<Longrightarrow> set (running l') \<subseteq> set (running l) \<Longrightarrow> dispatching l' \<in> {None, dispatching l} \<Longrightarrow> auth_ok token l'"
  by (auto simp: auth_ok_def list_all_iff)

lemma auth_ok_step:
  assumes "link_step token l l'" "auth_ok token l" shows "auth_ok token l'"
  using assms(1)
proof cases
  case DaemonNext
  have "auth_ok token (l \<lparr>deferred := fs\<rparr>)" "auth_ok token (l \<lparr>to_daemon := fs\<rparr>)" for fs using assms(2) by (simp_all add: auth_ok_def)
  then show ?thesis using DaemonNext assms(2) by (auto simp: daemon_next_def intro: auth_ok_handle split: list.split)
next
  case (TaskEnds j result)
  have "set (take j (running l) @ drop (Suc j) (running l)) \<subseteq> set (running l)" using set_take_subset set_drop_subset by fastforce
  then show ?thesis using TaskEnds by (intro auth_ok_same [OF assms(2)]) (auto simp: task_ends_def split: prod.split)
next
  case Read
  then show ?thesis
    by (intro auth_ok_same [OF assms(2)])
      (auto simp: read_frame_from_daemon_def handle_daemon_reply_def deliver_def settle_eq split: list.split link_frame.split option.split)
next
  case ReadAhead
  then show ?thesis
    by (intro auth_ok_same [OF assms(2)])
      (auto simp: read_ahead_def deliver_reverse_reply_def Let_def split: list.split client_frame.split option.split)
qed (intro auth_ok_same [OF assms(2)]; simp add: quiet_defs split: option.split list.split prod.split)+

text \<open>
  C15. No interleaving of a connection gets an administrative request to run, on the loop or in a task of its own, without the daemon's
  token.
\<close>

theorem admin_needs_token:
  assumes "link_reachable token l" "requires_auth request"
    "(i, request, k) \<in> set (running l) \<or> dispatching l = Some (ipc_id, request, k)"
  shows "extract_auth_token request = Some token"
proof -
  have "auth_ok token l" using assms(1)
  proof induction
    case (Start is_tagged)
    then show ?case by (simp add: auth_ok_def mux_start_def)
  qed (rule auth_ok_step)
  then show ?thesis using assms(2,3) by (auto simp: auth_ok_def allowed_request_def list_all_iff)
qed

subsection \<open>Runs\<close>

text \<open>The steps of a run by their data; a step whose guard fails is no step.\<close>

datatype (plugins del: quickcheck_exhaustive quickcheck_random quickcheck_full_exhaustive quickcheck_narrowing) link_event =
    ANewCall ipc_request | ASend nat | ACeiling nat | AClose transport_failure | AWrite | ARead | ADaemonNext
  | ATaskEnds nat ipc_response | AWriteReply nat | ADispatchEnds ipc_response

fun link_guard :: "link_event \<Rightarrow> link \<Rightarrow> bool" where
  "link_guard (ASend k) l = (waiting_for_slot k l \<and> (round_trip_bypass k l \<or> 0 < slots l))"
| "link_guard (ACeiling k) l = (k < length (calls l) \<and> \<not> c_over (calls l ! k) \<and> c_result (calls l ! k) = None)"
| "link_guard (AClose failure) l = (\<not> never_sent failure)"
| "link_guard AWrite l = writing l"
| "link_guard ARead l = reading l"
| "link_guard ADaemonNext l = (\<not> ended l \<and> dispatching l = None)"
| "link_guard (ATaskEnds j response) l = (j < length (running l) \<and> \<not> is_push response)"
| "link_guard (AWriteReply j) l = (\<not> ended l \<and> j < length (finished l))"
| "link_guard (ADispatchEnds response) l = (\<not> ended l \<and> \<not> is_push response)"
| "link_guard (ANewCall request) l = True"

fun link_effect :: "string \<Rightarrow> link_event \<Rightarrow> link \<Rightarrow> link" where
  "link_effect token (ANewCall request) l = new_call request l"
| "link_effect token (ASend k) l = round_trip_send False k l"
| "link_effect token (ACeiling k) l = ceiling_expired k l"
| "link_effect token (AClose failure) l = mux_close failure l"
| "link_effect token AWrite l = write_loop None l"
| "link_effect token ARead l = read_frame_from_daemon l"
| "link_effect token ADaemonNext l = daemon_next token l"
| "link_effect token (ATaskEnds j response) l = task_ends j (Some response) l"
| "link_effect token (AWriteReply j) l = write_in_flight_reply j l"
| "link_effect token (ADispatchEnds response) l = dispatch_ends response l"

fun link_run :: "string \<Rightarrow> link_event list \<Rightarrow> link \<Rightarrow> link option" where
  "link_run token [] l = Some l"
| "link_run token (e # es) l = (if link_guard e l then link_run token es (link_effect token e l) else None)"

lemma link_effect_step: "link_guard e l \<Longrightarrow> link_step token l (link_effect token e l)"
  by (cases e) (auto intro: link_step.intros)

lemma link_run_reachable: "link_run token es l = Some l' \<Longrightarrow> link_reachable token l \<Longrightarrow> link_reachable token l'"
  by (induction es arbitrary: l) (auto intro: link_reachable.Step link_effect_step split: if_splits)

lemmas link_ops = mux_start_def new_call_def round_trip_send_def round_trip_bypass_def bypasses_slots_def waiting_for_slot_def set_call_def
  settle_def end_call_def ceiling_expired_def local_failure_def never_sent_failure_def mux_close_def write_loop_def handle_daemon_reply_def
  read_frame_from_daemon_def deliver_def daemon_reply_def handle_frame_def daemon_next_def task_ends_def write_in_flight_reply_def
  dispatch_ends_def hremove_def requires_auth_def extract_auth_token_def must_run_inline_def is_push_def MAX_CONCURRENT_REQUESTS_PER_CONNECTION_def

text \<open>Two calls with ids whose answers come back in the other order.\<close>

definition crossed_run :: "link_event list" where
  "crossed_run = [ANewCall ListTools, ANewCall Status, ASend 0, ASend 1, AWrite, AWrite, ADaemonNext, ADaemonNext,
     ATaskEnds 1 Pong, AWriteReply 0, ATaskEnds 0 (Tools []), AWriteReply 0, ARead, ARead]"

definition crossed_link :: link where
  "crossed_link = the (link_run ''t'' crossed_run (mux_start True))"

lemma crossed_link_run:
  "\<exists>l. link_run ''t'' crossed_run (mux_start True) = Some l \<and> tagged l \<and> length (calls l) = 2 \<and> length (entered l) = 2 \<and>
     c_result (calls l ! 0) = Some (Inr (Tools [])) \<and> c_result (calls l ! 1) = Some (Inr Pong)"
  by (simp add: crossed_run_def link_ops)

lemma crossed_link_reachable:
  "link_reachable ''t'' crossed_link" "tagged crossed_link" "length (calls crossed_link) = 2" "length (entered crossed_link) = 2"
  "c_result (calls crossed_link ! 0) = Some (Inr (Tools []))" "c_result (calls crossed_link ! 1) = Some (Inr Pong)"
  using crossed_link_run link_run_reachable [OF _ link_reachable.Start] by (auto simp: crossed_link_def)


text \<open>A call that finds its connection closed, and the connection made after it.\<close>

definition broken_run :: "link_event list" where
  "broken_run = [ANewCall ListTools, AClose \<lparr>message = ''gone'', reconnectable = True, never_sent = False\<rparr>, ASend 0]"

lemma broken_link_run:
  "\<exists>l. link_run ''t'' broken_run (mux_start True) = Some l \<and> length (calls l) = 1 \<and>
     c_result (calls l ! 0) = Some (Inl (never_sent_failure ''gone''))"
  by (simp add: broken_run_def link_ops)

definition broken_link :: link where
  "broken_link = the (link_run ''t'' broken_run (mux_start True))"

theorem unsafe_request_once_witness:
  "snd (shared_round_trip UnsafeToRetry (Inl (never_sent_failure ''gone'')) (Inr ()) (Inr (Tools []))) \<and>
   count_list (queued broken_link) 0 + count_list (queued crossed_link) 0 \<le> 1"
proof -
  have b: "link_reachable ''t'' broken_link" "length (calls broken_link) = 1"
    "c_result (calls broken_link ! 0) = Some (Inl (never_sent_failure ''gone''))"
    using broken_link_run link_run_reachable [OF _ link_reachable.Start] by (auto simp: broken_link_def)
  have r: "snd (shared_round_trip UnsafeToRetry (Inl (never_sent_failure ''gone'')) (Inr ()) (Inr (Tools [])))"
    by (simp add: shared_round_trip_def never_sent_failure_def)
  from b(2) have "0 < length (calls broken_link)" by simp
  from unsafe_request_once [OF b(1) this b(3) crossed_link_reachable(1), of "Inr ()" "Inr (Tools [])" 0] r show ?thesis by simp
qed

text \<open>An administrator's request that runs.\<close>

definition admin_run :: "link_event list" where
  "admin_run = [ANewCall (Reload ''t''), ASend 0, AWrite, ADaemonNext]"

definition admin_link :: link where
  "admin_link = the (link_run ''t'' admin_run (mux_start True))"

lemma admin_link_run:
  "\<exists>l. link_run ''t'' admin_run (mux_start True) = Some l \<and> running l = [(1, Reload ''t'', 0)]"
  by (simp add: admin_run_def link_ops)

theorem admin_needs_token_witness:
  "running admin_link = [(1, Reload ''t'', 0)] \<and> extract_auth_token (Reload ''t'') = Some ''t''"
proof -
  have l: "link_reachable ''t'' admin_link" "running admin_link = [(1, Reload ''t'', 0)]"
    using admin_link_run link_run_reachable [OF _ link_reachable.Start] by (auto simp: admin_link_def)
  then have "(1, Reload ''t'', 0) \<in> set (running admin_link) \<or> dispatching admin_link = Some (None, Reload ''t'', 0)" by simp
  from admin_needs_token [OF l(1) _ this] show ?thesis using l(2) by (simp add: requires_auth_def)
qed

definition late_run :: "link_event list" where
  "late_run = [ANewCall ListTools, ASend 0, AWrite, ADaemonNext, ACeiling 0, ANewCall Status, ASend 1, AWrite,
     ADispatchEnds (Tools []), ARead]"


end
